(* ===== verification/Prelude.thy ===== *)
theory Prelude
  imports Main "HOL-Library.Word" "HOL-Library.Monad_Syntax"
begin

text \<open>
  Shared vocabulary of the development: the machine types of the kernel as words, results as
  sums with the error on the left, little-endian readers and writers, and the generic lemmas on
  words, lists and maps the component theories rely on.  The arithmetic of the Rust code is
  modelled with the wrap-around it has in the release profile (\<open>overflow-checks\<close> off); where
  the debug profile would panic instead, the component's text says so.
\<close>

unbundle bit_operations_syntax

named_theorems word_nat \<open>moving word arithmetic to the natural numbers\<close>
named_theorems bit_laws \<open>single bits of masked words\<close>

section \<open>Machine types\<close>

type_synonym u8 = "8 word"
type_synonym u16 = "16 word"
type_synonym u32 = "32 word"
type_synonym u64 = "64 word"
type_synonym usize = "64 word"
type_synonym bytes = "u8 list"

type_synonym ('e, 'a) result = "'e + 'a"

section \<open>Results\<close>

text \<open>The question-mark operator of the source: continue with the value or return the error.\<close>

definition rbind :: "('e, 'a) result \<Rightarrow> ('a \<Rightarrow> ('e, 'b) result) \<Rightarrow> ('e, 'b) result" where
  "rbind r f = (case r of Inl e \<Rightarrow> Inl e | Inr a \<Rightarrow> f a)"

lemma rbind_simps [simp]: "rbind (Inl e) f = Inl e" "rbind (Inr a) f = f a"
  by (simp_all add: rbind_def)

lemma rbind_Inr_iff: "rbind r f = Inr b \<longleftrightarrow> (\<exists>a. r = Inr a \<and> f a = Inr b)"
  by (cases r) auto

definition ok_or :: "'e \<Rightarrow> 'a option \<Rightarrow> ('e, 'a) result" where
  "ok_or e v = (case v of None \<Rightarrow> Inl e | Some a \<Rightarrow> Inr a)"

lemma ok_or_simps [simp]: "ok_or e None = Inl e" "ok_or e (Some a) = Inr a"
  by (simp_all add: ok_or_def)

text \<open>A call that can also panic: the error value of the source, or the panic.\<close>

datatype 'e fault = Fail 'e | Panic

text \<open>\<open>map_err\<close> changes the error value; a panic is not an error value.\<close>

definition map_fail :: "('e \<Rightarrow> 'f) \<Rightarrow> ('e fault, 'a) result \<Rightarrow> ('f fault, 'a) result" where
  "map_fail h r = (case r of Inl (Fail e) \<Rightarrow> Inl (Fail (h e)) | Inl Panic \<Rightarrow> Inl Panic | Inr a \<Rightarrow> Inr a)"

lemma map_fail_simps [simp]:
  "map_fail h (Inl (Fail e)) = Inl (Fail (h e))" "map_fail h (Inl Panic) = Inl Panic" "map_fail h (Inr a) = Inr a"
  by (simp_all add: map_fail_def)

text \<open>Sequencing of operations that pass a state and can fail; the state survives the failure.\<close>

definition sbind :: "'s \<times> ('e, 'a) result \<Rightarrow> ('s \<Rightarrow> 'a \<Rightarrow> 's \<times> ('e, 'b) result) \<Rightarrow> 's \<times> ('e, 'b) result" where
  "sbind m f = (case m of (s, Inl e) \<Rightarrow> (s, Inl e) | (s, Inr a) \<Rightarrow> f s a)"

lemma sbind_simps [simp]: "sbind (s, Inl e) f = (s, Inl e)" "sbind (s, Inr a) f = f s a"
  by (simp_all add: sbind_def)

lemma sbind_cong [fundef_cong]:
  "m = m' \<Longrightarrow> (\<And>s a. m' = (s, Inr a) \<Longrightarrow> f s a = g s a) \<Longrightarrow> sbind m f = sbind m' g"
  by (auto simp: sbind_def split: prod.splits sum.splits)

lemma sbind_Inr_iff: "sbind m f = (s', Inr b) \<longleftrightarrow> (\<exists>s a. m = (s, Inr a) \<and> f s a = (s', Inr b))"
  by (auto simp: sbind_def split: prod.splits sum.splits)

section \<open>Words\<close>

text \<open>
  A shift amount is taken modulo the width, as the x86 shift instructions and the release
  profile do.
\<close>

definition shl64 :: "u64 \<Rightarrow> nat \<Rightarrow> u64" where
  "shl64 x n = push_bit (n mod 64) x"

lemma shl64_lt [simp]: "n < 64 \<Longrightarrow> shl64 x n = push_bit n x"
  by (simp add: shl64_def)

lemma bit_exp64 [bit_laws]: "b < 64 \<Longrightarrow> bit ((2 :: u64) ^ b) i \<longleftrightarrow> i = b"
  by (auto simp: bit_exp_iff)

lemma and_exp_eq [bit_laws]: "b < 64 \<Longrightarrow> (v :: u64) AND 2 ^ b = 2 ^ b \<longleftrightarrow> bit v b"
  by (auto simp: bit_eq_iff [where ?'a = u64] bit_and_iff bit_exp64)

lemma and_exp_zero [bit_laws]: "b < 64 \<Longrightarrow> (v :: u64) AND 2 ^ b = 0 \<longleftrightarrow> \<not> bit v b"
  by (auto simp: bit_eq_iff [where ?'a = u64] bit_and_iff bit_exp64)

lemma bit_and_not_exp [bit_laws]:
  "b < 64 \<Longrightarrow> bit ((v :: u64) AND NOT (2 ^ b)) i \<longleftrightarrow> bit v i \<and> i \<noteq> b"
  by (auto simp: bit_and_iff bit_not_iff bit_exp64 dest: bit_imp_le_length)

lemma bit_or_exp [bit_laws]:
  "b < 64 \<Longrightarrow> bit ((v :: u64) OR 2 ^ b) i \<longleftrightarrow> bit v i \<or> i = b"
  by (auto simp: bit_or_iff bit_exp64)

lemma unat_of_nat64 [word_nat]: "n < 2 ^ 64 \<Longrightarrow> unat (of_nat n :: u64) = n"
  by (simp add: unat_of_nat)

lemma unat_add64 [word_nat]:
  "unat (a :: u64) + unat b < 2 ^ 64 \<Longrightarrow> unat (a + b) = unat a + unat b"
  by (simp add: unat_word_ariths)

lemma unat_sub64 [word_nat]: "(b :: u64) \<le> a \<Longrightarrow> unat (a - b) = unat a - unat b"
  by (rule unat_sub)

lemma unat_and_not_mask:
  "unat (x AND NOT (mask n)) = unat x div 2 ^ n * 2 ^ n" for x :: "'a::len word"
proof -
  have eq: "x AND NOT (mask n) = push_bit n (drop_bit n x)"
    by (rule bit_word_eqI) (auto simp: bit_and_iff bit_not_iff bit_mask_iff bit_push_bit_iff bit_drop_bit_eq)
  have "unat x div 2 ^ n * 2 ^ n < 2 ^ LENGTH('a)"
    by (rule le_less_trans [OF div_times_less_eq_dividend unsigned_less])
  then show ?thesis unfolding eq unsigned_push_bit_eq unat_drop_bit_eq
    by (simp add: push_bit_eq_mult drop_bit_eq_div take_bit_eq_mod)
qed

lemma unat_align_down_4k: "unat (x AND - 4096) = unat x div 4096 * 4096" for x :: u64
  using unat_and_not_mask [of x 12] by (simp add: mask_eq_exp_minus_1)

lemma bit_exp_minus_one: "k \<le> 64 \<Longrightarrow> bit ((2 :: u64) ^ k - 1) i \<longleftrightarrow> i < k"
  using bit_mask_iff [of k i, where 'a = u64] by (auto simp: mask_eq_exp_minus_1)

lemma ceil_div_64: "(n + 63) div 64 = n div 64 + (if n mod 64 = 0 then 0 else 1)" for n :: nat
proof -
  have "(n + 63) div 64 = (64 * (n div 64) + (n mod 64 + 63)) div 64" by simp
  also have "\<dots> = n div 64 + (n mod 64 + 63) div 64" by (rule div_mult_self4) simp
  also have "(n mod 64 + 63) div 64 = (if n mod 64 = 0 then 0 else 1)"
  proof (cases "n mod 64 = 0")
    case False
    have "n mod 64 < 64" by simp
    then show ?thesis using False by (simp add: div_nat_eqI)
  qed simp
  finally show ?thesis .
qed

lemma take_bit_small: "unat w < 2 ^ n \<Longrightarrow> take_bit n w = w" for w :: "'a::len word"
  by (simp add: word_unat_eq_iff unsigned_take_bit_eq take_bit_nat_eq_self)

lemma bit_small: "unat w < 2 ^ n \<Longrightarrow> bit w i \<Longrightarrow> i < n" for w :: "'a::len word"
  using take_bit_small [of w n] by (metis bit_take_bit_iff)

text \<open>Page arithmetic on words, for evaluation.\<close>

lemma of_nat_pages [code_unfold]: "(of_nat (n * 4096) :: u64) = of_nat n * 4096"
  by simp

lemma unat_mod_page [code_unfold]: "unat x mod 4096 = unat (x mod 4096)" for x :: u64
  by (simp add: unat_mod)

section \<open>Bytes\<close>

text \<open>Little-endian integers, \<open>from_le_bytes\<close> and \<open>to_le_bytes\<close> of the source.\<close>

fun from_le :: "bytes \<Rightarrow> 'a::len word" where
  "from_le [] = 0"
| "from_le (b # bs) = ucast b OR push_bit 8 (from_le bs)"

primrec to_le :: "nat \<Rightarrow> 'a::len word \<Rightarrow> bytes" where
  "to_le 0 w = []"
| "to_le (Suc n) w = ucast w # to_le n (drop_bit 8 w)"

lemma length_to_le [simp]: "length (to_le n w) = n"
  by (induction n arbitrary: w) auto

lemma bit_from_le: "bit (from_le bs :: 'a::len word) i \<longleftrightarrow> i < LENGTH('a) \<and> i div 8 < length bs \<and> bit (bs ! (i div 8)) (i mod 8)"
proof (induction bs arbitrary: i)
  case (Cons b bs)
  show ?case
  proof (cases "i < 8")
    case True
    then show ?thesis by (auto simp: bit_or_iff bit_push_bit_iff bit_unsigned_iff dest: bit_imp_le_length)
  next
    case False
    then have "i div 8 = Suc ((i - 8) div 8)" "i mod 8 = (i - 8) mod 8" by (auto simp: div_if mod_if)
    moreover have "\<not> bit b i" using False bit_imp_le_length [of b i] by auto
    ultimately show ?thesis using False Cons.IH [of "i - 8"]
      by (auto simp: bit_or_iff bit_push_bit_iff bit_unsigned_iff dest: bit_imp_le_length)
  qed
qed simp

lemma nth_to_le: "k < n \<Longrightarrow> to_le n w ! k = ucast (drop_bit (8 * k) w)"
proof (induction n arbitrary: w k)
  case (Suc n)
  then show ?case by (cases k) (auto simp: drop_bit_drop_bit ac_simps)
qed simp

lemma from_to_le [simp]: "LENGTH('a) \<le> 8 * n \<Longrightarrow> from_le (to_le n w) = (w :: 'a::len word)"
proof (rule bit_word_eqI)
  fix i assume n: "LENGTH('a) \<le> 8 * n" and i: "i < LENGTH('a)"
  then have "i div 8 < n" by simp
  then show "bit (from_le (to_le n w) :: 'a word) i \<longleftrightarrow> bit w i"
    using i by (simp add: bit_from_le nth_to_le bit_unsigned_iff bit_drop_bit_eq)
qed

lemma to_from_le: "8 * length bs \<le> LENGTH('a) \<Longrightarrow> to_le (length bs) (from_le bs :: 'a::len word) = bs"
proof (rule nth_equalityI)
  fix k assume n: "8 * length bs \<le> LENGTH('a)" and k: "k < length (to_le (length bs) (from_le bs :: 'a word))"
  have "drop_bit (8 * k) (from_le bs :: 'a word) = X \<Longrightarrow> ucast X = bs ! k" for X
  proof (rule bit_word_eqI)
    fix i :: nat assume i: "i < LENGTH(8)" and X: "drop_bit (8 * k) (from_le bs :: 'a word) = X"
    have "(8 * k + i) div 8 = k" "(8 * k + i) mod 8 = i" using i by auto
    moreover have "8 * k + i < LENGTH('a)" using i k n by simp
    ultimately show "bit (ucast X :: u8) i \<longleftrightarrow> bit (bs ! k) i"
      using i k by (simp add: bit_unsigned_iff X [symmetric] bit_drop_bit_eq bit_from_le add.commute)
  qed
  then show "to_le (length bs) (from_le bs :: 'a word) ! k = bs ! k" using k by (simp add: nth_to_le)
qed simp

lemma from_le_inj:
  "length bs = length cs \<Longrightarrow> 8 * length bs \<le> LENGTH('a) \<Longrightarrow> (from_le bs :: 'a::len word) = from_le cs \<Longrightarrow> bs = cs"
  using to_from_le [of bs, where 'a = 'a] to_from_le [of cs, where 'a = 'a] by metis

text \<open>Characters of a string and their bytes.\<close>

definition byte_char :: "u8 \<Rightarrow> char" where
  "byte_char b = char_of (unat b)"

definition char_byte :: "char \<Rightarrow> u8" where
  "char_byte c = of_char c"

lemma byte_char_byte [simp]: "byte_char (char_byte c) = c"
proof -
  have "unat (of_nat (of_char c) :: u8) = (of_char c :: nat)"
    unfolding unat_of_nat using nat_of_char_less_256 [of c] by simp
  then show ?thesis by (simp add: byte_char_def char_byte_def of_nat_of_char)
qed

text \<open>A checked slice, \<open>buf.get(a..b)\<close>, and the little-endian integer of \<open>n\<close> bytes at an offset.\<close>

definition get_slice :: "'a list \<Rightarrow> nat \<Rightarrow> nat \<Rightarrow> 'a list option" where
  "get_slice buf a b = (if a \<le> b \<and> b \<le> length buf then Some (take (b - a) (drop a buf)) else None)"

definition le_at :: "nat \<Rightarrow> bytes \<Rightarrow> nat \<Rightarrow> 'a::len word" where
  "le_at n buf off = from_le (take n (drop off buf))"

definition get_le :: "nat \<Rightarrow> bytes \<Rightarrow> nat \<Rightarrow> 'a::len word option" where
  "get_le n buf off = map_option from_le (get_slice buf off (off + n))"

lemma get_le_Some: "off + n \<le> length buf \<Longrightarrow> get_le n buf off = Some (le_at n buf off)"
  by (simp add: get_le_def get_slice_def le_at_def)

lemma le_at_cong: "take n (drop off buf) = take n (drop off buf') \<Longrightarrow> le_at n buf off = le_at n buf' off"
  by (simp add: le_at_def)

text \<open>Overwriting part of a buffer, \<open>buf[a..a + len].copy_from_slice(bs)\<close>.\<close>

definition splice :: "nat \<Rightarrow> 'a list \<Rightarrow> 'a list \<Rightarrow> 'a list" where
  "splice a bs buf = take a buf @ bs @ drop (a + length bs) buf"

lemma length_splice [simp]: "a + length bs \<le> length buf \<Longrightarrow> length (splice a bs buf) = length buf"
  by (simp add: splice_def)

lemma nth_splice:
  assumes "a + length bs \<le> length buf" "i < length buf"
  shows "splice a bs buf ! i = (if a \<le> i \<and> i < a + length bs then bs ! (i - a) else buf ! i)"
  using assms by (auto simp: splice_def nth_append min_def)

lemma splice_self: "a + n \<le> length buf \<Longrightarrow> splice a (take n (drop a buf)) buf = buf"
  by (rule nth_equalityI) (auto simp: nth_splice)

lemma take_drop_splice [simp]:
  "a + length bs \<le> length buf \<Longrightarrow> take (length bs) (drop a (splice a bs buf)) = bs"
  by (simp add: splice_def)

lemma take_drop_nth: "a + n \<le> length xs \<Longrightarrow> take n (drop a xs) = map (\<lambda>i. xs ! i) [a..<a + n]"
  by (rule nth_equalityI) auto

end
