(* ===== verification/Frame_Interface.thy ===== *)
theory Frame_Interface
  imports Prelude
begin

text \<open>
  The contract between an allocator and the code that takes resources from it (page mapping, the
  slab allocator, address-space construction).  \<open>resource_pool\<close>: the free resources are a subset
  of the managed ones, an allocation takes one free resource out and fails only when there is
  none, and giving a resource in use back makes it free.  \<open>frame_allocator\<close> adds that giving back a
  resource that is free already changes nothing.
\<close>

text \<open>A client that allocates until it has \<open>n\<close> frames or the allocator is exhausted.\<close>

fun alloc_many :: "('s \<Rightarrow> 's \<times> 'f option) \<Rightarrow> nat \<Rightarrow> 's \<Rightarrow> 's \<times> 'f list" where
  "alloc_many alloc 0 s = (s, [])"
| "alloc_many alloc (Suc n) s =
    (case alloc s of
       (s', None) \<Rightarrow> (s', [])
     | (s', Some f) \<Rightarrow> (let (s'', fs) = alloc_many alloc n s' in (s'', f # fs)))"

text \<open>A client that gives a list of frames back.\<close>

fun dealloc_many :: "('s \<Rightarrow> 'f \<Rightarrow> ('e, 's) result) \<Rightarrow> 'f list \<Rightarrow> 's \<Rightarrow> ('e, 's) result" where
  "dealloc_many dealloc [] s = Inr s"
| "dealloc_many dealloc (f # fs) s = rbind (dealloc s f) (dealloc_many dealloc fs)"

locale resource_pool =
  fixes inv :: "'s \<Rightarrow> bool"
    and frames :: "'s \<Rightarrow> 'f set"
    and free :: "'s \<Rightarrow> 'f set"
    and alloc :: "'s \<Rightarrow> 's \<times> 'f option"
    and dealloc :: "'s \<Rightarrow> 'f \<Rightarrow> ('e, 's) result"
  assumes free_frames: "inv s \<Longrightarrow> free s \<subseteq> frames s"
    and finite_frames: "inv s \<Longrightarrow> finite (frames s)"
    and alloc_Some: "inv s \<Longrightarrow> alloc s = (s', Some f) \<Longrightarrow>
      inv s' \<and> frames s' = frames s \<and> f \<in> free s \<and> free s' = free s - {f}"
    and alloc_None: "inv s \<Longrightarrow> alloc s = (s', None) \<Longrightarrow> s' = s \<and> free s = {}"
    and dealloc_used: "inv s \<Longrightarrow> f \<in> frames s - free s \<Longrightarrow>
      \<exists>s'. dealloc s f = Inr s' \<and> inv s' \<and> frames s' = frames s \<and> free s' = insert f (free s)"
begin

lemma finite_free: "inv s \<Longrightarrow> finite (free s)"
  by (rule finite_subset [OF free_frames finite_frames])

lemma many_distinct:
  assumes "inv s" "alloc_many alloc n s = (s', fs)"
  shows "inv s' \<and> frames s' = frames s \<and> distinct fs \<and> set fs \<subseteq> free s \<and> free s' = free s - set fs"
  using assms
proof (induction n arbitrary: s fs)
  case (Suc n)
  obtain s1 r where a: "alloc s = (s1, r)" by (cases "alloc s")
  show ?case
  proof (cases r)
    case None
    with Suc.prems a alloc_None [of s s1] show ?thesis by auto
  next
    case (Some f)
    obtain fs' where m: "alloc_many alloc n s1 = (s', fs')" and fs: "fs = f # fs'"
      using Suc.prems(2) a Some by (auto split: prod.splits)
    have s1: "inv s1" "frames s1 = frames s" "f \<in> free s" "free s1 = free s - {f}"
      using alloc_Some [OF Suc.prems(1)] a Some by auto
    from Suc.IH [OF s1(1) m] s1 fs show ?thesis by auto
  qed
qed simp

lemma many_length:
  assumes "inv s" "alloc_many alloc n s = (s', fs)"
  shows "length fs = min n (card (free s))"
  using assms
proof (induction n arbitrary: s fs)
  case (Suc n)
  obtain s1 r where a: "alloc s = (s1, r)" by (cases "alloc s")
  show ?case
  proof (cases r)
    case None
    with Suc.prems a alloc_None [of s s1] show ?thesis by auto
  next
    case (Some f)
    obtain fs' where m: "alloc_many alloc n s1 = (s', fs')" and fs: "fs = f # fs'"
      using Suc.prems(2) a Some by (auto split: prod.splits)
    have s1: "inv s1" "f \<in> free s" "free s1 = free s - {f}"
      using alloc_Some [OF Suc.prems(1)] a Some by auto
    have "card (free s) = Suc (card (free s1))"
      using s1 finite_free [OF Suc.prems(1)] by (metis card_Suc_Diff1)
    with Suc.IH [OF s1(1) m] fs show ?thesis by simp
  qed
qed simp

lemma dealloc_many_used:
  assumes "inv s" "set fs \<subseteq> frames s - free s" "distinct fs"
  shows "\<exists>s'. dealloc_many dealloc fs s = Inr s' \<and> inv s' \<and> frames s' = frames s
    \<and> free s' = free s \<union> set fs"
  using assms
proof (induction fs arbitrary: s)
  case (Cons f fs)
  then obtain s1 where s1: "dealloc s f = Inr s1" "inv s1" "frames s1 = frames s"
      "free s1 = insert f (free s)"
    using dealloc_used [of s f] by auto
  have "set fs \<subseteq> frames s1 - free s1" using Cons.prems s1 by auto
  with Cons.IH [of s1] Cons.prems(3) s1 show ?case by auto
qed simp

lemma alloc_dealloc_restores:
  assumes "inv s" "alloc_many alloc n s = (s1, fs)"
  shows "\<exists>s2. dealloc_many dealloc fs s1 = Inr s2 \<and> inv s2 \<and> frames s2 = frames s \<and> free s2 = free s"
proof -
  have s1: "inv s1" "frames s1 = frames s" "distinct fs" "set fs \<subseteq> free s" "free s1 = free s - set fs"
    using many_distinct [OF assms] by auto
  moreover have "set fs \<subseteq> frames s1 - free s1" using s1 free_frames [OF assms(1)] by blast
  ultimately obtain s2 where "dealloc_many dealloc fs s1 = Inr s2" "inv s2" "frames s2 = frames s1"
      "free s2 = free s1 \<union> set fs"
    using dealloc_many_used by blast
  with s1 show ?thesis by auto
qed

end

locale frame_allocator = resource_pool inv frames free alloc dealloc
  for inv :: "'s \<Rightarrow> bool" and frames :: "'s \<Rightarrow> 'f set" and free :: "'s \<Rightarrow> 'f set"
    and alloc :: "'s \<Rightarrow> 's \<times> 'f option" and dealloc :: "'s \<Rightarrow> 'f \<Rightarrow> ('e, 's) result" +
  assumes dealloc_free: "inv s \<Longrightarrow> f \<in> free s \<Longrightarrow>
      \<exists>s'. dealloc s f = Inr s' \<and> inv s' \<and> frames s' = frames s \<and> free s' = free s"
begin

lemma dealloc_frame:
  assumes "inv s" "f \<in> frames s"
  shows "\<exists>s'. dealloc s f = Inr s' \<and> inv s' \<and> frames s' = frames s \<and> free s' = insert f (free s)"
proof (cases "f \<in> free s")
  case True
  with dealloc_free [OF assms(1) True] show ?thesis by (simp add: insert_absorb)
next
  case False
  with dealloc_used [OF assms(1)] assms(2) show ?thesis by simp
qed

end

end
