(* ===== verification/SlabAlloc.thy ===== *)
theory SlabAlloc
  imports Frame_Interface "HOL-Library.Multiset"
begin

text \<open>
  The kernel heap of \<open>zenos-kernel/src/memory/alloc.rs\<close>.  A slab is fifteen pages that hold a
  \<open>SlabMeta\<close> header and blocks of one size class, each after its own \<open>BlockMeta\<close>; the free blocks
  form a doubly linked list through their headers.  The headers live in raw memory, modelled as
  two stores that map an address to the header at that address.  Mapping and unmapping the pages
  of a slab are the two functions of \<open>page_ops\<close>; a panic of the source is the value \<open>None\<close>, the
  null pointer is the address 0.
\<close>

section \<open>Data\<close>

definition MAX_SLAB_PAGES :: nat where "MAX_SLAB_PAGES = 15"

definition SLAB_SIZE_CLASSES :: "nat list" where
  "SLAB_SIZE_CLASSES = [8, 16, 32, 64, 128, 256, 512, 1024, 2048, 4096]"

definition MAX_SLABS :: nat where "MAX_SLABS = 32"

definition SLAB_BASE_ADDR :: u64 where "SLAB_BASE_ADDR = 0xFFFFFF1000000000"

definition LARGE_ALLOC_BASE_ADDR :: u64 where "LARGE_ALLOC_BASE_ADDR = 0xFFFFFF4000000000"

text \<open>\<open>size_of::<BlockMeta>()\<close> and \<open>size_of::<SlabMeta>()\<close>, both structures being 16-aligned.\<close>

definition size_of_BlockMeta :: nat where "size_of_BlockMeta = 32"
definition size_of_SlabMeta :: nat where "size_of_SlabMeta = 32"

definition SLAB_MAGIC :: u64 where "SLAB_MAGIC = push_bit 1 0x16042010 OR 1"

record block_meta =
  bm_next :: "u64 option"
  bm_prev :: "u64 option"
  bm_used :: bool

definition block_meta_new :: block_meta where
  "block_meta_new = \<lparr>bm_next = None, bm_prev = None, bm_used = False\<rparr>"

record slab_meta =
  sm_size :: nat
  sm_used :: nat
  sm_total :: nat
  sm_magic :: u64

definition slab_meta_new :: "nat \<Rightarrow> nat \<Rightarrow> slab_meta" where
  "slab_meta_new sz n = \<lparr>sm_size = sz, sm_used = 0, sm_total = n, sm_magic = SLAB_MAGIC\<rparr>"

definition is_full :: "slab_meta \<Rightarrow> bool" where
  "is_full m \<longleftrightarrow> sm_total m \<le> sm_used m"

definition meta_allocate :: "slab_meta \<Rightarrow> slab_meta \<times> nat option" where
  "meta_allocate m = (if is_full m then (m, None) else (m\<lparr>sm_used := sm_used m + 1\<rparr>, Some (sm_used m)))"

definition meta_deallocate :: "slab_meta \<Rightarrow> slab_meta" where
  "meta_deallocate m = (if sm_used m > 0 then m\<lparr>sm_used := sm_used m - 1\<rparr> else m)"

record slab =
  slab_base :: u64
  slab_size :: nat
  slab_head :: "u64 option"

record slab_mem =
  blocks :: "u64 \<Rightarrow> block_meta"
  metas :: "u64 \<Rightarrow> slab_meta"

record 'k page_ops =
  map_arbitrary :: "'k \<Rightarrow> u64 \<Rightarrow> 'k option"
  free_arbitrary :: "'k \<Rightarrow> u64 \<Rightarrow> 'k option"

section \<open>One slab\<close>

text \<open>The calls of \<open>kalloc_page\<close> (or \<open>kfree_page\<close>) for the pages of a slab, in order.\<close>

fun each_page :: "('k \<Rightarrow> u64 \<Rightarrow> 'k option) \<Rightarrow> u64 \<Rightarrow> nat list \<Rightarrow> 'k \<Rightarrow> 'k option" where
  "each_page f base [] k = Some k"
| "each_page f base (j # js) k =
    (case f k (base + of_nat (j * 4096)) of None \<Rightarrow> None | Some k' \<Rightarrow> each_page f base js k')"

definition block_addr :: "u64 \<Rightarrow> nat \<Rightarrow> nat \<Rightarrow> u64" where
  "block_addr base sz i =
    base + of_nat size_of_SlabMeta + of_nat (i * (size_of_BlockMeta + sz))"

definition blocks_per_slab :: "nat \<Rightarrow> nat" where
  "blocks_per_slab sz =
    (MAX_SLAB_PAGES * 4096 - size_of_SlabMeta) div (size_of_BlockMeta + sz)"

text \<open>One turn of the loop of \<open>Slab::new\<close> that chains the blocks.\<close>

definition link_block ::
  "u64 \<Rightarrow> nat \<Rightarrow> (u64 \<Rightarrow> block_meta) \<times> u64 option \<times> u64 option \<Rightarrow> nat
    \<Rightarrow> (u64 \<Rightarrow> block_meta) \<times> u64 option \<times> u64 option" where
  "link_block base sz st i =
    (let (b, head, prev) = st;
         nn = block_addr base sz i;
         b = b(nn := block_meta_new)
     in case prev of
          Some p \<Rightarrow>
            (let b = b(p := (b p)\<lparr>bm_next := Some nn\<rparr>);
                 b = b(nn := (b nn)\<lparr>bm_prev := Some p\<rparr>)
             in (b, head, Some nn))
        | None \<Rightarrow> (b, Some nn, Some nn))"

definition slab_new ::
  "'k page_ops \<Rightarrow> 'k \<Rightarrow> slab_mem \<Rightarrow> u64 \<Rightarrow> nat \<Rightarrow> slab_meta \<Rightarrow> ('k \<times> slab_mem \<times> slab) option" where
  "slab_new ops k mem base_addr sz meta =
    (case each_page (map_arbitrary ops) base_addr [0..<MAX_SLAB_PAGES] k of
       None \<Rightarrow> None
     | Some k' \<Rightarrow>
         (let actual_blocks = blocks_per_slab sz;
              meta' = (if actual_blocks < sm_total meta then meta\<lparr>sm_total := actual_blocks\<rparr> else meta);
              (b, head, prev) = foldl (link_block base_addr sz) (blocks mem, None, None) [0..<actual_blocks]
          in Some (k', mem\<lparr>blocks := b, metas := (metas mem)(base_addr := meta')\<rparr>,
                   \<lparr>slab_base = base_addr, slab_size = sz, slab_head = head\<rparr>)))"

definition used_blocks :: "slab_mem \<Rightarrow> slab \<Rightarrow> nat" where
  "used_blocks mem s = sm_used (metas mem (slab_base s))"

definition slab_free :: "'k page_ops \<Rightarrow> 'k \<Rightarrow> slab \<Rightarrow> 'k option" where
  "slab_free ops k s = each_page (free_arbitrary ops) (slab_base s) [0..<MAX_SLAB_PAGES] k"

definition slab_alloc :: "slab_mem \<times> slab \<Rightarrow> (slab_mem \<times> slab) \<times> u64" where
  "slab_alloc st =
    (let (mem, s) = st;
         meta = metas mem (slab_base s)
     in if sm_magic meta \<noteq> SLAB_MAGIC then (st, 0)
        else if is_full meta then (st, 0)
        else case slab_head s of
               None \<Rightarrow> (st, 0)
             | Some nn \<Rightarrow>
                 (let next = bm_next (blocks mem nn);
                      s' = s\<lparr>slab_head := next\<rparr>;
                      b = (case next of
                             Some nxt \<Rightarrow> (blocks mem)(nxt := (blocks mem nxt)\<lparr>bm_prev := None\<rparr>)
                           | None \<Rightarrow> blocks mem);
                      b = b(nn := (b nn)\<lparr>bm_used := True\<rparr>);
                      m = (metas mem)(slab_base s := fst (meta_allocate meta))
                  in ((mem\<lparr>blocks := b, metas := m\<rparr>, s'), nn + of_nat size_of_BlockMeta)))"

definition slab_dealloc :: "slab_mem \<times> slab \<Rightarrow> u64 \<Rightarrow> (slab_mem \<times> slab) option" where
  "slab_dealloc st ptr =
    (let (mem, s) = st;
         meta = metas mem (slab_base s)
     in if sm_magic meta \<noteq> SLAB_MAGIC \<or> sm_used meta = 0 \<or> ptr = 0 then Some st
        else
          (let nn = ptr - of_nat size_of_BlockMeta
           in if nn = 0 then None
              else
                (let b = (blocks mem)(nn := \<lparr>bm_next = slab_head s, bm_prev = None, bm_used = False\<rparr>);
                     b = (case slab_head s of
                            Some old_head \<Rightarrow> b(old_head := (b old_head)\<lparr>bm_prev := Some nn\<rparr>)
                          | None \<Rightarrow> b);
                     m = (metas mem)(slab_base s := meta_deallocate meta)
                 in Some (mem\<lparr>blocks := b, metas := m\<rparr>, s\<lparr>slab_head := Some nn\<rparr>))))"

section \<open>The slab allocator\<close>

record 'k slab_allocator =
  sa_pages :: 'k
  sa_mem :: slab_mem
  slabs :: "slab list"
  next_base :: u64
  freed_slots :: "u64 list"

definition slab_allocator_new :: "'k \<Rightarrow> slab_mem \<Rightarrow> 'k slab_allocator" where
  "slab_allocator_new k mem =
    \<lparr>sa_pages = k, sa_mem = mem, slabs = [], next_base = SLAB_BASE_ADDR, freed_slots = []\<rparr>"

fun find_slab :: "nat \<Rightarrow> slab list \<Rightarrow> nat option" where
  "find_slab sz [] = None"
| "find_slab sz (s # ss) =
    (if slab_size s = sz then Some 0 else map_option Suc (find_slab sz ss))"

text \<open>\<open>freed_slots\<close> is a stack: \<open>push\<close> and \<open>pop\<close> work at its end.\<close>

definition take_base :: "'k slab_allocator \<Rightarrow> u64 \<times> 'k slab_allocator" where
  "take_base a =
    (if freed_slots a \<noteq> [] then (last (freed_slots a), a\<lparr>freed_slots := butlast (freed_slots a)\<rparr>)
     else (next_base a, a\<lparr>next_base := next_base a + of_nat (MAX_SLAB_PAGES * 4096)\<rparr>))"

definition add_slab :: "'k page_ops \<Rightarrow> 'k slab_allocator \<Rightarrow> nat \<Rightarrow> ('k slab_allocator \<times> u64) option" where
  "add_slab ops a sz =
    (let (base, a) = take_base a
     in case slab_new ops (sa_pages a) (sa_mem a) base sz (slab_meta_new sz (blocks_per_slab sz)) of
          None \<Rightarrow> None
        | Some (k, mem, new_slab) \<Rightarrow>
            (let ((mem', s'), ptr) = slab_alloc (mem, new_slab);
                 a = a\<lparr>sa_pages := k, sa_mem := mem'\<rparr>
             in if ptr = 0 then Some (a, 0)
                else if length (slabs a) \<ge> MAX_SLABS then None
                else Some (a\<lparr>slabs := slabs a @ [s']\<rparr>, ptr)))"

definition sa_alloc :: "'k page_ops \<Rightarrow> 'k slab_allocator \<Rightarrow> nat \<Rightarrow> nat \<Rightarrow> ('k slab_allocator \<times> u64) option" where
  "sa_alloc ops a sz align =
    (if sz = 0 then Some (a, 0)
     else if sz > last SLAB_SIZE_CLASSES then Some (a, 0)
     else case find (\<lambda>s. sz \<le> s \<and> align \<le> s) SLAB_SIZE_CLASSES of
            None \<Rightarrow> Some (a, 0)
          | Some c \<Rightarrow>
              (case find_slab c (slabs a) of
                 None \<Rightarrow> add_slab ops a c
               | Some i \<Rightarrow>
                   (let ((mem', s'), ptr) = slab_alloc (sa_mem a, slabs a ! i);
                        a' = a\<lparr>sa_mem := mem', slabs := (slabs a)[i := s']\<rparr>
                    in if ptr \<noteq> 0 then Some (a', ptr) else add_slab ops a' c)))"

text \<open>\<open>Vec::swap_remove\<close>: the last element takes the place of the removed one.\<close>

definition swap_remove :: "'a list \<Rightarrow> nat \<Rightarrow> 'a list" where
  "swap_remove xs i = (if i = length xs - 1 then butlast xs else butlast (xs[i := last xs]))"

definition sa_dealloc :: "'k page_ops \<Rightarrow> 'k slab_allocator \<Rightarrow> u64 \<Rightarrow> nat \<Rightarrow> 'k slab_allocator option" where
  "sa_dealloc ops a ptr sz =
    (if ptr = 0 then Some a
     else case find (\<lambda>s. sz \<le> s) SLAB_SIZE_CLASSES of
            None \<Rightarrow> Some a
          | Some c \<Rightarrow>
              (case find_slab c (slabs a) of
                 None \<Rightarrow> Some a
               | Some i \<Rightarrow>
                   (case slab_dealloc (sa_mem a, slabs a ! i) ptr of
                      None \<Rightarrow> None
                    | Some (mem', s') \<Rightarrow>
                        (let a = a\<lparr>sa_mem := mem', slabs := (slabs a)[i := s']\<rparr>
                         in if used_blocks mem' s' = 0
                            then (case slab_free ops (sa_pages a) s' of
                                    None \<Rightarrow> None
                                  | Some k \<Rightarrow>
                                      Some (a\<lparr>sa_pages := k, slabs := swap_remove (slabs a) i,
                                        freed_slots := (if length (freed_slots a) < MAX_SLABS
                                                        then freed_slots a @ [slab_base s']
                                                        else freed_slots a)\<rparr>))
                            else Some a))))"

section \<open>Blocks and free lists\<close>

text \<open>
  The blocks of a slab, the pointers handed to callers, and the invariant: the free list starts at
  \<open>head\<close>, is linked in both directions, has no repetitions and holds exactly the blocks that are not
  in use; the header counts the others.
\<close>

definition slab_blocks :: "slab \<Rightarrow> u64 set" where
  "slab_blocks s = block_addr (slab_base s) (slab_size s) ` {..<blocks_per_slab (slab_size s)}"

fun free_list :: "(u64 \<Rightarrow> block_meta) \<Rightarrow> u64 option \<Rightarrow> u64 option \<Rightarrow> u64 list \<Rightarrow> bool" where
  "free_list b prev h [] \<longleftrightarrow> h = None"
| "free_list b prev h (x # xs) \<longleftrightarrow>
    h = Some x \<and> bm_prev (b x) = prev \<and> free_list b (Some x) (bm_next (b x)) xs"

definition slab_ok :: "slab \<Rightarrow> bool" where
  "slab_ok s \<longleftrightarrow> slab_size s \<in> set SLAB_SIZE_CLASSES
     \<and> unat (slab_base s) + MAX_SLAB_PAGES * 4096 < 2 ^ 64"

definition slab_list :: "slab_mem \<Rightarrow> slab \<Rightarrow> u64 list \<Rightarrow> bool" where
  "slab_list mem s fl \<longleftrightarrow>
     free_list (blocks mem) None (slab_head s) fl \<and> distinct fl \<and> set fl \<subseteq> slab_blocks s
     \<and> (\<forall>x\<in>slab_blocks s. bm_used (blocks mem x) \<longleftrightarrow> x \<notin> set fl)
     \<and> metas mem (slab_base s) = \<lparr>sm_size = slab_size s,
          sm_used = blocks_per_slab (slab_size s) - length fl,
          sm_total = blocks_per_slab (slab_size s), sm_magic = SLAB_MAGIC\<rparr>"

definition slab_inv :: "slab_mem \<times> slab \<Rightarrow> bool" where
  "slab_inv st \<longleftrightarrow> slab_ok (snd st) \<and> (\<exists>fl. slab_list (fst st) (snd st) fl)"

definition slab_ptrs :: "slab_mem \<times> slab \<Rightarrow> u64 set" where
  "slab_ptrs st = (\<lambda>x. x + 32) ` slab_blocks (snd st)"

definition slab_free_ptrs :: "slab_mem \<times> slab \<Rightarrow> u64 set" where
  "slab_free_ptrs st = (\<lambda>x. x + 32) ` {x \<in> slab_blocks (snd st). \<not> bm_used (blocks (fst st) x)}"

lemma blocks_per_slab_bounds:
  "blocks_per_slab c * (32 + c) \<le> 61408"
  "c \<in> set SLAB_SIZE_CLASSES \<Longrightarrow> 0 < blocks_per_slab c"
proof -
  show "blocks_per_slab c * (32 + c) \<le> 61408"
    using div_times_less_eq_dividend [of 61408 "32 + c"]
    by (simp add: blocks_per_slab_def MAX_SLAB_PAGES_def size_of_SlabMeta_def size_of_BlockMeta_def)
  show "c \<in> set SLAB_SIZE_CLASSES \<Longrightarrow> 0 < blocks_per_slab c"
    by (auto simp: SLAB_SIZE_CLASSES_def blocks_per_slab_def MAX_SLAB_PAGES_def
        size_of_SlabMeta_def size_of_BlockMeta_def)
qed

lemma block_offset:
  assumes "i < blocks_per_slab c" shows "i * (32 + c) + (32 + c) \<le> 61408"
proof -
  have "Suc i * (32 + c) \<le> blocks_per_slab c * (32 + c)" using assms by (intro mult_le_mono1) simp
  with blocks_per_slab_bounds(1) [of c] show ?thesis by simp
qed

lemma unat_block_addr:
  assumes "slab_ok s" "i < blocks_per_slab (slab_size s)"
  shows "unat (block_addr (slab_base s) (slab_size s) i) =
    unat (slab_base s) + 32 + i * (32 + slab_size s)"
proof -
  have r: "unat (slab_base s) + 61440 < 2 ^ 64" using assms(1) by (simp add: slab_ok_def MAX_SLAB_PAGES_def)
  note o = block_offset [OF assms(2)]
  have "i * (32 + slab_size s) < 2 ^ 64" by (rule le_less_trans [OF add_leD1 [OF o]]) simp
  then have u: "unat (of_nat (i * (32 + slab_size s)) :: u64) = i * (32 + slab_size s)"
    by (rule unat_of_nat64)
  have b: "unat (slab_base s + 32) = unat (slab_base s) + 32" using r by (simp add: unat_add64)
  have "unat (slab_base s + 32) + unat (of_nat (i * (32 + slab_size s)) :: u64) < 2 ^ 64"
    unfolding b u using o r by linarith
  then have "unat (slab_base s + 32 + of_nat (i * (32 + slab_size s))) =
      unat (slab_base s) + 32 + i * (32 + slab_size s)"
    by (simp only: unat_add64 b u)
  then show ?thesis by (simp add: block_addr_def size_of_SlabMeta_def size_of_BlockMeta_def)
qed

lemma slab_blocks_range:
  assumes "slab_ok s" "x \<in> slab_blocks s"
  shows "unat (slab_base s) + 32 \<le> unat x"
    and "unat x + 32 + slab_size s \<le> unat (slab_base s) + MAX_SLAB_PAGES * 4096"
    and "unat (x + 32) = unat x + 32"
proof -
  obtain i where i: "i < blocks_per_slab (slab_size s)" "x = block_addr (slab_base s) (slab_size s) i"
    using assms(2) by (auto simp: slab_blocks_def)
  have u: "unat x = unat (slab_base s) + 32 + i * (32 + slab_size s)"
    using unat_block_addr [OF assms(1) i(1)] i(2) by simp
  note o = block_offset [OF i(1)]
  show "unat (slab_base s) + 32 \<le> unat x"
    "unat x + 32 + slab_size s \<le> unat (slab_base s) + MAX_SLAB_PAGES * 4096"
    using u o by (simp_all add: MAX_SLAB_PAGES_def)
  then show "unat (x + 32) = unat x + 32"
    using assms(1) by (simp add: unat_add64 slab_ok_def)
qed

lemma slab_ptr_nonzero:
  assumes "slab_ok s" "x \<in> slab_blocks s" shows "x \<noteq> 0" "x + 32 \<noteq> 0"
  using slab_blocks_range [OF assms] by (auto simp: word_unat_eq_iff)

lemma block_addr_inj: "slab_ok s \<Longrightarrow> inj_on (block_addr (slab_base s) (slab_size s)) {..<blocks_per_slab (slab_size s)}"
  by (rule inj_onI) (auto dest!: arg_cong [where f = unat] simp: unat_block_addr)

lemma card_slab_blocks: "slab_ok s \<Longrightarrow> card (slab_blocks s) = blocks_per_slab (slab_size s)"
  by (simp add: slab_blocks_def card_image block_addr_inj)

lemma finite_slab_blocks [simp]: "finite (slab_blocks s)"
  by (simp add: slab_blocks_def)

lemma slab_list_length:
  "slab_ok s \<Longrightarrow> slab_list mem s fl \<Longrightarrow> length fl \<le> blocks_per_slab (slab_size s)"
  unfolding slab_list_def
  by (metis card_mono card_slab_blocks distinct_card finite_slab_blocks)

lemma free_list_cong:
  "(\<And>x. x \<in> set xs \<Longrightarrow> bm_next (b x) = bm_next (c x) \<and> bm_prev (b x) = bm_prev (c x)) \<Longrightarrow>
    free_list b p h xs \<longleftrightarrow> free_list c p h xs"
  by (induction xs arbitrary: p h) auto

lemma slab_blocks_head [simp]: "slab_blocks (s\<lparr>slab_head := h\<rparr>) = slab_blocks s"
  by (simp add: slab_blocks_def)

lemma slab_ok_head [simp]: "slab_ok (s\<lparr>slab_head := h\<rparr>) \<longleftrightarrow> slab_ok s"
  by (simp add: slab_ok_def)

section \<open>Allocation and deallocation in one slab\<close>

lemma slab_alloc_list:
  assumes ok: "slab_ok s" and l: "slab_list mem s fl"
  shows "fl = [] \<Longrightarrow> slab_alloc (mem, s) = ((mem, s), 0)"
    and "fl = x # xs \<Longrightarrow> \<exists>mem' s'. slab_alloc (mem, s) = ((mem', s'), x + 32)
      \<and> slab_base s' = slab_base s \<and> slab_size s' = slab_size s \<and> slab_list mem' s' xs
      \<and> (\<forall>y. y \<noteq> x \<longrightarrow> bm_used (blocks mem' y) = bm_used (blocks mem y))
      \<and> (\<forall>y. y \<notin> set fl \<longrightarrow> blocks mem' y = blocks mem y)
      \<and> (\<forall>y. y \<noteq> slab_base s \<longrightarrow> metas mem' y = metas mem y)"
proof -
  note len = slab_list_length [OF ok l]
  show "fl = [] \<Longrightarrow> slab_alloc (mem, s) = ((mem, s), 0)"
    using l by (simp add: slab_alloc_def slab_list_def is_full_def)
  assume fl: "fl = x # xs"
  define b where "b = (case bm_next (blocks mem x) of
      Some nxt \<Rightarrow> (blocks mem)(nxt := (blocks mem nxt)\<lparr>bm_prev := None\<rparr>) | None \<Rightarrow> blocks mem)"
  define b' where "b' = b(x := (b x)\<lparr>bm_used := True\<rparr>)"
  define mem' where "mem' = mem\<lparr>blocks := b', metas := (metas mem)
      (slab_base s := fst (meta_allocate (metas mem (slab_base s))))\<rparr>"
  define s' where "s' = s\<lparr>slab_head := bm_next (blocks mem x)\<rparr>"
  have room: "\<not> blocks_per_slab (slab_size s) \<le> blocks_per_slab (slab_size s) - Suc (length xs)"
    using len fl by simp
  then have a: "slab_alloc (mem, s) = ((mem', s'), x + 32)"
    using l fl by (simp add: slab_alloc_def slab_list_def is_full_def size_of_BlockMeta_def
        mem'_def s'_def b'_def b_def Let_def)
  have d: "x \<notin> set xs" "distinct xs" and p: "free_list (blocks mem) (Some x) (bm_next (blocks mem x)) xs"
    using l fl by (auto simp: slab_list_def)
  have "free_list b' None (bm_next (blocks mem x)) xs"
  proof (cases xs)
    case (Cons y ys)
    then have n: "bm_next (blocks mem x) = Some y" and r: "free_list (blocks mem) (Some y) (bm_next (blocks mem y)) ys"
      and ne: "y \<noteq> x" "y \<notin> set ys" "x \<notin> set ys"
      using p d by auto
    have "free_list b' (Some y) (bm_next (blocks mem y)) ys"
      by (subst free_list_cong [where c = "blocks mem"]) (use r ne in \<open>auto simp: b'_def b_def n\<close>)
    then show ?thesis using Cons n ne by (simp add: b'_def b_def)
  qed (use p in simp)
  moreover have used: "bm_used (b' y) = (y = x \<or> bm_used (blocks mem y))" for y
    by (auto simp: b'_def b_def split: option.splits)
  moreover have same: "b' y = blocks mem y" if "y \<notin> set fl" for y
    using that p fl by (cases xs) (auto simp: b'_def b_def)
  ultimately have "slab_list mem' s' xs"
    using l fl d len room by (auto simp: slab_list_def mem'_def s'_def meta_allocate_def is_full_def)
  with a used same show "\<exists>mem' s'. slab_alloc (mem, s) = ((mem', s'), x + 32)
      \<and> slab_base s' = slab_base s \<and> slab_size s' = slab_size s \<and> slab_list mem' s' xs
      \<and> (\<forall>y. y \<noteq> x \<longrightarrow> bm_used (blocks mem' y) = bm_used (blocks mem y))
      \<and> (\<forall>y. y \<notin> set fl \<longrightarrow> blocks mem' y = blocks mem y)
      \<and> (\<forall>y. y \<noteq> slab_base s \<longrightarrow> metas mem' y = metas mem y)"
    by (intro exI [of _ mem'] exI [of _ s']) (auto simp: mem'_def s'_def)
qed

lemma slab_dealloc_list:
  assumes ok: "slab_ok s" and l: "slab_list mem s fl" and x: "x \<in> slab_blocks s" "x \<notin> set fl"
  shows "\<exists>mem' s'. slab_dealloc (mem, s) (x + 32) = Some (mem', s')
      \<and> slab_base s' = slab_base s \<and> slab_size s' = slab_size s \<and> slab_list mem' s' (x # fl)
      \<and> (\<forall>y. y \<noteq> x \<longrightarrow> bm_used (blocks mem' y) = bm_used (blocks mem y))
      \<and> (\<forall>y. y \<notin> insert x (set fl) \<longrightarrow> blocks mem' y = blocks mem y)
      \<and> (\<forall>y. y \<noteq> slab_base s \<longrightarrow> metas mem' y = metas mem y)"
proof -
  have "card (insert x (set fl)) \<le> card (slab_blocks s)"
    using l x(1) by (intro card_mono) (auto simp: slab_list_def)
  moreover have "card (insert x (set fl)) = Suc (length fl)"
    using l x(2) by (simp add: slab_list_def distinct_card)
  ultimately have room: "Suc (length fl) \<le> blocks_per_slab (slab_size s)"
    using card_slab_blocks [OF ok] by simp
  define b where "b = (blocks mem)(x := \<lparr>bm_next = slab_head s, bm_prev = None, bm_used = False\<rparr>)"
  define b' where "b' = (case slab_head s of
      Some old_head \<Rightarrow> b(old_head := (b old_head)\<lparr>bm_prev := Some x\<rparr>) | None \<Rightarrow> b)"
  define mem' where "mem' = mem\<lparr>blocks := b', metas := (metas mem)
      (slab_base s := meta_deallocate (metas mem (slab_base s)))\<rparr>"
  define s' where "s' = s\<lparr>slab_head := Some x\<rparr>"
  have a: "slab_dealloc (mem, s) (x + 32) = Some (mem', s')"
    using l room slab_ptr_nonzero [OF ok x(1)] unfolding mem'_def s'_def b'_def b_def
    by (simp add: slab_dealloc_def slab_list_def size_of_BlockMeta_def Let_def)
  have "free_list b' None (Some x) (x # fl)"
  proof (cases fl)
    case Nil
    then show ?thesis using l by (simp add: slab_list_def b'_def b_def)
  next
    case (Cons y ys)
    then have n: "slab_head s = Some y" and r: "free_list (blocks mem) (Some y) (bm_next (blocks mem y)) ys"
      and ne: "y \<noteq> x" "y \<notin> set ys" "x \<notin> set ys"
      using l x(2) by (auto simp: slab_list_def)
    have "free_list b' (Some y) (bm_next (blocks mem y)) ys"
      by (subst free_list_cong [where c = "blocks mem"]) (use r ne in \<open>auto simp: b'_def b_def n\<close>)
    then show ?thesis using Cons n ne by (simp add: b'_def b_def)
  qed
  moreover have used: "bm_used (b' y) = (y \<noteq> x \<and> bm_used (blocks mem y))" for y
    by (auto simp: b'_def b_def split: option.splits)
  moreover have same: "b' y = blocks mem y" if "y \<notin> insert x (set fl)" for y
    using that l by (cases fl) (auto simp: b'_def b_def slab_list_def)
  ultimately have "slab_list mem' s' (x # fl)"
    using l x room by (auto simp: slab_list_def mem'_def s'_def meta_deallocate_def)
  with a used same show ?thesis
    by (intro exI [of _ mem'] exI [of _ s']) (auto simp: mem'_def s'_def)
qed

lemma slab_free_ptrs_list:
  "slab_list mem s fl \<Longrightarrow> slab_free_ptrs (mem, s) = (\<lambda>x. x + 32) ` set fl"
  by (auto simp: slab_free_ptrs_def slab_list_def)

text \<open>
  A slab keeps the contract of a pool of resources: the pointers of its blocks are the managed
  resources, those of the blocks not in use the free ones.
\<close>

interpretation slab_pool: resource_pool slab_inv slab_ptrs slab_free_ptrs
  "\<lambda>st. case slab_alloc st of (st', p) \<Rightarrow> (st', if p = 0 then None else Some p)"
  "\<lambda>st p. case slab_dealloc st p of None \<Rightarrow> Inl () | Some st' \<Rightarrow> Inr st'"
proof
  fix st st' :: "slab_mem \<times> slab" and f
  obtain mem s where st: "st = (mem, s)" by (cases st)
  show "slab_free_ptrs st \<subseteq> slab_ptrs st" by (auto simp: slab_free_ptrs_def slab_ptrs_def)
  show "finite (slab_ptrs st)" by (simp add: slab_ptrs_def)
  assume "slab_inv st"
  then obtain fl where ok: "slab_ok s" and l: "slab_list mem s fl" by (auto simp: slab_inv_def st)
  note nz = slab_ptr_nonzero(2) [OF ok]
  have sub: "set fl \<subseteq> slab_blocks s" and d: "distinct fl" using l by (auto simp: slab_list_def)
  {
    assume "(case slab_alloc st of (st', p) \<Rightarrow> (st', if p = 0 then None else Some p)) = (st', None)"
    then show "st' = st \<and> slab_free_ptrs st = {}"
      using slab_alloc_list [OF ok l] nz sub slab_free_ptrs_list [OF l] by (cases fl) (auto simp: st)
  next
    assume a: "(case slab_alloc st of (st', p) \<Rightarrow> (st', if p = 0 then None else Some p)) = (st', Some f)"
    then obtain x xs where fl: "fl = x # xs"
      using slab_alloc_list(1) [OF ok l] by (cases fl) (auto simp: st)
    with slab_alloc_list(2) [OF ok l fl] a obtain mem' s' where r: "st' = (mem', s')" "f = x + 32"
        "slab_base s' = slab_base s" "slab_size s' = slab_size s" "slab_list mem' s' xs"
      by (auto simp: st split: if_splits)
    have "slab_blocks s' = slab_blocks s" "slab_ok s'" using ok r by (simp_all add: slab_blocks_def slab_ok_def)
    with r d fl show "slab_inv st' \<and> slab_ptrs st' = slab_ptrs st \<and> f \<in> slab_free_ptrs st
        \<and> slab_free_ptrs st' = slab_free_ptrs st - {f}"
      by (auto simp: slab_inv_def slab_ptrs_def st slab_free_ptrs_list [OF l] slab_free_ptrs_list [OF r(5)])
  next
    assume "f \<in> slab_ptrs st - slab_free_ptrs st"
    then obtain x where x: "x \<in> slab_blocks s" "x \<notin> set fl" "f = x + 32"
      using slab_free_ptrs_list [OF l] by (auto simp: slab_ptrs_def st)
    obtain mem' s' where r: "slab_dealloc (mem, s) (x + 32) = Some (mem', s')"
        "slab_base s' = slab_base s" "slab_size s' = slab_size s" "slab_list mem' s' (x # fl)"
      using slab_dealloc_list [OF ok l x(1,2)] by auto
    have "slab_blocks s' = slab_blocks s" "slab_ok s'" using ok r by (simp_all add: slab_blocks_def slab_ok_def)
    with r x show "\<exists>s'. (case slab_dealloc st f of None \<Rightarrow> Inl () | Some st' \<Rightarrow> Inr st') = Inr s'
        \<and> slab_inv s' \<and> slab_ptrs s' = slab_ptrs st \<and> slab_free_ptrs s' = insert f (slab_free_ptrs st)"
      by (auto simp: slab_inv_def slab_ptrs_def st slab_free_ptrs_list [OF l] slab_free_ptrs_list [OF r(4)])
  }
qed

section \<open>A new slab\<close>

lemma free_list_snoc:
  assumes "free_list b p h (xs @ [x])" "bm_next (b x) = None" "y \<notin> set (xs @ [x])" "distinct (xs @ [x])"
    and "b' x = (b x)\<lparr>bm_next := Some y\<rparr>" "bm_prev (b' y) = Some x" "bm_next (b' y) = None"
    and "\<forall>z\<in>set xs. b' z = b z"
  shows "free_list b' p h (xs @ [x, y])"
  using assms by (induction xs arbitrary: p h) auto

lemma link_blocks:
  assumes ok: "slab_ok s" and n: "n \<le> blocks_per_slab (slab_size s)"
  defines "addr \<equiv> block_addr (slab_base s) (slab_size s)"
  assumes f: "foldl (link_block (slab_base s) (slab_size s)) (b0, None, None) [0..<n] = (b, h, p)"
  shows "free_list b None h (map addr [0..<n])
    \<and> p = (if n = 0 then None else Some (addr (n - 1)))
    \<and> (0 < n \<longrightarrow> bm_next (b (addr (n - 1))) = None)
    \<and> (\<forall>i<n. \<not> bm_used (b (addr i))) \<and> (\<forall>y. y \<notin> addr ` {..<n} \<longrightarrow> b y = b0 y)"
  using n f
proof (induction n arbitrary: b h p)
  case (Suc n)
  obtain b1 h1 p1 where f1: "foldl (link_block (slab_base s) (slab_size s)) (b0, None, None) [0..<n] = (b1, h1, p1)"
    by (metis prod_cases3)
  have IH: "free_list b1 None h1 (map addr [0..<n])" "p1 = (if n = 0 then None else Some (addr (n - 1)))"
      "0 < n \<longrightarrow> bm_next (b1 (addr (n - 1))) = None" "\<forall>i<n. \<not> bm_used (b1 (addr i))"
      "\<forall>y. y \<notin> addr ` {..<n} \<longrightarrow> b1 y = b0 y"
    using Suc.IH [OF _ f1] Suc.prems(1) by auto
  have inj: "addr i = addr j \<longleftrightarrow> i = j" if "i \<le> n" "j \<le> n" for i j
    using that Suc.prems(1) inj_onD [OF block_addr_inj [OF ok], of i j] unfolding addr_def by fastforce
  have st: "link_block (slab_base s) (slab_size s) (b1, h1, p1) n = (b, h, p)"
    using Suc.prems(2) f1 by simp
  show ?case
  proof (cases n)
    case 0
    then show ?thesis using st IH by (auto simp: link_block_def block_meta_new_def addr_def Let_def)
  next
    case (Suc m)
    let ?x = "addr m" and ?y = "addr n"
    define b2 where "b2 = b1(?y := block_meta_new)"
    have ne: "?x \<noteq> ?y" using inj [of m n] Suc by simp
    have r: "b = b2(?x := (b2 ?x)\<lparr>bm_next := Some ?y\<rparr>, ?y := block_meta_new\<lparr>bm_prev := Some ?x\<rparr>)"
        "h = h1" "p = Some ?y"
      using st IH(2) Suc ne by (auto simp: link_block_def addr_def b2_def Let_def)
    have e: "map addr [0..<n] = map addr [0..<m] @ [?x]" using Suc by simp
    have "free_list b None h (map addr [0..<m] @ [?x, ?y])"
    proof (rule free_list_snoc)
      show "free_list b1 None h (map addr [0..<m] @ [?x])" using IH(1) e r(2) by simp
      show "bm_next (b1 ?x) = None" using IH(3) Suc by simp
      show "?y \<notin> set (map addr [0..<m] @ [?x])" using inj Suc by auto
      show "distinct (map addr [0..<m] @ [?x])"
        using inj Suc by (auto simp: distinct_map inj_on_def)
      show "b ?x = (b1 ?x)\<lparr>bm_next := Some ?y\<rparr>" using ne by (simp add: r b2_def)
      show "bm_prev (b ?y) = Some ?x" "bm_next (b ?y) = None" by (simp_all add: r block_meta_new_def)
      show "\<forall>z\<in>set (map addr [0..<m]). b z = b1 z" using inj Suc by (auto simp: r b2_def)
    qed
    moreover have "\<not> bm_used (b (addr i))" if "i < Suc n" for i
      using that IH(4) inj Suc by (auto simp: r b2_def block_meta_new_def less_Suc_eq)
    moreover have "b y = b0 y" if "y \<notin> addr ` {..<Suc n}" for y
    proof -
      have "y \<noteq> ?x" "y \<noteq> ?y" "y \<notin> addr ` {..<n}" using that Suc by auto
      then show ?thesis using IH(5) by (simp add: r b2_def)
    qed
    moreover have "bm_next (b ?y) = None" by (simp add: r(1) block_meta_new_def)
    ultimately show ?thesis using r(2,3) Suc by simp
  qed
qed simp

lemma slab_new_list:
  assumes "slab_new ops k mem base c (slab_meta_new c (blocks_per_slab c)) = Some (k', mem', s)"
    and "c \<in> set SLAB_SIZE_CLASSES" "unat base + MAX_SLAB_PAGES * 4096 < 2 ^ 64"
  shows "slab_base s = base \<and> slab_size s = c \<and> slab_ok s
    \<and> slab_list mem' s (map (block_addr base c) [0..<blocks_per_slab c])
    \<and> (\<forall>y. y \<notin> slab_blocks s \<longrightarrow> blocks mem' y = blocks mem y)
    \<and> (\<forall>y. y \<noteq> base \<longrightarrow> metas mem' y = metas mem y)
    \<and> each_page (map_arbitrary ops) base [0..<MAX_SLAB_PAGES] k = Some k'"
proof -
  obtain b h p where f: "foldl (link_block base c) (blocks mem, None, None) [0..<blocks_per_slab c] = (b, h, p)"
    by (metis prod_cases3)
  have s: "each_page (map_arbitrary ops) base [0..<MAX_SLAB_PAGES] k = Some k'"
      "s = \<lparr>slab_base = base, slab_size = c, slab_head = h\<rparr>"
      "mem' = mem\<lparr>blocks := b, metas := (metas mem)(base := slab_meta_new c (blocks_per_slab c))\<rparr>"
    using assms(1) f by (auto simp: slab_new_def slab_meta_new_def split: option.splits)
  have ok: "slab_ok s" using assms(2,3) s by (simp add: slab_ok_def)
  have f': "foldl (link_block (slab_base s) (slab_size s)) (blocks mem, None, None)
      [0..<blocks_per_slab (slab_size s)] = (b, h, p)"
    using f s(2) by simp
  note l = link_blocks [OF ok order_refl f']
  have "distinct (map (block_addr base c) [0..<blocks_per_slab c])"
    using block_addr_inj [OF ok] s(2) by (auto simp: distinct_map inj_on_def)
  with l have "slab_list mem' s (map (block_addr base c) [0..<blocks_per_slab c])"
    unfolding slab_list_def by (auto simp: s(2,3) slab_blocks_def slab_meta_new_def)
  with l ok s show ?thesis by (auto simp: slab_blocks_def)
qed

section \<open>All slabs together\<close>

text \<open>
  Slabs sit in slots of the slab area.  \<open>sa_inv\<close> says that every slab satisfies its invariant, that
  slabs and recycled addresses are pairwise different slots, and that \<open>next_base\<close> is the first slot
  never used; \<open>live\<close> is the set of pointers handed out and not yet given back.
\<close>

definition slot :: "nat \<Rightarrow> u64" where
  "slot i = SLAB_BASE_ADDR + of_nat (i * (MAX_SLAB_PAGES * 4096))"

definition slots_used :: "'k slab_allocator \<Rightarrow> nat" where
  "slots_used a = length (slabs a) + length (freed_slots a)"

definition sa_inv :: "'k slab_allocator \<Rightarrow> bool" where
  "sa_inv a \<longleftrightarrow>
     (\<forall>i<length (slabs a). slab_inv (sa_mem a, slabs a ! i))
     \<and> distinct (map slab_base (slabs a) @ freed_slots a)
     \<and> set (map slab_base (slabs a) @ freed_slots a) \<subseteq> slot ` {..<slots_used a}
     \<and> next_base a = slot (slots_used a) \<and> slots_used a \<le> MAX_SLABS"

definition used_ptrs :: "slab_mem \<times> slab \<Rightarrow> u64 set" where
  "used_ptrs st = slab_ptrs st - slab_free_ptrs st"

definition live :: "'k slab_allocator \<Rightarrow> u64 set" where
  "live a = (\<Union>i<length (slabs a). used_ptrs (sa_mem a, slabs a ! i))"

definition slabs_apart :: "slab \<Rightarrow> slab \<Rightarrow> bool" where
  "slabs_apart s t \<longleftrightarrow> unat (slab_base s) + 61440 \<le> unat (slab_base t)
     \<or> unat (slab_base t) + 61440 \<le> unat (slab_base s)"

lemma slot_nat:
  assumes "i \<le> 33" shows "unat (slot i) = unat SLAB_BASE_ADDR + i * 61440"
    and "unat (slot i) + 61440 < 2 ^ 64"
proof -
  have u: "unat (of_nat (i * 61440) :: u64) = i * 61440"
    using assms by (intro unat_of_nat64) simp
  have "unat SLAB_BASE_ADDR + i * 61440 + 61440 < 2 ^ 64"
    using assms by (simp add: SLAB_BASE_ADDR_def)
  then have "unat (SLAB_BASE_ADDR + of_nat (i * 61440)) = unat SLAB_BASE_ADDR + i * 61440"
      "unat SLAB_BASE_ADDR + i * 61440 + 61440 < 2 ^ 64"
    by (simp_all only: unat_add64 u)
  then show "unat (slot i) = unat SLAB_BASE_ADDR + i * 61440" "unat (slot i) + 61440 < 2 ^ 64"
    by (simp_all add: slot_def MAX_SLAB_PAGES_def)
qed

lemma slot_inj:
  assumes "i \<le> 33" "j \<le> 33" shows "slot i = slot j \<longleftrightarrow> i = j"
proof
  assume "slot i = slot j"
  then have "unat SLAB_BASE_ADDR + i * 61440 = unat SLAB_BASE_ADDR + j * 61440"
    using slot_nat(1) [OF assms(1)] slot_nat(1) [OF assms(2)] by (simp only:)
  then show "i = j" by simp
qed simp

lemma slots_apart:
  assumes "slab_base s = slot i" "slab_base t = slot j" "slab_base s \<noteq> slab_base t" "i \<le> 33" "j \<le> 33"
  shows "slabs_apart s t"
proof -
  have "i \<noteq> j" using assms by auto
  then have "i * 61440 + 61440 \<le> j * 61440 \<or> j * 61440 + 61440 \<le> i * 61440"
    by linarith
  then show ?thesis using assms by (auto simp: slabs_apart_def slot_nat)
qed

lemma apart_blocks:
  assumes "slabs_apart s t" "slab_ok s" "slab_ok t"
  shows "slab_blocks s \<inter> slab_blocks t = {}" "slab_base s \<noteq> slab_base t"
    and "slab_ptrs (m1, s) \<inter> slab_ptrs (m2, t) = {}"
proof -
  have d: False if "x \<in> slab_blocks s" "x \<in> slab_blocks t" for x
    using that assms(1) slab_blocks_range(1,2) [OF assms(2), of x] slab_blocks_range(1,2) [OF assms(3), of x]
    by (auto simp: slabs_apart_def MAX_SLAB_PAGES_def)
  then show "slab_blocks s \<inter> slab_blocks t = {}" by auto
  show "slab_base s \<noteq> slab_base t" using assms(1) by (auto simp: slabs_apart_def)
  show "slab_ptrs (m1, s) \<inter> slab_ptrs (m2, t) = {}" using d by (auto simp: slab_ptrs_def)
qed

lemma slab_frame:
  assumes "slab_inv (mem, t)" "\<forall>y\<in>slab_blocks t. blocks mem' y = blocks mem y"
    and "metas mem' (slab_base t) = metas mem (slab_base t)"
  shows "slab_inv (mem', t)" "slab_free_ptrs (mem', t) = slab_free_ptrs (mem, t)"
    "used_ptrs (mem', t) = used_ptrs (mem, t)"
proof -
  obtain fl where fl: "slab_ok t" "slab_list mem t fl" using assms(1) by (auto simp: slab_inv_def)
  have "free_list (blocks mem') None (slab_head t) fl \<longleftrightarrow> free_list (blocks mem) None (slab_head t) fl"
    by (rule free_list_cong) (use fl assms(2) in \<open>auto simp: slab_list_def\<close>)
  with fl assms(2,3) have "slab_list mem' t fl" by (auto simp: slab_list_def)
  with fl show "slab_inv (mem', t)" by (auto simp: slab_inv_def)
  show f: "slab_free_ptrs (mem', t) = slab_free_ptrs (mem, t)"
    using assms(2) by (auto simp: slab_free_ptrs_def)
  show "used_ptrs (mem', t) = used_ptrs (mem, t)"
    unfolding used_ptrs_def f by (simp add: slab_ptrs_def)
qed

lemma slab_alloc_step:
  assumes "slab_inv (mem, s)" "slab_alloc (mem, s) = ((mem', s'), p)"
  shows "slab_inv (mem', s')" "slab_base s' = slab_base s" "slab_size s' = slab_size s"
    and "\<forall>y. y \<notin> slab_blocks s \<longrightarrow> blocks mem' y = blocks mem y"
    and "\<forall>y. y \<noteq> slab_base s \<longrightarrow> metas mem' y = metas mem y"
    and "p = 0 \<Longrightarrow> mem' = mem \<and> s' = s"
    and "p \<noteq> 0 \<Longrightarrow> p \<in> slab_free_ptrs (mem, s) \<and> used_ptrs (mem', s') = insert p (used_ptrs (mem, s))"
    and "p = 0 \<longleftrightarrow> slab_free_ptrs (mem, s) = {}"
proof -
  obtain fl where fl: "slab_ok s" "slab_list mem s fl" using assms(1) by (auto simp: slab_inv_def)
  have sub: "set fl \<subseteq> slab_blocks s" using fl(2) by (simp add: slab_list_def)
  have "slab_inv (mem', s') \<and> slab_base s' = slab_base s \<and> slab_size s' = slab_size s
    \<and> (\<forall>y. y \<notin> slab_blocks s \<longrightarrow> blocks mem' y = blocks mem y)
    \<and> (\<forall>y. y \<noteq> slab_base s \<longrightarrow> metas mem' y = metas mem y)
    \<and> (p = 0 \<longrightarrow> mem' = mem \<and> s' = s) \<and> (p = 0 \<longleftrightarrow> slab_free_ptrs (mem, s) = {})"
  proof (cases fl)
    case Nil
    then show ?thesis
      using assms slab_alloc_list(1) [OF fl] slab_free_ptrs_list [OF fl(2)] by auto
  next
    case (Cons x xs)
    have nz: "p \<noteq> 0" using slab_alloc_list(2) [OF fl Cons] assms(2) sub Cons slab_ptr_nonzero(2) [OF fl(1)]
      by auto
    have "slab_ok s'" "slab_list mem' s' xs"
      using slab_alloc_list(2) [OF fl Cons] assms(2) fl(1) by (auto simp: slab_ok_def)
    then have "slab_inv (mem', s')" by (auto simp: slab_inv_def)
    then show ?thesis
      using nz slab_alloc_list(2) [OF fl Cons] assms(2) sub Cons slab_free_ptrs_list [OF fl(2)] by auto
  qed
  then show "slab_inv (mem', s')" "slab_base s' = slab_base s" "slab_size s' = slab_size s"
    "\<forall>y. y \<notin> slab_blocks s \<longrightarrow> blocks mem' y = blocks mem y"
    "\<forall>y. y \<noteq> slab_base s \<longrightarrow> metas mem' y = metas mem y" "p = 0 \<Longrightarrow> mem' = mem \<and> s' = s"
    "p = 0 \<longleftrightarrow> slab_free_ptrs (mem, s) = {}"
    by auto
  assume "p \<noteq> 0"
  then have "slab_ptrs (mem', s') = slab_ptrs (mem, s) \<and> p \<in> slab_free_ptrs (mem, s)
      \<and> slab_free_ptrs (mem', s') = slab_free_ptrs (mem, s) - {p}"
    using slab_pool.alloc_Some [OF assms(1)] assms(2) by simp
  then show "p \<in> slab_free_ptrs (mem, s) \<and> used_ptrs (mem', s') = insert p (used_ptrs (mem, s))"
    by (auto simp: used_ptrs_def slab_free_ptrs_def slab_ptrs_def)
qed

lemma sa_invD:
  assumes "sa_inv a" "i < length (slabs a)"
  shows "slab_inv (sa_mem a, slabs a ! i)" "slab_ok (slabs a ! i)"
    "\<exists>k < slots_used a. slab_base (slabs a ! i) = slot k" "slots_used a \<le> 32"
proof -
  have "slab_base (slabs a ! i) \<in> slot ` {..<slots_used a}"
    using assms by (auto simp: sa_inv_def)
  then show "\<exists>k < slots_used a. slab_base (slabs a ! i) = slot k" by auto
qed (use assms in \<open>auto simp: sa_inv_def slab_inv_def MAX_SLABS_def\<close>)

lemma sa_inv_apart:
  assumes "sa_inv a" "i < length (slabs a)" "j < length (slabs a)" "i \<noteq> j"
  shows "slabs_apart (slabs a ! i) (slabs a ! j)"
proof -
  obtain k l where "k < slots_used a" "slab_base (slabs a ! i) = slot k"
      "l < slots_used a" "slab_base (slabs a ! j) = slot l"
    using sa_invD(3) [OF assms(1,2)] sa_invD(3) [OF assms(1,3)] by blast
  moreover have "distinct (map slab_base (slabs a))" using assms(1) by (simp add: sa_inv_def)
  then have "slab_base (slabs a ! i) \<noteq> slab_base (slabs a ! j)"
    using assms(2-4) by (auto simp: distinct_conv_nth)
  ultimately show ?thesis using sa_invD(4) [OF assms(1,2)] by (intro slots_apart) auto
qed

text \<open>A step that changes one slab and only the memory of that slab.\<close>

lemma sa_update:
  assumes inv: "sa_inv a" and i: "i < length (slabs a)"
    and s': "slab_inv (mem', s')" "slab_base s' = slab_base (slabs a ! i)" "slab_size s' = slab_size (slabs a ! i)"
    and mem': "\<forall>y. y \<notin> slab_blocks (slabs a ! i) \<longrightarrow> blocks mem' y = blocks (sa_mem a) y"
      "\<forall>y. y \<noteq> slab_base (slabs a ! i) \<longrightarrow> metas mem' y = metas (sa_mem a) y"
  shows "sa_inv (a\<lparr>sa_mem := mem', slabs := (slabs a)[i := s']\<rparr>)"
    and "used_ptrs (mem', s') = insert p (used_ptrs (sa_mem a, slabs a ! i)) \<Longrightarrow>
      live (a\<lparr>sa_mem := mem', slabs := (slabs a)[i := s']\<rparr>) = insert p (live a)"
    and "used_ptrs (mem', s') = used_ptrs (sa_mem a, slabs a ! i) - {p} \<Longrightarrow>
      p \<in> used_ptrs (sa_mem a, slabs a ! i) \<Longrightarrow>
      live (a\<lparr>sa_mem := mem', slabs := (slabs a)[i := s']\<rparr>) = live a - {p}"
proof -
  let ?a = "a\<lparr>sa_mem := mem', slabs := (slabs a)[i := s']\<rparr>"
  have other: "slab_inv (mem', slabs a ! j)" "used_ptrs (mem', slabs a ! j) = used_ptrs (sa_mem a, slabs a ! j)"
    if "j < length (slabs a)" "j \<noteq> i" for j
  proof -
    have ap: "slabs_apart (slabs a ! j) (slabs a ! i)" using sa_inv_apart [OF inv that(1) i that(2)] .
    note ab = apart_blocks(1,2) [OF ap sa_invD(2) [OF inv that(1)] sa_invD(2) [OF inv i]]
    show "slab_inv (mem', slabs a ! j)" "used_ptrs (mem', slabs a ! j) = used_ptrs (sa_mem a, slabs a ! j)"
      using slab_frame(1,3) [OF sa_invD(1) [OF inv that(1)], of mem'] mem' ab by auto
  qed
  have bases: "map slab_base ((slabs a)[i := s']) = map slab_base (slabs a)"
    using s'(2) i by (metis list_update_id map_update nth_map length_map)
  have "\<forall>j<length (slabs ?a). slab_inv (sa_mem ?a, slabs ?a ! j)"
    using other(1) s'(1) i by (auto simp: nth_list_update)
  with inv bases show "sa_inv ?a" by (simp add: sa_inv_def slots_used_def)
  have nths: "used_ptrs (sa_mem ?a, slabs ?a ! j) =
      (if j = i then used_ptrs (mem', s') else used_ptrs (sa_mem a, slabs a ! j))" if "j < length (slabs a)" for j
    using that i other(2) by (simp add: nth_list_update)
  have split: "live ?a = used_ptrs (mem', s') \<union> (\<Union>j\<in>{..<length (slabs a)} - {i}. used_ptrs (sa_mem a, slabs a ! j))"
    using i nths unfolding live_def by (auto split: if_splits)
  have split0: "live a = used_ptrs (sa_mem a, slabs a ! i) \<union> (\<Union>j\<in>{..<length (slabs a)} - {i}. used_ptrs (sa_mem a, slabs a ! j))"
    using i unfolding live_def by auto
  show "live ?a = insert p (live a)" if "used_ptrs (mem', s') = insert p (used_ptrs (sa_mem a, slabs a ! i))"
    unfolding split split0 that by auto
  show "live ?a = live a - {p}" if u: "used_ptrs (mem', s') = used_ptrs (sa_mem a, slabs a ! i) - {p}"
    and p: "p \<in> used_ptrs (sa_mem a, slabs a ! i)"
  proof -
    have "p \<notin> used_ptrs (sa_mem a, slabs a ! j)" if "j < length (slabs a)" "j \<noteq> i" for j
      using p apart_blocks(3) [OF sa_inv_apart [OF inv i that(1)] sa_invD(2) [OF inv i] sa_invD(2) [OF inv that(1)]] that(2)
      by (auto simp: used_ptrs_def)
    then show ?thesis unfolding split split0 u by auto
  qed
qed

lemma find_slab_Some:
  "find_slab c ss = Some i \<Longrightarrow> i < length ss \<and> slab_size (ss ! i) = c \<and> (\<forall>j<i. slab_size (ss ! j) \<noteq> c)"
proof (induction ss arbitrary: i)
  case (Cons s ss)
  show ?case
  proof (cases "slab_size s = c")
    case False
    then obtain k where "find_slab c ss = Some k" "i = Suc k" using Cons.prems by auto
    with Cons.IH [of k] False show ?thesis by (auto simp: less_Suc_eq_0_disj)
  qed (use Cons.prems in auto)
qed simp

lemma find_slab_None: "find_slab c ss = None \<longleftrightarrow> (\<forall>s\<in>set ss. slab_size s \<noteq> c)"
  by (induction ss) auto

lemma take_base_slots:
  assumes inv: "sa_inv a" and t: "take_base a = (base, a1)"
  defines "n \<equiv> length (slabs a) + 1 + length (freed_slots a1)"
  shows "slabs a1 = slabs a" "sa_mem a1 = sa_mem a"
    "distinct (map slab_base (slabs a) @ [base] @ freed_slots a1)"
    "set (map slab_base (slabs a) @ [base] @ freed_slots a1) \<subseteq> slot ` {..<n}"
    "next_base a1 = slot n" "n \<le> 33" "length (slabs a) < MAX_SLABS \<longrightarrow> n \<le> MAX_SLABS"
proof -
  have I: "distinct (map slab_base (slabs a) @ freed_slots a)"
      "set (map slab_base (slabs a) @ freed_slots a) \<subseteq> slot ` {..<slots_used a}"
      "next_base a = slot (slots_used a)" "slots_used a \<le> 32"
    using inv by (auto simp: sa_inv_def MAX_SLABS_def)
  have "slabs a1 = slabs a \<and> sa_mem a1 = sa_mem a
    \<and> distinct (map slab_base (slabs a) @ [base] @ freed_slots a1)
    \<and> set (map slab_base (slabs a) @ [base] @ freed_slots a1) \<subseteq> slot ` {..<n}
    \<and> next_base a1 = slot n \<and> n \<le> 33 \<and> (length (slabs a) < MAX_SLABS \<longrightarrow> n \<le> MAX_SLABS)"
  proof (cases "freed_slots a = []")
    case True
    then have a1: "base = slot (slots_used a)" "freed_slots a1 = []" "n = Suc (slots_used a)"
        "slabs a1 = slabs a" "sa_mem a1 = sa_mem a"
        "next_base a1 = slot (slots_used a) + of_nat (MAX_SLAB_PAGES * 4096)"
      using t I(3) by (auto simp: take_base_def n_def slots_used_def)
    have "slot (slots_used a) \<notin> slot ` {..<slots_used a}"
      using I(4) by (auto simp: slot_inj)
    moreover have "next_base a1 = slot n"
      unfolding a1(3,6) by (simp add: slot_def distrib_right algebra_simps)
    moreover have "set (map slab_base (slabs a) @ [base] @ freed_slots a1) \<subseteq> slot ` {..<n}"
      using a1 I(2) by (auto simp: less_Suc_eq)
    ultimately show ?thesis using a1 I True by (auto simp: slots_used_def MAX_SLABS_def)
  next
    case False
    then have a1: "freed_slots a = freed_slots a1 @ [base]" "n = slots_used a"
        "slabs a1 = slabs a" "sa_mem a1 = sa_mem a" "next_base a1 = next_base a"
      using t by (auto simp: take_base_def n_def slots_used_def)
    then show ?thesis using I by (auto simp: MAX_SLABS_def)
  qed
  then show "slabs a1 = slabs a" "sa_mem a1 = sa_mem a"
    "distinct (map slab_base (slabs a) @ [base] @ freed_slots a1)"
    "set (map slab_base (slabs a) @ [base] @ freed_slots a1) \<subseteq> slot ` {..<n}"
    "next_base a1 = slot n" "n \<le> 33" "length (slabs a) < MAX_SLABS \<longrightarrow> n \<le> MAX_SLABS"
    by blast+
qed

lemma add_slab_inv:
  assumes inv: "sa_inv a" and c: "c \<in> set SLAB_SIZE_CLASSES" and r: "add_slab ops a c = Some (a', p)"
  shows "p \<noteq> 0 \<and> sa_inv a' \<and> p \<notin> live a \<and> live a' = insert p (live a)
    \<and> (\<exists>s\<in>set (slabs a'). slab_size s = c \<and> p \<in> slab_ptrs (sa_mem a', s))"
proof -
  obtain base a1 where t: "take_base a = (base, a1)" by fastforce
  note T = take_base_slots [OF inv t]
  let ?n = "length (slabs a) + 1 + length (freed_slots a1)"
  obtain k0 where k0: "base = slot k0" "k0 < ?n" using T(4) by auto
  obtain k mem1 s mem2 s' where
    new: "slab_new ops (sa_pages a1) (sa_mem a) base c (slab_meta_new c (blocks_per_slab c)) = Some (k, mem1, s)"
    and al: "slab_alloc (mem1, s) = ((mem2, s'), p)"
    and res: "p = 0 \<or> length (slabs a) < MAX_SLABS
        \<and> a' = a1\<lparr>sa_pages := k, sa_mem := mem2, slabs := slabs a @ [s']\<rparr>"
    using r by (auto simp: add_slab_def t T(1,2) Let_def split: option.splits prod.splits if_splits)
  have "unat base + MAX_SLAB_PAGES * 4096 < 2 ^ 64"
    using slot_nat(2) [of k0] k0 T(6) by (simp add: MAX_SLAB_PAGES_def)
  note N = slab_new_list [OF new c this]
  then have s: "slab_base s = base" "slab_size s = c" "slab_ok s" and l: "slab_list mem1 s (map (block_addr base c) [0..<blocks_per_slab c])"
    by auto
  have si: "slab_inv (mem1, s)" using s(3) l by (auto simp: slab_inv_def)
  note S = slab_alloc_step [OF si al]
  have fp: "slab_free_ptrs (mem1, s) = slab_ptrs (mem1, s)"
    unfolding slab_free_ptrs_list [OF l] slab_ptrs_def by (auto simp: slab_blocks_def s)
  then have p: "p \<noteq> 0" using S(8) blocks_per_slab_bounds(2) [OF c] by (auto simp: slab_ptrs_def slab_blocks_def s)
  then have a': "length (slabs a) < MAX_SLABS" "a' = a1\<lparr>sa_pages := k, sa_mem := mem2, slabs := slabs a @ [s']\<rparr>"
    using res by auto
  have ok': "slab_ok s'" using S(1) by (simp add: slab_inv_def)
  have blk: "slab_blocks s' = slab_blocks s" using S(2,3) by (simp add: slab_blocks_def)
  have up: "used_ptrs (mem2, s') = {p}" using S(7) [OF p] fp by (simp add: used_ptrs_def)
  have other: "slab_inv (mem2, slabs a ! j)" "used_ptrs (mem2, slabs a ! j) = used_ptrs (sa_mem a, slabs a ! j)"
      "p \<notin> used_ptrs (sa_mem a, slabs a ! j)"
    if j: "j < length (slabs a)" for j
  proof -
    obtain kj where kj: "kj < slots_used a" "slab_base (slabs a ! j) = slot kj" "slots_used a \<le> 32"
      using sa_invD(3,4) [OF inv j] by blast
    have "slab_base (slabs a ! j) \<noteq> base" using T(3) j by auto
    then have ap: "slabs_apart (slabs a ! j) s"
      using kj k0 T(6) s(1) by (intro slots_apart) auto
    note ab = apart_blocks [OF ap sa_invD(2) [OF inv j] s(3)]
    have "\<forall>y\<in>slab_blocks (slabs a ! j). blocks mem2 y = blocks (sa_mem a) y"
        "metas mem2 (slab_base (slabs a ! j)) = metas (sa_mem a) (slab_base (slabs a ! j))"
      using S(4,5) N ab(1,2) s(1) by auto
    from slab_frame(1,3) [OF sa_invD(1) [OF inv j] this]
    show "slab_inv (mem2, slabs a ! j)" "used_ptrs (mem2, slabs a ! j) = used_ptrs (sa_mem a, slabs a ! j)"
      by auto
    show "p \<notin> used_ptrs (sa_mem a, slabs a ! j)"
      using ab(3) S(7) [OF p] fp by (auto simp: used_ptrs_def)
  qed
  have "\<forall>i<length (slabs a'). slab_inv (sa_mem a', slabs a' ! i)"
    using other(1) S(1) by (auto simp: a'(2) nth_append less_Suc_eq)
  then have "sa_inv a'"
    using T(3-7) a' S(2) s(1) by (simp add: sa_inv_def slots_used_def a'(2))
  moreover have "live a' = insert p (live a)"
    using other(2) up by (auto simp: live_def a'(2) nth_append lessThan_Suc)
  moreover have "p \<notin> live a" using other(3) by (auto simp: live_def)
  moreover have "p \<in> slab_ptrs (mem2, s')" using up by (auto simp: used_ptrs_def)
  ultimately show ?thesis using p S(3) s(2) by (auto simp: a'(2))
qed

lemma each_page_total:
  "(\<And>k v. f k v \<noteq> None) \<Longrightarrow> each_page f base js k \<noteq> None"
  by (induction js arbitrary: k) (auto split: option.split)

lemma add_slab_total:
  assumes "\<And>k v. map_arbitrary ops k v \<noteq> None" "length (slabs a) < MAX_SLABS"
  shows "add_slab ops a c \<noteq> None"
proof -
  obtain base a1 where t: "take_base a = (base, a1)" by fastforce
  then have "slabs a1 = slabs a" by (auto simp: take_base_def split: if_splits)
  then show ?thesis
    using each_page_total [of "map_arbitrary ops" base "[0..<MAX_SLAB_PAGES]" "sa_pages a1", OF assms(1)] assms(2)
    by (auto simp: add_slab_def t slab_new_def Let_def split: option.splits prod.splits)
qed

lemma size_class_cases:
  assumes "find P SLAB_SIZE_CLASSES = Some c" shows "c \<in> set SLAB_SIZE_CLASSES" "P c"
  using assms by (auto simp: find_Some_iff)

lemma sa_alloc_inv:
  assumes inv: "sa_inv a" and r: "sa_alloc ops a sz align = Some (a', p)" and p: "p \<noteq> 0"
  shows "sa_inv a' \<and> p \<notin> live a \<and> live a' = insert p (live a)
    \<and> (\<exists>s\<in>set (slabs a'). sz \<le> slab_size s \<and> align \<le> slab_size s \<and> p \<in> slab_ptrs (sa_mem a', s))"
proof -
  obtain c where c: "find (\<lambda>s. sz \<le> s \<and> align \<le> s) SLAB_SIZE_CLASSES = Some c"
    using r p by (auto simp: sa_alloc_def split: if_splits option.splits)
  note C = size_class_cases [OF c]
  have r': "(case find_slab c (slabs a) of None \<Rightarrow> add_slab ops a c
      | Some i \<Rightarrow> (let ((mem', s'), ptr) = slab_alloc (sa_mem a, slabs a ! i);
                      a' = a\<lparr>sa_mem := mem', slabs := (slabs a)[i := s']\<rparr>
                  in if ptr \<noteq> 0 then Some (a', ptr) else add_slab ops a' c)) = Some (a', p)"
    using r p c by (auto simp: sa_alloc_def split: if_splits)
  show ?thesis
  proof (cases "find_slab c (slabs a)")
    case None
    with r' add_slab_inv [OF inv C(1), of ops a' p] C(2) show ?thesis by auto
  next
    case (Some i)
    note F = find_slab_Some [OF Some]
    then have i: "i < length (slabs a)" by simp
    obtain mem' s' ptr where al: "slab_alloc (sa_mem a, slabs a ! i) = ((mem', s'), ptr)"
      by (metis prod.collapse)
    note S = slab_alloc_step [OF sa_invD(1) [OF inv i] al]
    show ?thesis
    proof (cases "ptr = 0")
      case True
      then have "add_slab ops a c = Some (a', p)" using r' Some al S(6) by simp
      with add_slab_inv [OF inv C(1) this] C(2) show ?thesis by auto
    next
      case False
      let ?a = "a\<lparr>sa_mem := mem', slabs := (slabs a)[i := s']\<rparr>"
      have a': "a' = ?a" "p = ptr" using r' Some al False by auto
      note U = sa_update(1,2) [OF inv i S(1-5)]
      have free: "p \<in> slab_free_ptrs (sa_mem a, slabs a ! i)"
        and used: "used_ptrs (mem', s') = insert p (used_ptrs (sa_mem a, slabs a ! i))"
        using S(7) False a' by auto
      have "p \<notin> used_ptrs (sa_mem a, slabs a ! j)" if j: "j < length (slabs a)" for j
      proof (cases "j = i")
        case False
        from apart_blocks(3) [OF sa_inv_apart [OF inv i j] sa_invD(2) [OF inv i] sa_invD(2) [OF inv j]] False
        show ?thesis using free by (auto simp: used_ptrs_def slab_free_ptrs_def slab_ptrs_def)
      qed (use free in \<open>simp add: used_ptrs_def\<close>)
      then have "p \<notin> live a" by (auto simp: live_def)
      moreover have "s' \<in> set (slabs ?a)" using i by (simp add: set_update_memI)
      moreover have "p \<in> slab_ptrs (mem', s')" using used by (auto simp: used_ptrs_def)
      moreover have "sz \<le> slab_size s' \<and> align \<le> slab_size s'" using S(3) F C(2) by simp
      ultimately show ?thesis using U(1) U(2) [OF used] unfolding a' by auto
    qed
  qed
qed

lemma used_zero_empty:
  assumes "slab_inv (mem, s)" "used_blocks mem s = 0" shows "used_ptrs (mem, s) = {}"
proof -
  obtain fl where ok: "slab_ok s" and l: "slab_list mem s fl" using assms(1) by (auto simp: slab_inv_def)
  then have "length fl = blocks_per_slab (slab_size s)"
    using assms(2) slab_list_length [OF ok l] by (simp add: used_blocks_def slab_list_def)
  then have "card (set fl) = card (slab_blocks s)"
    using l card_slab_blocks [OF ok] by (simp add: slab_list_def distinct_card)
  then have "set fl = slab_blocks s"
    using l by (intro card_subset_eq) (auto simp: slab_list_def)
  then show ?thesis
    by (simp add: used_ptrs_def slab_free_ptrs_list [OF l] slab_ptrs_def)
qed

lemma swap_remove_set:
  assumes "i < length xs"
  shows "mset (swap_remove xs i) = mset xs - {#xs ! i#}"
proof (cases "i = length xs - 1")
  case True
  then show ?thesis using assms
    by (metis swap_remove_def append_butlast_last_id last_conv_nth length_0_conv less_zeroE
        mset_append add_diff_cancel_right' mset_single_iff_right)
next
  case False
  then have ne: "xs \<noteq> []" "i < length (butlast xs)" using assms by auto
  have "swap_remove xs i = (butlast xs)[i := last xs]"
    using False assms by (simp add: swap_remove_def butlast_list_update)
  then have r: "mset (swap_remove xs i) = add_mset (last xs) (mset (butlast xs) - {#butlast xs ! i#})"
    using ne by (simp add: mset_update)
  obtain M where "mset (butlast xs) = add_mset (butlast xs ! i) M"
    using ne(2) by (metis multi_member_split nth_mem_mset)
  moreover have "mset xs = add_mset (last xs) (mset (butlast xs))"
    using ne(1) by (metis append_butlast_last_id mset_append mset_single_iff_right union_mset_add_mset_right add.right_neutral)
  ultimately show ?thesis using r ne by (simp add: nth_butlast)
qed

lemma slab_dealloc_step:
  assumes "slab_inv (mem, s)" "p \<in> used_ptrs (mem, s)"
  obtains mem' s' where "slab_dealloc (mem, s) p = Some (mem', s')" "slab_inv (mem', s')"
    "slab_base s' = slab_base s" "slab_size s' = slab_size s"
    "\<forall>y. y \<notin> slab_blocks s \<longrightarrow> blocks mem' y = blocks mem y"
    "\<forall>y. y \<noteq> slab_base s \<longrightarrow> metas mem' y = metas mem y"
    "used_ptrs (mem', s') = used_ptrs (mem, s) - {p}"
proof -
  obtain fl where ok: "slab_ok s" and l: "slab_list mem s fl" using assms(1) by (auto simp: slab_inv_def)
  obtain x where x: "x \<in> slab_blocks s" "x \<notin> set fl" "p = x + 32"
    using assms(2) by (auto simp: used_ptrs_def slab_ptrs_def slab_free_ptrs_list [OF l])
  obtain mem' s' where r: "slab_dealloc (mem, s) (x + 32) = Some (mem', s')"
      "slab_base s' = slab_base s" "slab_size s' = slab_size s" "slab_list mem' s' (x # fl)"
      "\<forall>y. y \<notin> insert x (set fl) \<longrightarrow> blocks mem' y = blocks mem y"
      "\<forall>y. y \<noteq> slab_base s \<longrightarrow> metas mem' y = metas mem y"
    using slab_dealloc_list [OF ok l x(1,2)] by auto
  have blk: "slab_blocks s' = slab_blocks s" and "slab_ok s'" using ok r by (simp_all add: slab_blocks_def slab_ok_def)
  then have "slab_inv (mem', s')" using r(4) by (auto simp: slab_inv_def)
  moreover have "\<forall>y. y \<notin> slab_blocks s \<longrightarrow> blocks mem' y = blocks mem y"
    using r(5) l x(1) by (auto simp: slab_list_def)
  moreover have "used_ptrs (mem', s') = used_ptrs (mem, s) - {p}"
    using x(3) blk by (auto simp: used_ptrs_def slab_ptrs_def slab_free_ptrs_list [OF l] slab_free_ptrs_list [OF r(4)])
  ultimately show thesis using that r x(3) by blast
qed

lemma remove_empty_slab:
  fixes k :: 'k
  assumes inv: "sa_inv a" and i: "i < length (slabs a)" and e: "used_ptrs (sa_mem a, slabs a ! i) = {}"
  defines "a' \<equiv> a\<lparr>sa_pages := k, slabs := swap_remove (slabs a) i,
    freed_slots := freed_slots a @ [slab_base (slabs a ! i)]\<rparr>"
  shows "sa_inv a'" "live a' = live a" "length (freed_slots a) < MAX_SLABS"
proof -
  let ?ss = "swap_remove (slabs a) i"
  note M = swap_remove_set [OF i]
  obtain N where N: "mset (slabs a) = add_mset (slabs a ! i) N" using i by (metis multi_member_split nth_mem_mset)
  with M have Nr: "mset ?ss = N" by simp
  have len: "length (slabs a) = Suc (length ?ss)" using N Nr by (metis size_add_mset size_mset)
  have set: "set (slabs a) = insert (slabs a ! i) (set ?ss)"
    using N Nr by (metis set_mset_add_mset_insert set_mset_mset)
  have "mset (map slab_base (slabs a) @ freed_slots a) =
      mset (map slab_base ?ss @ freed_slots a @ [slab_base (slabs a ! i)])"
    using N Nr by simp
  then have perm: "distinct (map slab_base (slabs a) @ freed_slots a) =
        distinct (map slab_base ?ss @ freed_slots a @ [slab_base (slabs a ! i)])"
      "set (map slab_base (slabs a) @ freed_slots a) =
        set (map slab_base ?ss @ freed_slots a @ [slab_base (slabs a ! i)])"
    using mset_eq_imp_distinct_iff mset_eq_setD by blast+
  have su: "slots_used a' = slots_used a" using len by (simp add: slots_used_def a'_def)
  have each: "\<forall>s\<in>set (slabs a). slab_inv (sa_mem a, s)"
    using inv by (auto simp: sa_inv_def in_set_conv_nth)
  then have "\<forall>j<length ?ss. slab_inv (sa_mem a, ?ss ! j)" using set by auto
  moreover have "set (map slab_base ?ss @ freed_slots a @ [slab_base (slabs a ! i)]) \<subseteq> slot ` {..<slots_used a}"
    using inv perm(2) by (simp only: sa_inv_def)
  moreover have "distinct (map slab_base ?ss @ freed_slots a @ [slab_base (slabs a ! i)])"
    using inv perm(1) by (simp only: sa_inv_def)
  ultimately show "sa_inv a'" using inv su unfolding sa_inv_def a'_def by simp
  have lv: "live b = (\<Union>s\<in>set (slabs b). used_ptrs (sa_mem b, s))" for b :: "'k slab_allocator"
    unfolding live_def set_conv_nth by auto
  show "live a' = live a" unfolding lv using set e by (auto simp: a'_def)
  show "length (freed_slots a) < MAX_SLABS" using inv len by (auto simp: sa_inv_def slots_used_def)
qed

lemma sa_dealloc_inv:
  assumes inv: "sa_inv a" and c: "find (\<lambda>s. sz \<le> s) SLAB_SIZE_CLASSES = Some c"
    and i: "find_slab c (slabs a) = Some i" and p: "p \<in> used_ptrs (sa_mem a, slabs a ! i)"
    and r: "sa_dealloc ops a p sz = Some a'"
  shows "sa_inv a' \<and> live a' = live a - {p}"
proof -
  have il: "i < length (slabs a)" using find_slab_Some [OF i] by simp
  note si = sa_invD(1) [OF inv il]
  obtain mem' s' where d: "slab_dealloc (sa_mem a, slabs a ! i) p = Some (mem', s')" "slab_inv (mem', s')"
    "slab_base s' = slab_base (slabs a ! i)" "slab_size s' = slab_size (slabs a ! i)"
    "\<forall>y. y \<notin> slab_blocks (slabs a ! i) \<longrightarrow> blocks mem' y = blocks (sa_mem a) y"
    "\<forall>y. y \<noteq> slab_base (slabs a ! i) \<longrightarrow> metas mem' y = metas (sa_mem a) y"
    "used_ptrs (mem', s') = used_ptrs (sa_mem a, slabs a ! i) - {p}"
    using slab_dealloc_step [OF si p] by blast
  let ?a = "a\<lparr>sa_mem := mem', slabs := (slabs a)[i := s']\<rparr>"
  note U = sa_update(1) [OF inv il d(2-6)] sa_update(3) [OF inv il d(2-6) d(7) p]
  have nz: "p \<noteq> 0"
    using p slab_ptr_nonzero(2) [OF sa_invD(2) [OF inv il]] by (auto simp: used_ptrs_def slab_ptrs_def)
  have nth: "slabs ?a ! i = s'" "i < length (slabs ?a)" using il by simp_all
  show ?thesis
  proof (cases "used_blocks mem' s' = 0")
    case False
    then have "a' = ?a" using r nz c i d(1) by (simp add: sa_dealloc_def)
    then show ?thesis using U by simp
  next
    case True
    have e: "used_ptrs (sa_mem ?a, slabs ?a ! i) = {}" using used_zero_empty [OF d(2) True] nth by simp
    note R = remove_empty_slab [OF U(1) nth(2) e]
    obtain k where "a' = ?a\<lparr>sa_pages := k, slabs := swap_remove (slabs ?a) i,
        freed_slots := freed_slots ?a @ [slab_base (slabs ?a ! i)]\<rparr>"
      using r nz c i d(1) True R(3) nth by (auto simp: sa_dealloc_def Let_def split: option.splits)
    then show ?thesis using R(1,2) U(2) by simp
  qed
qed

section \<open>The global allocator\<close>

text \<open>
  Requests above the largest class, and requests the slabs cannot serve, go to the free-list heap
  of the \<open>linked_list_allocator\<close> crate: the parameters \<open>first_fit\<close> and \<open>give_back\<close>.  Interrupts are
  off during a call.
\<close>

definition global_alloc ::
  "'k page_ops \<Rightarrow> ('h \<Rightarrow> nat \<Rightarrow> nat \<Rightarrow> 'h \<times> u64 option) \<Rightarrow> 'k slab_allocator \<times> 'h \<Rightarrow> nat \<Rightarrow> nat
    \<Rightarrow> (('k slab_allocator \<times> 'h) \<times> u64) option" where
  "global_alloc ops first_fit st sz align =
    (let (a, h) = st;
         large = (\<lambda>a. let (h', p) = first_fit h sz align in Some ((a, h'), case p of Some q \<Rightarrow> q | None \<Rightarrow> 0))
     in if sz > last SLAB_SIZE_CLASSES then large a
        else case sa_alloc ops a sz align of
               None \<Rightarrow> None
             | Some (a', ptr) \<Rightarrow> (if ptr = 0 then large a' else Some ((a', h), ptr)))"

definition global_dealloc ::
  "'k page_ops \<Rightarrow> ('h \<Rightarrow> u64 \<Rightarrow> nat \<Rightarrow> nat \<Rightarrow> 'h) \<Rightarrow> 'k slab_allocator \<times> 'h \<Rightarrow> u64 \<Rightarrow> nat \<Rightarrow> nat
    \<Rightarrow> ('k slab_allocator \<times> 'h) option" where
  "global_dealloc ops give_back st ptr sz align =
    (let (a, h) = st
     in if sz > last SLAB_SIZE_CLASSES
        then Some (a, if ptr \<noteq> 0 then give_back h ptr sz align else h)
        else map_option (\<lambda>a'. (a', h)) (sa_dealloc ops a ptr sz))"

text \<open>\<open>init\<close> maps the twenty megabytes of the free-list heap.\<close>

fun map_large_pages :: "'k page_ops \<Rightarrow> nat \<Rightarrow> u64 \<Rightarrow> 'k \<Rightarrow> 'k option" where
  "map_large_pages ops 0 addr k = Some k"
| "map_large_pages ops (Suc n) addr k =
    (case map_arbitrary ops k addr of
       None \<Rightarrow> None
     | Some k' \<Rightarrow> map_large_pages ops n (addr + 4096) k')"

definition heap_init :: "'k page_ops \<Rightarrow> (u64 \<Rightarrow> nat \<Rightarrow> 'h) \<Rightarrow> 'k \<Rightarrow> ('k \<times> 'h) option" where
  "heap_init ops init_heap k =
    map_option (\<lambda>k'. (k', init_heap LARGE_ALLOC_BASE_ADDR (2097152 * 10)))
      (map_large_pages ops (2097152 * 10 div 4096) LARGE_ALLOC_BASE_ADDR k)"

section \<open>Properties\<close>


lemma new_allocator_inv: "sa_inv (slab_allocator_new k mem)" "live (slab_allocator_new k mem) = {}"
  by (simp_all add: sa_inv_def slab_allocator_new_def slots_used_def slot_def live_def)


text \<open>
  C23: giving a small block back. When the pointer is live in the first slab of its size class, the
  call removes exactly that pointer from the live ones and keeps the invariant, also when the slab
  becomes empty and its pages and its address are recycled.
\<close>

theorem sa_dealloc_releases:
  assumes "sa_inv a" "find (\<lambda>s. sz \<le> s) SLAB_SIZE_CLASSES = Some c" "find_slab c (slabs a) = Some i"
    and "p \<in> used_ptrs (sa_mem a, slabs a ! i)" "sa_dealloc ops a p sz = Some a'"
  shows "sa_inv a' \<and> live a' = live a - {p}"
  by (rule sa_dealloc_inv [OF assms])

text \<open>A slab of the largest class in the first slot, every block of it in use.\<close>

definition full_mem :: slab_mem where
  "full_mem = \<lparr>blocks = (\<lambda>_. \<lparr>bm_next = None, bm_prev = None, bm_used = True\<rparr>),
     metas = (\<lambda>_. \<lparr>sm_size = 4096, sm_used = 14, sm_total = 14, sm_magic = SLAB_MAGIC\<rparr>)\<rparr>"

definition full_slab :: "nat \<Rightarrow> slab" where
  "full_slab i = \<lparr>slab_base = slot i, slab_size = 4096, slab_head = None\<rparr>"

definition full_allocator :: "nat \<Rightarrow> u64 list slab_allocator" where
  "full_allocator n = \<lparr>sa_pages = [], sa_mem = full_mem, slabs = map full_slab [0..<n],
     next_base = slot n, freed_slots = []\<rparr>"

lemma blocks_4096: "blocks_per_slab 4096 = 14"
  by (simp add: blocks_per_slab_def MAX_SLAB_PAGES_def size_of_SlabMeta_def size_of_BlockMeta_def)

lemma full_slab_inv:
  assumes "i \<le> 33" shows "slab_inv (full_mem, full_slab i)"
    and "used_ptrs (full_mem, full_slab i) = slab_ptrs (full_mem, full_slab i)"
    and "slot i + 64 \<in> used_ptrs (full_mem, full_slab i)"
proof -
  have "slab_ok (full_slab i)"
    using slot_nat(2) [OF assms] by (simp add: slab_ok_def full_slab_def SLAB_SIZE_CLASSES_def MAX_SLAB_PAGES_def)
  moreover have "slab_list full_mem (full_slab i) []"
    by (simp add: slab_list_def full_slab_def full_mem_def blocks_4096)
  ultimately show "slab_inv (full_mem, full_slab i)" by (auto simp: slab_inv_def)
  show u: "used_ptrs (full_mem, full_slab i) = slab_ptrs (full_mem, full_slab i)"
    by (simp add: used_ptrs_def slab_free_ptrs_def full_mem_def)
  have "slot i + 32 = block_addr (slot i) 4096 0" by (simp add: block_addr_def size_of_SlabMeta_def)
  then have "slot i + 32 \<in> slab_blocks (full_slab i)"
    by (auto simp: slab_blocks_def full_slab_def blocks_4096)
  then show "slot i + 64 \<in> used_ptrs (full_mem, full_slab i)"
    unfolding u slab_ptrs_def by (force simp: add.commute)
qed

lemma full_allocator_inv: "n \<le> MAX_SLABS \<Longrightarrow> sa_inv (full_allocator n)"
  using full_slab_inv(1)
  by (auto simp: sa_inv_def full_allocator_def slots_used_def full_slab_def MAX_SLABS_def distinct_map
      inj_on_def slot_inj)

lemma class_of_4096: "find (\<lambda>s. 4096 \<le> s) SLAB_SIZE_CLASSES = Some 4096"
  by (simp add: SLAB_SIZE_CLASSES_def)

theorem sa_dealloc_releases_witness:
  "\<exists>a'. sa_dealloc \<lparr>map_arbitrary = (\<lambda>k v. Some (v # k)), free_arbitrary = (\<lambda>k v. Some (removeAll v k))\<rparr>
      (full_allocator 1) (slot 0 + 64) 4096 = Some a'
    \<and> slot 0 + 64 \<in> live (full_allocator 1) \<and> live a' = live (full_allocator 1) - {slot 0 + 64}"
proof -
  let ?ops = "\<lparr>map_arbitrary = (\<lambda>k v. Some (v # k)), free_arbitrary = (\<lambda>k v. Some (removeAll v k))\<rparr>
    :: u64 list page_ops"
  have inv: "sa_inv (full_allocator 1)" by (rule full_allocator_inv) (simp add: MAX_SLABS_def)
  have f: "find_slab 4096 (slabs (full_allocator 1)) = Some 0" by (simp add: full_allocator_def full_slab_def)
  have p: "slot 0 + 64 \<in> used_ptrs (sa_mem (full_allocator 1), slabs (full_allocator 1) ! 0)"
    using full_slab_inv(3) [of 0] by (simp add: full_allocator_def)
  have "\<exists>a'. sa_dealloc ?ops (full_allocator 1) (slot 0 + 64) 4096 = Some a'"
    by (simp add: sa_dealloc_def class_of_4096 f slab_dealloc_def full_allocator_def full_mem_def full_slab_def
        used_blocks_def meta_deallocate_def size_of_BlockMeta_def slot_def SLAB_BASE_ADDR_def Let_def)
  then obtain a' where r: "sa_dealloc ?ops (full_allocator 1) (slot 0 + 64) 4096 = Some a'" by blast
  from sa_dealloc_releases [OF inv class_of_4096 f p r] r p
  show ?thesis by (auto simp: live_def full_allocator_def)
qed

text \<open>
  A block is returned to the first slab of its size class, whichever slab it came from. When
  two slabs of one class exist, giving back a live block of the second puts it at the head of the
  free list of the first and takes it off the first slab's count of used blocks: the invariant of
  the heap no longer holds.
\<close>

theorem dealloc_wrong_slab:
  assumes "sa_inv a" "find (\<lambda>s. sz \<le> s) SLAB_SIZE_CLASSES = Some c" "find_slab c (slabs a) = Some i"
    and "j < length (slabs a)" "j \<noteq> i" "slab_size (slabs a ! j) = c"
    and "p \<in> used_ptrs (sa_mem a, slabs a ! j)" "1 < used_blocks (sa_mem a) (slabs a ! i)"
  shows "\<exists>a'. sa_dealloc ops a p sz = Some a' \<and> slab_head (slabs a' ! i) = Some (p - 32)
    \<and> p - 32 \<in> slab_blocks (slabs a ! j) \<and> p - 32 \<notin> slab_blocks (slabs a ! i)
    \<and> used_blocks (sa_mem a') (slabs a' ! i) = used_blocks (sa_mem a) (slabs a ! i) - 1
    \<and> \<not> sa_inv a'"
proof -
  have i: "i < length (slabs a)" using find_slab_Some [OF assms(3)] by simp
  have x: "p - 32 \<in> slab_blocks (slabs a ! j)" using assms(7) by (auto simp: used_ptrs_def slab_ptrs_def)
  note ok = sa_invD(2) [OF assms(1) i] sa_invD(2) [OF assms(1,4)]
  have nx: "p - 32 \<notin> slab_blocks (slabs a ! i)"
    using x apart_blocks(1) [OF sa_inv_apart [OF assms(1) i assms(4)] ok] assms(5) by auto
  have nz: "p - 32 \<noteq> 0" "p \<noteq> 0"
    using slab_ptr_nonzero [OF ok(2) x] by auto
  obtain fl where l: "slab_list (sa_mem a) (slabs a ! i) fl"
    using sa_invD(1) [OF assms(1) i] by (auto simp: slab_inv_def)
  define m where "m = metas (sa_mem a) (slab_base (slabs a ! i))"
  have m: "sm_magic m = SLAB_MAGIC" "1 < sm_used m"
    using l assms(8) by (auto simp: slab_list_def m_def used_blocks_def)
  have "\<exists>mem' s'. slab_dealloc (sa_mem a, slabs a ! i) p = Some (mem', s')
      \<and> slab_head s' = Some (p - 32) \<and> slab_base s' = slab_base (slabs a ! i)
      \<and> slab_size s' = slab_size (slabs a ! i) \<and> metas mem' (slab_base (slabs a ! i)) = meta_deallocate m"
    using m nz by (simp add: slab_dealloc_def Let_def m_def size_of_BlockMeta_def)
  then obtain mem' s' where d: "slab_dealloc (sa_mem a, slabs a ! i) p = Some (mem', s')"
      "slab_head s' = Some (p - 32)" "slab_base s' = slab_base (slabs a ! i)" "slab_size s' = slab_size (slabs a ! i)"
      "metas mem' (slab_base (slabs a ! i)) = meta_deallocate m"
    by blast
  let ?a = "a\<lparr>sa_mem := mem', slabs := (slabs a)[i := s']\<rparr>"
  have u: "used_blocks mem' s' = used_blocks (sa_mem a) (slabs a ! i) - 1" "used_blocks mem' s' \<noteq> 0"
    using m d(3,5) by (auto simp: used_blocks_def meta_deallocate_def m_def)
  have r: "sa_dealloc ops a p sz = Some ?a"
    using nz assms(2,3) d(1) u(2) by (simp add: sa_dealloc_def)
  have "\<not> slab_inv (mem', s')"
  proof
    assume "slab_inv (mem', s')"
    then obtain fl' where "slab_list mem' s' fl'" by (auto simp: slab_inv_def)
    then have "p - 32 \<in> slab_blocks s'" using d(2) by (cases fl') (auto simp: slab_list_def)
    then show False using nx d(3,4) by (simp add: slab_blocks_def)
  qed
  then have "\<not> sa_inv ?a" using i by (auto simp: sa_inv_def)
  with r x nx d(2) u(1) i show ?thesis by auto
qed

theorem dealloc_wrong_slab_witness:
  "\<exists>a'. sa_dealloc \<lparr>map_arbitrary = (\<lambda>k v. Some (v # k)), free_arbitrary = (\<lambda>k v. Some (removeAll v k))\<rparr>
      (full_allocator 2) (slot 1 + 64) 4096 = Some a'
    \<and> slab_head (slabs a' ! 0) = Some (slot 1 + 32) \<and> \<not> sa_inv a'"
proof -
  let ?a = "full_allocator 2"
  have inv: "sa_inv ?a" by (rule full_allocator_inv) (simp add: MAX_SLABS_def)
  have f: "find_slab 4096 (slabs ?a) = Some 0"
    by (simp add: full_allocator_def full_slab_def upt_rec numeral_2_eq_2)
  have s: "slabs ?a = [full_slab 0, full_slab 1]" by (simp add: full_allocator_def upt_rec numeral_2_eq_2)
  have p: "slot 1 + 64 \<in> used_ptrs (sa_mem ?a, slabs ?a ! 1)"
    using full_slab_inv(3) [of 1] s by (simp add: full_allocator_def)
  have u: "1 < used_blocks (sa_mem ?a) (slabs ?a ! 0)"
    by (simp add: s full_allocator_def full_mem_def used_blocks_def)
  have j: "(1 :: nat) < length (slabs ?a)" "slab_size (slabs ?a ! 1) = 4096" by (simp_all add: s full_slab_def)
  from dealloc_wrong_slab [OF inv class_of_4096 f j(1) _ j(2) p u,
      of "\<lparr>map_arbitrary = (\<lambda>k v. Some (v # k)), free_arbitrary = (\<lambda>k v. Some (removeAll v k))\<rparr>"]
  show ?thesis by (auto simp: add.commute [of _ 32])
qed

text \<open>
  C24: the memory behind two different pointers of one slab does not overlap, and lies inside the
  fifteen pages of the slab, past the slab header and past the header of its block.
\<close>

theorem slab_ptrs_disjoint:
  assumes "slab_ok s" "p \<in> slab_ptrs (mem, s)" "q \<in> slab_ptrs (mem, s)" "p \<noteq> q"
  shows "(unat p + slab_size s + size_of_BlockMeta \<le> unat q \<or> unat q + slab_size s + size_of_BlockMeta \<le> unat p)
    \<and> unat (slab_base s) + size_of_SlabMeta + size_of_BlockMeta \<le> unat p
    \<and> unat p + slab_size s \<le> unat (slab_base s) + MAX_SLAB_PAGES * 4096"
proof -
  obtain x y where x: "x \<in> slab_blocks s" "p = x + 32" and y: "y \<in> slab_blocks s" "q = y + 32"
    using assms(2,3) by (auto simp: slab_ptrs_def)
  obtain i j where i: "i < blocks_per_slab (slab_size s)" "x = block_addr (slab_base s) (slab_size s) i"
    and j: "j < blocks_per_slab (slab_size s)" "y = block_addr (slab_base s) (slab_size s) j"
    using x y by (auto simp: slab_blocks_def)
  have "Suc i * (32 + slab_size s) \<le> j * (32 + slab_size s) \<or> Suc j * (32 + slab_size s) \<le> i * (32 + slab_size s)"
  proof -
    have "i \<noteq> j" using assms(4) x y i j by auto
    then have "Suc i \<le> j \<or> Suc j \<le> i" by linarith
    then show ?thesis using mult_le_mono1 by blast
  qed
  then have "unat x + (32 + slab_size s) \<le> unat y \<or> unat y + (32 + slab_size s) \<le> unat x"
    unfolding i(2) j(2) unat_block_addr [OF assms(1) i(1)] unat_block_addr [OF assms(1) j(1)] by auto
  then show ?thesis
    using slab_blocks_range [OF assms(1) x(1)] slab_blocks_range(3) [OF assms(1) y(1)] x(2) y(2)
    by (auto simp: size_of_BlockMeta_def size_of_SlabMeta_def)
qed

theorem slab_ptrs_disjoint_witness:
  "slot 0 + 64 \<in> slab_ptrs (full_mem, full_slab 0) \<and> slot 0 + 4192 \<in> slab_ptrs (full_mem, full_slab 0)
   \<and> unat (slot 0 + 4192) + 4096 \<le> unat (slot 0) + MAX_SLAB_PAGES * 4096"
proof -
  have ok: "slab_ok (full_slab 0)" using full_slab_inv(1) [of 0] by (simp add: slab_inv_def)
  have "slot 0 + 32 = block_addr (slot 0) 4096 0" "slot 0 + 4160 = block_addr (slot 0) 4096 1"
    by (simp_all add: block_addr_def size_of_SlabMeta_def size_of_BlockMeta_def)
  then have b: "slot 0 + 32 \<in> slab_blocks (full_slab 0)" "slot 0 + 4160 \<in> slab_blocks (full_slab 0)"
    by (auto simp: slab_blocks_def full_slab_def blocks_4096)
  have "slot 0 + 64 = (slot 0 + 32) + 32" "slot 0 + 4192 = (slot 0 + 4160) + 32" by simp_all
  then have p: "slot 0 + 64 \<in> slab_ptrs (full_mem, full_slab 0)" "slot 0 + 4192 \<in> slab_ptrs (full_mem, full_slab 0)"
    using b unfolding slab_ptrs_def by (metis imageI snd_conv)+
  have "slot 0 + 4192 \<noteq> slot 0 + 64" by simp
  from slab_ptrs_disjoint [OF ok p(2,1) this] p show ?thesis by (simp add: full_slab_def)
qed

text \<open>
  The blocks of a class are not aligned to their size: the second block of a slab of class 64
  starts 32 bytes past a 64-byte boundary, whatever alignment the request asked for.
\<close>

lemma block_misaligned:
  assumes "slab_ok s" "slab_size s = 64" "unat (slab_base s) mod 4096 = 0"
  shows "unat (block_addr (slab_base s) (slab_size s) 1 + 32) mod 64 = 32"
proof -
  have "block_addr (slab_base s) (slab_size s) 1 \<in> slab_blocks s"
    by (auto simp: slab_blocks_def assms(2) blocks_per_slab_def MAX_SLAB_PAGES_def size_of_SlabMeta_def size_of_BlockMeta_def)
  from slab_blocks_range(3) [OF assms(1) this]
  have "unat (block_addr (slab_base s) (slab_size s) 1 + 32) = unat (slab_base s) + 160"
    using unat_block_addr [OF assms(1), of 1] assms(2)
    by (simp add: blocks_per_slab_def MAX_SLAB_PAGES_def size_of_SlabMeta_def size_of_BlockMeta_def)
  moreover have "unat (slab_base s) mod 64 = 0"
    using assms(3) mod_mod_cancel [of 64 4096 "unat (slab_base s)"] by simp
  ultimately show ?thesis using mod_add_left_eq [of "unat (slab_base s)" 64 160] by simp
qed

end
