(* ===== verification/Pci.thy ===== *)
theory Pci
  imports Prelude
begin

text \<open>
  Finding the AHCI controller, \<open>zenos-kernel/src/pci/mod.rs\<close>.  The configuration space is a
  function from the value written to the address port to the value the data port then reads.
\<close>

record pci_device =
  pci_bus :: u8
  pci_slot :: u8
  pci_func :: u8
  bar5 :: u32

definition pci_address :: "u8 \<Rightarrow> u8 \<Rightarrow> u8 \<Rightarrow> u8 \<Rightarrow> u32" where
  "pci_address bus slot func offset =
    push_bit 31 1 OR push_bit 16 (ucast bus) OR push_bit 11 (ucast slot) OR push_bit 8 (ucast func)
    OR (ucast offset AND 0xFC)"

definition pci_config_read_dword :: "(u32 \<Rightarrow> u32) \<Rightarrow> u8 \<Rightarrow> u8 \<Rightarrow> u8 \<Rightarrow> u8 \<Rightarrow> u32" where
  "pci_config_read_dword cfg bus slot func offset = cfg (pci_address bus slot func offset)"

definition pci_config_read_byte :: "(u32 \<Rightarrow> u32) \<Rightarrow> u8 \<Rightarrow> u8 \<Rightarrow> u8 \<Rightarrow> u8 \<Rightarrow> u8" where
  "pci_config_read_byte cfg bus slot func offset =
    (let dword = pci_config_read_dword cfg bus slot func (offset AND 0xFC)
     in ucast (drop_bit (unat ((offset AND 3) * 8)) dword AND 0xFF))"

definition pci_config_read_word :: "(u32 \<Rightarrow> u32) \<Rightarrow> u8 \<Rightarrow> u8 \<Rightarrow> u8 \<Rightarrow> u8 \<Rightarrow> u16" where
  "pci_config_read_word cfg bus slot func offset =
    (let dword = pci_config_read_dword cfg bus slot func (offset AND 0xFC)
     in ucast (drop_bit (unat ((offset AND 2) * 8)) dword AND 0xFFFF))"

definition is_ahci :: "(u32 \<Rightarrow> u32) \<Rightarrow> u8 \<times> u8 \<times> u8 \<Rightarrow> bool" where
  "is_ahci cfg loc =
    (let (bus, slot, func) = loc
     in pci_config_read_word cfg bus slot func 0 \<noteq> 0xFFFF
        \<and> pci_config_read_byte cfg bus slot func 0x0B = 0x01
        \<and> pci_config_read_byte cfg bus slot func 0x0A = 0x06
        \<and> pci_config_read_byte cfg bus slot func 0x09 = 0x01)"

definition pci_locations :: "(u8 \<times> u8 \<times> u8) list" where
  "pci_locations = [(of_nat b, of_nat s, of_nat f). b \<leftarrow> [0..<256], s \<leftarrow> [0..<32], f \<leftarrow> [0..<8]]"

definition scan_pci_for_ahci :: "(u32 \<Rightarrow> u32) \<Rightarrow> pci_device option" where
  "scan_pci_for_ahci cfg =
    map_option (\<lambda>(bus, slot, func). \<lparr>pci_bus = bus, pci_slot = slot, pci_func = func,
        bar5 = pci_config_read_dword cfg bus slot func 0x24 AND 0xFFFFFFF0\<rparr>)
      (List.find (is_ahci cfg) pci_locations)"

lemma pci_locations_set: "set pci_locations = {(b, s, f). unat s < 32 \<and> unat f < 8}"
proof -
  have "(b, s, f) \<in> set pci_locations" if "unat s < 32" "unat f < 8" for b s f :: u8
  proof -
    have "unat b < 256" using unsigned_less [of b, where 'a = nat] by simp
    with that have "\<exists>b'\<in>{0..<256}. \<exists>s'\<in>{0..<32}. \<exists>f'\<in>{0..<8}. (b, s, f) = (of_nat b', of_nat s', of_nat f')"
      by (intro bexI [of _ "unat b"] bexI [of _ "unat s"] bexI [of _ "unat f"]) auto
    then show ?thesis unfolding pci_locations_def by auto
  qed
  moreover have "unat s < 32 \<and> unat f < 8" if "(b, s, f) \<in> set pci_locations" for b s f
    using that by (auto simp: pci_locations_def unat_of_nat)
  ultimately show ?thesis by auto
qed

lemma bit_mask_fc: "bit (0xFC :: u32) i \<longleftrightarrow> 2 \<le> i \<and> i < 8"
proof -
  have eq: "(0xFC :: u32) = push_bit 2 (mask 6)" by (simp add: mask_eq_exp_minus_1 push_bit_eq_mult)
  show ?thesis unfolding eq bit_push_bit_iff bit_mask_iff by auto
qed

lemma pci_address_bit:
  assumes "unat slot < 32" "unat func < 8"
  shows "bit (pci_address bus slot func offset) i \<longleftrightarrow>
    (if i < 2 then False else if i < 8 then bit offset i else if i < 11 then bit func (i - 8)
     else if i < 16 then bit slot (i - 11) else if i < 24 then bit bus (i - 16) else i = 31)"
proof -
  have b: "\<not> bit slot j" if "5 \<le> j" for j using that bit_small [of slot 5 j] assms(1) by auto
  have f: "\<not> bit func j" if "3 \<le> j" for j using that bit_small [of func 3 j] assms(2) by auto
  have n: "\<not> bit bus j" if "8 \<le> j" for j using that bit_imp_le_length [of bus j] by auto
  have bits: "bit (pci_address bus slot func offset) i \<longleftrightarrow> i = 31 \<or> 16 \<le> i \<and> i < 32 \<and> bit bus (i - 16)
      \<or> 11 \<le> i \<and> i < 32 \<and> bit slot (i - 11) \<or> 8 \<le> i \<and> i < 32 \<and> bit func (i - 8) \<or> bit offset i \<and> 2 \<le> i \<and> i < 8"
    unfolding pci_address_def bit_or_iff bit_and_iff bit_push_bit_iff bit_unsigned_iff bit_mask_fc bit_1_iff
    by auto
  consider "i < 2" | "2 \<le> i \<and> i < 8" | "8 \<le> i \<and> i < 11" | "11 \<le> i \<and> i < 16" | "16 \<le> i \<and> i < 24" | "24 \<le> i" by linarith
  then show ?thesis unfolding bits by cases (auto simp: b f n)
qed

text \<open>
  No two configuration registers share an address: for a slot below 32 and a function below 8,
  the address written to the port determines the bus, the slot, the function and the register (the
  offset without its two low bits).
\<close>

theorem pci_address_inj:
  assumes "unat slot < 32" "unat func < 8" "unat slot' < 32" "unat func' < 8"
    and "pci_address bus slot func offset = pci_address bus' slot' func' offset'"
  shows "bus = bus' \<and> slot = slot' \<and> func = func' \<and> drop_bit 2 offset = drop_bit 2 offset'"
proof -
  have eq: "(if i < 2 then False else if i < 8 then bit offset i else if i < 11 then bit func (i - 8)
     else if i < 16 then bit slot (i - 11) else if i < 24 then bit bus (i - 16) else i = 31) \<longleftrightarrow>
    (if i < 2 then False else if i < 8 then bit offset' i else if i < 11 then bit func' (i - 8)
     else if i < 16 then bit slot' (i - 11) else if i < 24 then bit bus' (i - 16) else i = 31)" for i
    unfolding pci_address_bit [OF assms(1,2), of bus offset i, symmetric] pci_address_bit [OF assms(3,4), of bus' offset' i, symmetric]
      assms(5) ..
  have "bit bus i = bit bus' i" if "i < 8" for i using eq [of "i + 16"] that by simp
  moreover have "bit slot i = bit slot' i" for i
    using eq [of "i + 11"] bit_small [of slot 5 i] bit_small [of slot' 5 i] assms(1,3) by (cases "i < 5") auto
  moreover have "bit func i = bit func' i" for i
    using eq [of "i + 8"] bit_small [of func 3 i] bit_small [of func' 3 i] assms(2,4) by (cases "i < 3") auto
  moreover have "bit offset (2 + i) = bit offset' (2 + i)" for i
    using eq [of "i + 2"] bit_imp_le_length [of offset "2 + i"] bit_imp_le_length [of offset' "2 + i"]
    by (cases "i < 6") (auto simp: add.commute)
  ultimately show ?thesis by (auto intro!: bit_word_eqI simp: bit_drop_bit_eq)
qed

theorem pci_address_inj_witness:
  "pci_address 3 31 7 0x24 = pci_address 3 31 7 0x26 \<and> drop_bit 2 (0x24 :: u8) = drop_bit 2 0x26"
  using pci_address_inj [of 31 7 31 7 3 "0x24" 3 "0x26"] by (simp add: pci_address_def)


end
