(* ===== verification/BlockDev.thy ===== *)
theory BlockDev
  imports Prelude
begin

text \<open>
  The block layer of \<open>zenos-kernel/src/disk/block/mod.rs\<close>: the \<open>BlockDevice\<close> trait as a record of
  operations, its default methods, the driver wrapper, and the GPT header and partition entries read
  through it.  The locale \<open>block_device\<close> is the contract of the trait: a device is a sequence of bytes
  with a cursor.  A device may use up memory with every transfer, so the contract has a budget:
  a device that is \<open>ready b\<close> can serve transfers of total cost \<open>b\<close>.
\<close>

section \<open>The BlockDevice trait\<close>

datatype block_error = ReadError | WriteError | SeekError | UnsupportedOperation | DeviceNotFound | InvalidGPT

datatype seek_from = Start u64 | End u64 | Current u64

record 'd block_ops =
  block_size :: "'d \<Rightarrow> u64"
  bd_read :: "'d \<Rightarrow> nat \<Rightarrow> 'd \<times> (block_error fault, bytes) result"
  bd_write :: "'d \<Rightarrow> bytes \<Rightarrow> 'd \<times> (block_error fault, nat) result"
  bd_seek :: "'d \<Rightarrow> seek_from \<Rightarrow> 'd \<times> (block_error fault, u64) result"
  bd_flush :: "'d \<Rightarrow> 'd \<times> (block_error fault, unit) result"

text \<open>
  The operation \<open>bd_read\<close> gives the bytes it put at the start of a buffer of the given length.  The
  loop of \<open>read_exact\<close> ends when the buffer is full, at an empty read, or at an error.
\<close>

function read_exact_loop :: "'d block_ops \<Rightarrow> 'd \<Rightarrow> nat \<Rightarrow> bytes \<Rightarrow> 'd \<times> (block_error fault, bytes) result" where
  "read_exact_loop ops d n acc =
    (if length acc < n
     then sbind (bd_read ops d (n - length acc))
            (\<lambda>d' bs. if bs = [] then (d', Inr acc) else read_exact_loop ops d' n (acc @ bs))
     else (d, Inr acc))"
  by pat_completeness auto
termination by (relation "measure (\<lambda>(ops, d, n, acc). n - length acc)") (auto intro!: diff_less_mono2)

declare read_exact_loop.simps [simp del]

definition read_exact :: "'d block_ops \<Rightarrow> 'd \<Rightarrow> nat \<Rightarrow> 'd \<times> (block_error fault, bytes) result" where
  "read_exact ops d n =
    sbind (read_exact_loop ops d n [])
      (\<lambda>d' acc. if length acc = n then (d', Inr acc) else (d', Inl (Fail ReadError)))"

text \<open>The wrapper behind which the filesystems see a device; every method is handed on.\<close>

datatype 'd driver = Driver (device: 'd)

definition driver_ops :: "'d block_ops \<Rightarrow> 'd driver block_ops" where
  "driver_ops ops =
    \<lparr>block_size = (\<lambda>d. block_size ops (device d)),
     bd_read = (\<lambda>d n. let (d', r) = bd_read ops (device d) n in (Driver d', r)),
     bd_write = (\<lambda>d bs. let (d', r) = bd_write ops (device d) bs in (Driver d', r)),
     bd_seek = (\<lambda>d p. let (d', r) = bd_seek ops (device d) p in (Driver d', r)),
     bd_flush = (\<lambda>d. let (d', r) = bd_flush ops (device d) in (Driver d', r))\<rparr>"

section \<open>GPT\<close>

definition crc_poly :: u32 where "crc_poly = 0xEDB88320"

definition crc_bit :: "u32 \<Rightarrow> u32" where
  "crc_bit crc = (if crc AND 1 \<noteq> 0 then drop_bit 1 crc XOR crc_poly else drop_bit 1 crc)"

definition crc_byte :: "u32 \<Rightarrow> u8 \<Rightarrow> u32" where
  "crc_byte crc byte = (crc_bit ^^ 8) (crc XOR ucast byte)"

definition crc32 :: "bytes \<Rightarrow> u32" where
  "crc32 bs = NOT (foldl crc_byte 0xFFFFFFFF bs)"

record gpt_header =
  signature :: bytes
  rev_number :: u32
  header_size :: u32
  header_crc32 :: u32
  reserved :: u32
  current_lba :: u64
  backup_lba :: u64
  first_usable_lba :: u64
  last_usable_lba :: u64
  disk_guid :: bytes
  partition_entry_lba :: u64
  num_partition_entries :: u32
  size_of_partition_entry :: u32
  partition_entry_array_crc32 :: u32

record gpt_partition_entry =
  partition_type_guid :: bytes
  unique_partition_guid :: bytes
  starting_lba :: u64
  ending_lba :: u64
  attributes :: u64
  partition_name :: "u16 list"

text \<open>The bytes of the signature \<open>EFI PART\<close>.\<close>

definition gpt_signature :: bytes where
  "gpt_signature = [0x45, 0x46, 0x49, 0x20, 0x50, 0x41, 0x52, 0x54]"

fun u16_pairs :: "bytes \<Rightarrow> u16 list" where
  "u16_pairs (a # b # bs) = from_le [a, b] # u16_pairs bs"
| "u16_pairs _ = []"

definition partition_entry_deserialize :: "bytes \<Rightarrow> gpt_partition_entry option" where
  "partition_entry_deserialize buf =
    (if length buf < 128 then None
     else do {
       type_guid \<leftarrow> get_slice buf 0 16;
       unique_guid \<leftarrow> get_slice buf 16 32;
       start_lba \<leftarrow> get_le 8 buf 32;
       end_lba \<leftarrow> get_le 8 buf 40;
       attrs \<leftarrow> get_le 8 buf 48;
       name \<leftarrow> get_slice buf 56 128;
       Some \<lparr>partition_type_guid = type_guid, unique_partition_guid = unique_guid, starting_lba = start_lba,
             ending_lba = end_lba, attributes = attrs, partition_name = u16_pairs name\<rparr>
     })"

definition is_used :: "gpt_partition_entry \<Rightarrow> bool" where
  "is_used e \<longleftrightarrow> partition_type_guid e \<noteq> replicate 16 0"

text \<open>The header bytes the checksum covers: the stored checksum counts as zero.\<close>

definition crc_input :: "bytes \<Rightarrow> u32 \<Rightarrow> bytes" where
  "crc_input buf hsize = splice 16 (replicate 4 0) (take (unat hsize) buf)"

definition gpt_header_deserialize :: "bytes \<Rightarrow> gpt_header option" where
  "gpt_header_deserialize buf =
    (if length buf < 92 then None
     else if take 8 buf \<noteq> gpt_signature then None
     else do {
       sig \<leftarrow> get_slice buf 0 8;
       rv \<leftarrow> get_le 4 buf 8;
       hsize \<leftarrow> get_le 4 buf 12;
       if hsize < 92 \<or> unat hsize > length buf then None
       else do {
         stored_crc32 \<leftarrow> get_le 4 buf 16;
         resv \<leftarrow> get_le 4 buf 20;
         cur_lba \<leftarrow> get_le 8 buf 24;
         bak_lba \<leftarrow> get_le 8 buf 32;
         first_lba \<leftarrow> get_le 8 buf 40;
         last_lba \<leftarrow> get_le 8 buf 48;
         guid \<leftarrow> get_slice buf 56 72;
         entry_lba \<leftarrow> get_le 8 buf 72;
         num_entries \<leftarrow> get_le 4 buf 80;
         entry_size \<leftarrow> get_le 4 buf 84;
         array_crc32 \<leftarrow> get_le 4 buf 88;
         if crc32 (crc_input buf hsize) \<noteq> stored_crc32 then None
         else Some \<lparr>signature = sig, rev_number = rv, header_size = hsize, header_crc32 = stored_crc32,
                    reserved = resv, current_lba = cur_lba, backup_lba = bak_lba, first_usable_lba = first_lba,
                    last_usable_lba = last_lba, disk_guid = guid, partition_entry_lba = entry_lba,
                    num_partition_entries = num_entries, size_of_partition_entry = entry_size,
                    partition_entry_array_crc32 = array_crc32\<rparr>
       }
     })"

definition get_header :: "'d block_ops \<Rightarrow> 'd \<Rightarrow> 'd \<times> (block_error fault, gpt_header) result" where
  "get_header ops d =
    (let bs = block_size ops d
     in sbind (bd_seek ops d (Start bs)) (\<lambda>d _.
        sbind (read_exact ops d (unat bs)) (\<lambda>d buf.
        (d, ok_or (Fail InvalidGPT) (gpt_header_deserialize buf)))))"

text \<open>The source returns an option; \<open>Fail ()\<close> is its \<open>None\<close>.\<close>

definition get_partition_entries ::
  "gpt_header \<Rightarrow> 'd block_ops \<Rightarrow> 'd \<Rightarrow> 'd \<times> (unit fault, gpt_partition_entry list) result" where
  "get_partition_entries h ops d =
    (let entry_size = unat (size_of_partition_entry h);
         count = unat (num_partition_entries h)
     in sbind (apsnd (map_fail (\<lambda>_. ())) (bd_seek ops d (Start (partition_entry_lba h * block_size ops d)))) (\<lambda>d _.
        sbind (apsnd (map_fail (\<lambda>_. ())) (read_exact ops d (count * entry_size))) (\<lambda>d buf.
        (d, Inr (List.map_filter (\<lambda>i. partition_entry_deserialize (take entry_size (drop (i * entry_size) buf))) [0..<count])))))"

section \<open>The checksum\<close>

lemma crc_bit_inj: "crc_bit c = crc_bit d \<Longrightarrow> c = d"
proof -
  assume eq: "crc_bit c = crc_bit d"
  have low: "(x AND 1 \<noteq> 0) = bit x 0" for x :: u32
    by (simp add: and_one_eq bit_0 odd_iff_mod_2_eq_one)
  have top: "bit (crc_bit x) 31 \<longleftrightarrow> bit x 0" for x
  proof -
    have "bit crc_poly 31" by (simp add: crc_poly_def bit_numeral_rec)
    moreover have "\<not> bit (drop_bit 1 x) 31" using bit_imp_le_length [of x 32] by (auto simp: bit_drop_bit_eq)
    ultimately show ?thesis by (simp add: crc_bit_def low bit_xor_iff)
  qed
  have b0: "bit c 0 = bit d 0" using eq top by metis
  have dr: "drop_bit 1 c = drop_bit 1 d"
  proof (cases "bit c 0")
    case True
    then have "drop_bit 1 c XOR crc_poly = drop_bit 1 d XOR crc_poly" using eq b0 by (simp add: crc_bit_def low)
    then have "(drop_bit 1 c XOR crc_poly) XOR crc_poly = (drop_bit 1 d XOR crc_poly) XOR crc_poly" by (rule arg_cong)
    then show ?thesis by (simp add: xor.assoc)
  next
    case False
    then show ?thesis using eq b0 by (simp add: crc_bit_def low)
  qed
  show "c = d"
  proof (rule bit_word_eqI)
    fix n
    show "bit c n = bit d n"
    proof (cases n)
      case (Suc m)
      have "bit (drop_bit 1 c) m = bit (drop_bit 1 d) m" using dr by simp
      then show ?thesis using Suc by (simp add: bit_drop_bit_eq)
    qed (simp add: b0)
  qed
qed

lemma crc_byte_inj: "crc_byte c x = crc_byte d y \<Longrightarrow> c XOR ucast x = d XOR (ucast y :: u32)"
proof -
  have "inj crc_bit" by (rule injI) (rule crc_bit_inj)
  then have "inj (crc_bit ^^ 8)" by (rule inj_fn)
  then show "crc_byte c x = crc_byte d y \<Longrightarrow> c XOR ucast x = d XOR (ucast y :: u32)"
    unfolding crc_byte_def by (rule injD)
qed

lemma xor_cancel_right: "c XOR x = d XOR x \<longleftrightarrow> c = (d :: 'a::len word)"
  by (metis xor.assoc xor_self_eq xor.right_neutral)

lemma xor_cancel_left: "c XOR x = c XOR y \<longleftrightarrow> x = (y :: 'a::len word)"
  by (simp only: xor.commute [of c] xor_cancel_right)

lemma foldl_crc_inj: "foldl crc_byte c bs = foldl crc_byte d bs \<longleftrightarrow> c = d"
  by (induction bs arbitrary: c d) (auto dest: crc_byte_inj simp: xor_cancel_right)

lemma crc32_one_byte:
  assumes "i < length bs" "b \<noteq> bs ! i"
  shows "crc32 (bs[i := b]) \<noteq> crc32 bs"
proof -
  define c where "c = foldl crc_byte 0xFFFFFFFF (take i bs)"
  have split: "foldl crc_byte 0xFFFFFFFF (bs[i := x]) = foldl crc_byte (crc_byte c x) (drop (Suc i) bs)" for x
    using assms(1) by (simp add: upd_conv_take_nth_drop c_def)
  have "crc_byte c b \<noteq> crc_byte c (bs ! i)"
  proof
    assume "crc_byte c b = crc_byte c (bs ! i)"
    then have eq: "(ucast b :: u32) = ucast (bs ! i)" by (auto dest: crc_byte_inj simp: xor_cancel_left)
    have "b = bs ! i"
    proof (rule bit_word_eqI)
      fix k :: nat assume "k < LENGTH(8)"
      then show "bit b k = bit (bs ! i) k" using arg_cong [OF eq, of "\<lambda>w. bit w k"] by (simp add: bit_unsigned_iff)
    qed
    with assms(2) show False ..
  qed
  then have "foldl crc_byte 0xFFFFFFFF (bs[i := b]) \<noteq> foldl crc_byte 0xFFFFFFFF (bs[i := bs ! i])"
    unfolding split foldl_crc_inj .
  then show ?thesis by (simp add: crc32_def)
qed

lemma take_drop_update: "i < off \<or> off + n \<le> i \<Longrightarrow> take n (drop off (buf[i := b])) = take n (drop off buf)"
  by (rule nth_equalityI) auto

lemma gpt_header_deserialize_iff:
  "gpt_header_deserialize buf = Some h \<longleftrightarrow>
    92 \<le> length buf \<and> take 8 buf = gpt_signature \<and> 92 \<le> (le_at 4 buf 12 :: u32)
    \<and> unat (le_at 4 buf 12 :: u32) \<le> length buf \<and> crc32 (crc_input buf (le_at 4 buf 12)) = le_at 4 buf 16
    \<and> h = \<lparr>signature = gpt_signature, rev_number = le_at 4 buf 8, header_size = le_at 4 buf 12,
           header_crc32 = le_at 4 buf 16, reserved = le_at 4 buf 20, current_lba = le_at 8 buf 24,
           backup_lba = le_at 8 buf 32, first_usable_lba = le_at 8 buf 40, last_usable_lba = le_at 8 buf 48,
           disk_guid = take 16 (drop 56 buf), partition_entry_lba = le_at 8 buf 72,
           num_partition_entries = le_at 4 buf 80, size_of_partition_entry = le_at 4 buf 84,
           partition_entry_array_crc32 = le_at 4 buf 88\<rparr>" (is "?l \<longleftrightarrow> ?r")
proof (cases "92 \<le> length buf \<and> take 8 buf = gpt_signature")
  case False
  then show ?thesis by (auto simp: gpt_header_deserialize_def)
next
  case True
  then have sl: "get_slice buf 0 8 = Some gpt_signature" "get_slice buf 56 72 = Some (take 16 (drop 56 buf))"
    by (simp_all add: get_slice_def)
  have le: "get_le n buf off = Some (le_at n buf off :: 'a::len word)" if "off + n \<le> 92" for n off
    using that True by (simp add: get_le_Some)
  show ?thesis using True unfolding gpt_header_deserialize_def by (auto simp: sl le not_less)
qed

lemma crc_input_update_crc:
  assumes "20 \<le> unat hs" "unat hs \<le> length buf" "16 \<le> i" "i < 20"
  shows "crc_input (buf[i := b]) hs = crc_input buf hs"
  unfolding crc_input_def using assms by (intro nth_equalityI) (auto simp: nth_splice nth_list_update)

lemma crc_input_update:
  assumes "20 \<le> unat hs" "unat hs \<le> length buf" "i < unat hs" "i \<notin> {16..<20}"
  shows "crc_input (buf[i := b]) hs = (crc_input buf hs)[i := b]"
  unfolding crc_input_def using assms by (intro nth_equalityI) (auto simp: nth_splice nth_list_update)

text \<open>
  C22: The header checksum detects every corruption of a single byte of the GPT header, the four
  bytes of its size field excepted: if a buffer is accepted and one byte of the part the header
  covers is replaced by another value, the buffer is rejected.
\<close>

theorem gpt_detects_corruption:
  assumes "gpt_header_deserialize buf = Some h" "i < unat (header_size h)" "i \<notin> {12..<16}" "b \<noteq> buf ! i"
  shows "gpt_header_deserialize (buf[i := b]) = None"
proof (rule ccontr)
  assume "gpt_header_deserialize (buf[i := b]) \<noteq> None"
  then obtain h' where h': "gpt_header_deserialize (buf[i := b]) = Some h'" by auto
  define hs :: u32 where "hs = le_at 4 buf 12"
  note H = assms(1) [unfolded gpt_header_deserialize_iff, folded hs_def]
    and H' = h' [unfolded gpt_header_deserialize_iff]
  have "header_size h = hs" using H by simp
  then have len: "unat hs \<le> length buf" "i < unat hs" "i < length buf" using H assms(2) by simp_all
  have "92 \<le> unat hs" using H by (simp add: word_le_nat_alt)
  then have hs20: "20 \<le> unat hs" by simp
  have hs': "le_at 4 (buf[i := b]) 12 = hs"
    unfolding hs_def using assms(3) by (intro le_at_cong take_drop_update) auto
  have crc: "crc32 (crc_input buf hs) = le_at 4 buf 16" "crc32 (crc_input (buf[i := b]) hs) = le_at 4 (buf[i := b]) 16"
    using H H' by (simp_all add: hs')
  consider "i < 8" | "16 \<le> i \<and> i < 20" | "8 \<le> i \<and> i \<notin> {16..<20}" by fastforce
  then show False
  proof cases
    case 1
    have "take 8 (buf[i := b]) ! i = take 8 buf ! i" using H H' by simp
    with 1 len assms(4) show False by simp
  next
    case 2
    then have "(le_at 4 (buf[i := b]) 16 :: u32) = le_at 4 buf 16"
      using crc crc_input_update_crc [OF hs20 len(1)] by metis
    moreover have "length (take 4 (drop 16 (buf[i := b]))) = 4" "length (take 4 (drop 16 buf)) = 4"
      using hs20 len by simp_all
    ultimately have "take 4 (drop 16 (buf[i := b])) = take 4 (drop 16 buf)"
      unfolding le_at_def by (intro from_le_inj [where 'a = 32]) simp_all
    then have "take 4 (drop 16 (buf[i := b])) ! (i - 16) = take 4 (drop 16 buf) ! (i - 16)" by simp
    moreover obtain j where "i = 16 + j" "j < 4" using 2 le_Suc_ex by fastforce
    ultimately show False using len assms(4) by simp
  next
    case 3
    have "crc_input (buf[i := b]) hs = (crc_input buf hs)[i := b]"
      by (rule crc_input_update [OF hs20 len(1)]) (use 3 len in auto)
    moreover have "(le_at 4 (buf[i := b]) 16 :: u32) = le_at 4 buf 16"
      using 3 by (intro le_at_cong take_drop_update) auto
    moreover have "b \<noteq> crc_input buf hs ! i" "i < length (crc_input buf hs)"
      using 3 assms(4) hs20 len unfolding crc_input_def by (auto simp: nth_splice)
    ultimately show False using crc32_one_byte crc by metis
  qed
qed

text \<open>A header with the right checksum, whatever the checksum is.\<close>

definition sample_gpt :: bytes where
  "sample_gpt =
    (let front = gpt_signature @ [0, 0, 1, 0] @ [92, 0, 0, 0]; back = replicate 72 0
     in front @ to_le 4 (crc32 (front @ replicate 4 0 @ back)) @ back)"

lemma sample_gpt_ok: "\<exists>h. gpt_header_deserialize sample_gpt = Some h \<and> header_size h = 92 \<and> sample_gpt ! 24 = 0"
proof -
  have hs: "le_at 4 sample_gpt 12 = (92 :: u32)"
    by (simp add: le_at_def sample_gpt_def gpt_signature_def Let_def)
  have crc: "crc_input sample_gpt 92 = gpt_signature @ [0, 0, 1, 0] @ [92, 0, 0, 0] @ replicate 4 0 @ replicate 72 0"
    by (simp add: crc_input_def sample_gpt_def gpt_signature_def Let_def splice_def)
  have "le_at 4 sample_gpt 16 = crc32 (gpt_signature @ [0, 0, 1, 0] @ [92, 0, 0, 0] @ replicate 4 0 @ replicate 72 0)"
    by (simp add: le_at_def sample_gpt_def gpt_signature_def Let_def)
  moreover have "length sample_gpt = 92" "take 8 sample_gpt = gpt_signature" "sample_gpt ! 24 = 0"
    by (simp_all add: sample_gpt_def gpt_signature_def Let_def nth_append)
  ultimately show ?thesis by (simp add: gpt_header_deserialize_iff hs crc)
qed

theorem gpt_detects_corruption_witness:
  "(\<exists>h. gpt_header_deserialize sample_gpt = Some h) \<and> gpt_header_deserialize (sample_gpt[24 := 7]) = None"
proof -
  from sample_gpt_ok obtain h where h: "gpt_header_deserialize sample_gpt = Some h" "header_size h = 92" "sample_gpt ! 24 = 0"
    by blast
  have "gpt_header_deserialize (sample_gpt[24 := 7]) = None"
    by (rule gpt_detects_corruption [OF h(1)]) (simp_all add: h)
  with h show ?thesis by blast
qed

section \<open>The contract of a block device\<close>

text \<open>Part of the contents of a device, and the contents after a write.\<close>

definition span :: "(nat \<Rightarrow> 'a) \<Rightarrow> nat \<Rightarrow> nat \<Rightarrow> 'a list" where
  "span c p n = map c [p..<p + n]"

definition overwrite :: "(nat \<Rightarrow> 'a) \<Rightarrow> nat \<Rightarrow> 'a list \<Rightarrow> nat \<Rightarrow> 'a" where
  "overwrite c p bs = (\<lambda>i. if p \<le> i \<and> i < p + length bs then bs ! (i - p) else c i)"

lemma length_span [simp]: "length (span c p n) = n"
  by (simp add: span_def)

lemma nth_span [simp]: "i < n \<Longrightarrow> span c p n ! i = c (p + i)"
  by (simp add: span_def)

lemma span_add: "span c p (m + n) = span c p m @ span c (p + m) n"
  by (rule nth_equalityI) (auto simp: nth_append)

lemma take_drop_span: "a + m \<le> n \<Longrightarrow> take m (drop a (span c p n)) = span c (p + a) m"
  by (rule nth_equalityI) (auto simp: add.assoc)

lemma span_overwrite_same [simp]: "span (overwrite c p bs) p (length bs) = bs"
  by (rule nth_equalityI) (auto simp: overwrite_def)

lemma span_overwrite_other:
  "q + n \<le> p \<or> p + length bs \<le> q \<Longrightarrow> span (overwrite c p bs) q n = span c q n"
  by (rule nth_equalityI) (auto simp: overwrite_def)

lemma overwrite_span [simp]: "overwrite c p (span c p n) = c"
  by (rule ext) (auto simp: overwrite_def)

lemma overwrite_nil [simp]: "overwrite c p [] = c"
  by (rule ext) (auto simp: overwrite_def)

lemma overwrite_append: "overwrite (overwrite c p as) (p + length as) bs = overwrite c p (as @ bs)"
  by (rule ext) (auto simp: overwrite_def nth_append)

lemma overwrite_splice:
  assumes "a + length bs \<le> n"
  shows "overwrite c p (splice a bs (span c p n)) = overwrite c (p + a) bs"
  using assms by (intro ext) (auto simp: overwrite_def nth_splice)

locale block_device =
  fixes ops :: "'d block_ops" and ready :: "nat \<Rightarrow> 'd \<Rightarrow> bool" and cost :: "nat \<Rightarrow> nat"
    and content :: "'d \<Rightarrow> nat \<Rightarrow> u8" and position :: "'d \<Rightarrow> nat" and capacity :: nat
  assumes ready_mono: "ready b d \<Longrightarrow> b' \<le> b \<Longrightarrow> ready b' d"
    and seek_start: "ready b d \<Longrightarrow> \<exists>d'. bd_seek ops d (Start p) = (d', Inr p) \<and> ready b d'
      \<and> content d' = content d \<and> position d' = unat p"
    and read_span: "ready (b + cost n) d \<Longrightarrow> position d + n \<le> capacity \<Longrightarrow>
      \<exists>d'. bd_read ops d n = (d', Inr (span (content d) (position d) n)) \<and> ready b d'
        \<and> content d' = content d \<and> position d' = position d + n"
    and write_span: "ready (b + cost (length bs)) d \<Longrightarrow> position d + length bs \<le> capacity \<Longrightarrow>
      \<exists>d'. bd_write ops d bs = (d', Inr (length bs)) \<and> ready b d'
        \<and> content d' = overwrite (content d) (position d) bs \<and> position d' = position d + length bs"
    and block_bytes: "ready b d \<Longrightarrow> block_size ops d = 512"
    and capacity_lt: "ready b d \<Longrightarrow> capacity < 2 ^ 64"
begin

lemma seek_read:
  assumes "ready (b + cost n) d" "unat p + n \<le> capacity"
  obtains d1 d2 where "bd_seek ops d (Start p) = (d1, Inr p)" "bd_read ops d1 n = (d2, Inr (span (content d) (unat p) n))"
    "ready b d2" "content d2 = content d" "position d2 = unat p + n"
proof -
  from seek_start [OF assms(1), of p] obtain d1 where d1: "bd_seek ops d (Start p) = (d1, Inr p)"
      "ready (b + cost n) d1" "content d1 = content d" "position d1 = unat p" by (elim exE conjE)
  from read_span [OF d1(2), unfolded d1(3,4), OF assms(2)] obtain d2 where "bd_read ops d1 n = (d2, Inr (span (content d) (unat p) n))"
      "ready b d2" "content d2 = content d" "position d2 = unat p + n" by (elim exE conjE)
  with d1(1) show ?thesis by (rule that)
qed

lemma seek_write:
  assumes "ready (b + cost (length bs)) d" "unat p + length bs \<le> capacity"
  obtains d1 d2 where "bd_seek ops d (Start p) = (d1, Inr p)" "bd_write ops d1 bs = (d2, Inr (length bs))"
    "ready b d2" "content d2 = overwrite (content d) (unat p) bs" "position d2 = unat p + length bs"
proof -
  from seek_start [OF assms(1), of p] obtain d1 where d1: "bd_seek ops d (Start p) = (d1, Inr p)"
      "ready (b + cost (length bs)) d1" "content d1 = content d" "position d1 = unat p" by (elim exE conjE)
  from write_span [OF d1(2), unfolded d1(3,4), OF assms(2)] obtain d2 where "bd_write ops d1 bs = (d2, Inr (length bs))"
      "ready b d2" "content d2 = overwrite (content d) (unat p) bs" "position d2 = unat p + length bs"
    by (elim exE conjE)
  with d1(1) show ?thesis by (rule that)
qed

lemma read_exact_span:
  assumes "ready (b + cost n) d" "position d + n \<le> capacity"
  shows "\<exists>d'. read_exact ops d n = (d', Inr (span (content d) (position d) n)) \<and> ready b d'
    \<and> content d' = content d \<and> position d' = position d + n"
proof (cases "n = 0")
  case True
  then show ?thesis using ready_mono [OF assms(1), of b]
    by (simp add: read_exact_def read_exact_loop.simps span_def)
next
  case False
  from read_span [OF assms] obtain d' where d': "bd_read ops d n = (d', Inr (span (content d) (position d) n))"
    "ready b d'" "content d' = content d" "position d' = position d + n" by (elim exE conjE)
  have full: "read_exact_loop ops d' n (span (content d) (position d) n) = (d', Inr (span (content d) (position d) n))"
    by (simp add: read_exact_loop.simps)
  have "span (content d) (position d) n \<noteq> []" using False length_span by (metis list.size(3))
  then have "read_exact_loop ops d n [] = (d', Inr (span (content d) (position d) n))"
    using False d'(1) full by (subst read_exact_loop.simps) simp
  with d' show ?thesis by (simp add: read_exact_def)
qed

lemma get_header_block_one:
  assumes "ready (b + cost 512) d" "1024 \<le> capacity"
  shows "\<exists>d'. get_header ops d = (d', ok_or (Fail InvalidGPT) (gpt_header_deserialize (span (content d) 512 512)))
    \<and> ready b d' \<and> content d' = content d"
proof -
  from seek_start [OF assms(1), of 512] obtain d1 where d1: "bd_seek ops d (Start 512) = (d1, Inr 512)"
      "ready (b + cost 512) d1" "content d1 = content d" "position d1 = 512" by auto
  have "position d1 + 512 \<le> capacity" using assms(2) d1(4) by simp
  from read_exact_span [OF d1(2) this] obtain d2 where "read_exact ops d1 512 = (d2, Inr (span (content d) 512 512))"
      "ready b d2" "content d2 = content d" unfolding d1(3,4) by (elim exE conjE)
  then show ?thesis using d1(1) block_bytes [OF assms(1)] by (simp add: get_header_def Let_def)
qed

lemma get_partition_entries_table:
  defines "bytes_of \<equiv> \<lambda>h. unat (num_partition_entries h) * unat (size_of_partition_entry h)"
  assumes "ready (b + cost (bytes_of h)) d" "unat (partition_entry_lba h) * 512 + bytes_of h \<le> capacity"
  shows "\<exists>d'. get_partition_entries h ops d = (d', Inr (List.map_filter (\<lambda>i. partition_entry_deserialize
      (span (content d) (unat (partition_entry_lba h) * 512 + i * unat (size_of_partition_entry h)) (unat (size_of_partition_entry h))))
      [0..<unat (num_partition_entries h)])) \<and> ready b d' \<and> content d' = content d"
proof -
  let ?p = "partition_entry_lba h * 512"
  let ?n = "unat (num_partition_entries h)" and ?s = "unat (size_of_partition_entry h)"
  have p: "unat ?p = unat (partition_entry_lba h) * 512" using assms(3) capacity_lt [OF assms(2)] by (simp add: unat_word_ariths)
  from seek_start [OF assms(2), of ?p] obtain d1 where d1: "bd_seek ops d (Start ?p) = (d1, Inr ?p)"
      "ready (b + cost (bytes_of h)) d1" "content d1 = content d" "position d1 = unat ?p" by (elim exE conjE)
  have "position d1 + bytes_of h \<le> capacity" using assms(3) d1(4) p by simp
  from read_exact_span [OF d1(2) this] obtain d2 where
      d2: "read_exact ops d1 (bytes_of h) = (d2, Inr (span (content d) (unat ?p) (bytes_of h)))"
      "ready b d2" "content d2 = content d" unfolding d1(3,4) by (elim exE conjE)
  have sp: "take ?s (drop (i * ?s) (span (content d) (unat ?p) (bytes_of h))) = span (content d) (unat ?p + i * ?s) ?s"
    if "i < ?n" for i
  proof (rule take_drop_span)
    have "Suc i * ?s \<le> ?n * ?s" using that by (intro mult_right_mono) auto
    then show "i * ?s + ?s \<le> bytes_of h" by (simp add: bytes_of_def)
  qed
  have mf: "List.map_filter (\<lambda>i. partition_entry_deserialize (take ?s (drop (i * ?s) (span (content d) (unat ?p) (bytes_of h))))) [0..<?n]
      = List.map_filter (\<lambda>i. partition_entry_deserialize (span (content d) (unat ?p + i * ?s) ?s)) [0..<?n]"
    unfolding List.map_filter_def by (intro arg_cong2 [where f = map] filter_cong map_cong) (auto simp: sp)
  show ?thesis using d1(1) d2 block_bytes [OF assms(2)] mf p
    by (simp add: get_partition_entries_def Let_def bytes_of_def)
qed

end

lemma block_device_driver:
  assumes "block_device ops ready cost content position capacity"
  shows "block_device (driver_ops ops) (\<lambda>b d. ready b (device d)) cost (\<lambda>d. content (device d)) (\<lambda>d. position (device d)) capacity"
proof
  note dev = assms [THEN block_device.seek_start] assms [THEN block_device.read_span] assms [THEN block_device.write_span]
    assms [THEN block_device.ready_mono] assms [THEN block_device.block_bytes] assms [THEN block_device.capacity_lt]
  fix b b' n p d and bs :: bytes
  show "ready b (device d) \<Longrightarrow> b' \<le> b \<Longrightarrow> ready b' (device d)" by (rule dev(4))
  show "ready b (device d) \<Longrightarrow> block_size (driver_ops ops) d = 512" by (simp add: driver_ops_def dev(5))
  show "ready b (device d) \<Longrightarrow> capacity < 2 ^ 64" by (rule dev(6))
  {
    assume "ready b (device d)"
    from dev(1) [OF this, of p] obtain d' where "bd_seek ops (device d) (Start p) = (d', Inr p)" "ready b d'"
      "content d' = content (device d)" "position d' = unat p" by (elim exE conjE)
    then show "\<exists>d'. bd_seek (driver_ops ops) d (Start p) = (d', Inr p) \<and> ready b (device d')
      \<and> content (device d') = content (device d) \<and> position (device d') = unat p"
      by (intro exI [of _ "Driver d'"]) (simp add: driver_ops_def)
  }
  {
    assume "ready (b + cost n) (device d)" "position (device d) + n \<le> capacity"
    from dev(2) [OF this] obtain d' where "bd_read ops (device d) n = (d', Inr (span (content (device d)) (position (device d)) n))"
      "ready b d'" "content d' = content (device d)" "position d' = position (device d) + n" by (elim exE conjE)
    then show "\<exists>d'. bd_read (driver_ops ops) d n = (d', Inr (span (content (device d)) (position (device d)) n))
      \<and> ready b (device d') \<and> content (device d') = content (device d) \<and> position (device d') = position (device d) + n"
      by (intro exI [of _ "Driver d'"]) (simp add: driver_ops_def)
  }
  {
    assume "ready (b + cost (length bs)) (device d)" "position (device d) + length bs \<le> capacity"
    from dev(3) [OF this] obtain d' where "bd_write ops (device d) bs = (d', Inr (length bs))" "ready b d'"
      "content d' = overwrite (content (device d)) (position (device d)) bs"
      "position d' = position (device d) + length bs" by (elim exE conjE)
    then show "\<exists>d'. bd_write (driver_ops ops) d bs = (d', Inr (length bs)) \<and> ready b (device d')
      \<and> content (device d') = overwrite (content (device d)) (position (device d)) bs
      \<and> position (device d') = position (device d) + length bs"
      by (intro exI [of _ "Driver d'"]) (simp add: driver_ops_def)
  }
qed

end
