(* ===== verification/PageAlloc.thy ===== *)
theory PageAlloc
  imports Frame_Interface
begin

text \<open>
  The physical page allocator of \<open>zenos-kernel/src/memory/mod.rs\<close>: a linked list of bitmap
  nodes, one per memory region, in which a set bit is a free 4 KiB page.  The list of nodes is
  the \<open>next\<close> chain from \<open>head\<close>, newest node first.  Every operation runs under the allocator's
  spinlock, so the compare-and-exchange loops of the source succeed at their first attempt and
  are modelled as plain updates of the bitmap word.
\<close>

section \<open>Data\<close>

abbreviation PAGE_4K :: nat where "PAGE_4K \<equiv> 4096"
abbreviation PAGE_2M :: nat where "PAGE_2M \<equiv> 2097152"

definition HIGHER_HALF_BASE :: u64 where
  "HIGHER_HALF_BASE = 0xFFFF800000000000"

datatype page_size = Size4KiB | Size2MiB

datatype map_err = OutOfMemory | NotMapped | Uninitialized | InvalidAlignment

record bitmap_node =
  node_virt :: u64
  node_map :: "u64 list"
  base_phys :: u64
  region_size :: usize

type_synonym page_allocator = "bitmap_node list"

definition size_of_BitmapNode :: nat where
  "size_of_BitmapNode = 40"

section \<open>Initialisation\<close>

text \<open>
  One turn of the loop over the memory regions: the list built so far and the offset of the
  next free byte of bitmap storage.  The subtraction \<open>end_phys - aligned_start\<close> wraps.
\<close>

definition init_region ::
  "page_allocator \<times> usize \<Rightarrow> u64 \<times> usize \<Rightarrow> page_allocator \<times> usize" where
  "init_region st region =
    (let (head, storage_offset) = st;
         (start_phys, size) = region;
         aligned_start = (start_phys + 4096 - 1) AND NOT (4096 - 1);
         end_phys = start_phys + size;
         aligned_size = ((end_phys - aligned_start) div 4096) * 4096
     in if aligned_size < 4096 then st
        else
          let pages_in_region = unat (aligned_size div 4096);
              bitmap_words = (pages_in_region + 63) div 64;
              nv = HIGHER_HALF_BASE + storage_offset;
              words = replicate bitmap_words (- 1);
              last_word_bits = pages_in_region mod 64;
              words = (if last_word_bits \<noteq> 0
                       then words[bitmap_words - 1 := shl64 1 last_word_bits - 1]
                       else words)
          in (\<lparr>node_virt = nv, node_map = words, base_phys = aligned_start,
                region_size = aligned_size\<rparr> # head,
              storage_offset + of_nat (size_of_BitmapNode + bitmap_words * 8)))"

definition initialize :: "(u64 \<times> usize) list \<Rightarrow> page_allocator" where
  "initialize regions = fst (foldl init_region ([], 0) regions)"

section \<open>Allocation\<close>

definition page_step :: "page_size \<Rightarrow> nat" where
  "page_step sz = (case sz of Size4KiB \<Rightarrow> 1 | Size2MiB \<Rightarrow> PAGE_2M div PAGE_4K)"

definition node_pages :: "bitmap_node \<Rightarrow> nat" where
  "node_pages n = unat (region_size n) div PAGE_4K"

lemma node_pages_word [code]: "node_pages n = unat (region_size n div 4096)"
  by (simp add: node_pages_def unat_div)

definition in_node :: "u64 \<Rightarrow> bitmap_node \<Rightarrow> bool" where
  "in_node phys n \<longleftrightarrow> base_phys n \<le> phys \<and> phys < base_phys n + region_size n"

definition page_index :: "u64 \<Rightarrow> bitmap_node \<Rightarrow> nat" where
  "page_index phys n = unat ((phys - base_phys n) div 4096)"

text \<open>A request for one given 4 KiB page, in the node that holds the address.\<close>

definition claim_4k :: "u64 \<Rightarrow> bitmap_node \<Rightarrow> bitmap_node option" where
  "claim_4k phys n =
    (let page_num = page_index phys n;
         word_idx = page_num div 64;
         msk = shl64 1 (page_num mod 64)
     in if word_idx < length (node_map n) then
          (let val = node_map n ! word_idx
           in if val AND msk = 0 then None
              else Some (n\<lparr>node_map := (node_map n)[word_idx := val AND NOT msk]\<rparr>))
        else None)"

text \<open>A request for one given 2 MiB page: eight whole bitmap words.\<close>

definition claim_2m :: "u64 \<Rightarrow> bitmap_node \<Rightarrow> bitmap_node option" where
  "claim_2m phys n =
    (let step = page_step Size2MiB;
         page_num = page_index phys n
     in if page_num mod step \<noteq> 0 then None
        else
          let word_idx = page_num div 64;
              words_needed = step div 64
          in if word_idx + words_needed > length (node_map n) then None
             else if \<exists>i\<in>set [0..<words_needed]. node_map n ! (word_idx + i) \<noteq> - 1 then None
             else Some (n\<lparr>node_map :=
               foldl (\<lambda>m i. m[word_idx + i := 0]) (node_map n) [0..<words_needed]\<rparr>))"

fun alloc_specific :: "page_size \<Rightarrow> u64 \<Rightarrow> page_allocator \<Rightarrow> page_allocator option" where
  "alloc_specific sz phys [] = None"
| "alloc_specific sz phys (n # ns) =
    (if in_node phys n
     then map_option (\<lambda>n'. n' # ns)
            (case sz of Size4KiB \<Rightarrow> claim_4k phys n | Size2MiB \<Rightarrow> claim_2m phys n)
     else map_option (\<lambda>ns'. n # ns') (alloc_specific sz phys ns))"

text \<open>
  The search for a free page, over the bits of one word.  \<open>64 - step\<close> is a \<open>usize\<close> subtraction
  and wraps for 2 MiB pages.  The result is the page number and the mask of the bits to claim.
\<close>

definition align_up_bit :: "nat \<Rightarrow> nat \<Rightarrow> nat" where
  "align_up_bit global_bit step =
    unat ((of_nat (global_bit + step - 1) :: usize) AND NOT (of_nat (step - 1)))"

definition bit_mask :: "nat \<Rightarrow> nat \<Rightarrow> nat \<Rightarrow> nat \<Rightarrow> (nat \<times> u64) option" where
  "bit_mask step pages word_idx bit_pos =
    (if step = 1 then Some (word_idx * 64 + bit_pos, shl64 1 bit_pos)
     else
       let aligned_bit = align_up_bit (word_idx * 64 + bit_pos) step
       in if aligned_bit \<ge> pages then None
          else
            let aligned_word = aligned_bit div 64;
                local_bit = aligned_bit mod 64
            in if aligned_word \<noteq> word_idx \<or> local_bit + step > 64 then None
               else Some (aligned_bit, shl64 (shl64 1 step - 1) local_bit))"

lemma page_step_simps [code]:
  "page_step Size4KiB = 1" "page_step Size2MiB = 512"
  by (simp_all add: page_step_def)

lemma page_step_pos [simp]: "0 < page_step sz"
  by (cases sz) (simp_all add: page_step_def)

function find_bit :: "page_size \<Rightarrow> nat \<Rightarrow> nat \<Rightarrow> u64 \<Rightarrow> nat \<Rightarrow> (nat \<times> u64) option" where
  "find_bit sz pages word_idx val bit_pos =
    (if bit_pos \<le> unat (64 - of_nat (page_step sz) :: usize)
        \<and> word_idx * 64 + bit_pos < pages
     then (case bit_mask (page_step sz) pages word_idx bit_pos of
             None \<Rightarrow> None
           | Some (page_num, msk) \<Rightarrow>
               (if val AND msk = msk then Some (page_num, msk)
                else find_bit sz pages word_idx val (bit_pos + page_step sz)))
     else None)"
  by pat_completeness auto
termination
  by (relation "measure (\<lambda>(sz, pages, word_idx, val, bit_pos). pages - (word_idx * 64 + bit_pos))")
    (auto intro: diff_less_mono2)

declare find_bit.simps [simp del]

fun scan_words :: "page_size \<Rightarrow> nat \<Rightarrow> nat \<Rightarrow> u64 list \<Rightarrow> (nat \<times> nat \<times> u64) option" where
  "scan_words sz pages word_idx [] = None"
| "scan_words sz pages word_idx (val # vs) =
    (case (if val \<noteq> 0 then find_bit sz pages word_idx val 0 else None) of
       None \<Rightarrow> scan_words sz pages (Suc word_idx) vs
     | Some (page_num, msk) \<Rightarrow> Some (word_idx, page_num, msk))"

fun alloc_any :: "page_size \<Rightarrow> page_allocator \<Rightarrow> (page_allocator \<times> u64) option" where
  "alloc_any sz [] = None"
| "alloc_any sz (n # ns) =
    (case scan_words sz (node_pages n) 0 (node_map n) of
       None \<Rightarrow> map_option (\<lambda>(ns', p). (n # ns', p)) (alloc_any sz ns)
     | Some (word_idx, page_num, msk) \<Rightarrow>
         Some (n\<lparr>node_map := (node_map n)[word_idx := node_map n ! word_idx AND NOT msk]\<rparr> # ns,
               base_phys n + of_nat (page_num * PAGE_4K)))"

definition page_alloc :: "page_allocator \<Rightarrow> page_size \<Rightarrow> u64 option \<Rightarrow> page_allocator \<times> u64 option" where
  "page_alloc a sz specific_addr =
    (case specific_addr of
       Some phys \<Rightarrow>
         (if phys mod (case sz of Size4KiB \<Rightarrow> 4096 | Size2MiB \<Rightarrow> 0x200000) \<noteq> 0
          then (a, None)
          else (case alloc_specific sz phys a of
                  None \<Rightarrow> (a, None)
                | Some a' \<Rightarrow> (a', Some phys)))
     | None \<Rightarrow>
         (case alloc_any sz a of
            None \<Rightarrow> (a, None)
          | Some (a', p) \<Rightarrow> (a', Some p)))"

lemma page_aligned_nat [simp]: "phys mod 4096 = 0 \<longleftrightarrow> unat phys mod PAGE_4K = 0" for phys :: u64
  by (simp add: word_unat_eq_iff unat_mod)

section \<open>Deallocation\<close>

definition release :: "page_size \<Rightarrow> u64 \<Rightarrow> bitmap_node \<Rightarrow> bitmap_node option" where
  "release sz phys n =
    (let step = page_step sz;
         page_num = page_index phys n;
         aligned_page = unat ((of_nat page_num :: usize) AND NOT (of_nat (step - 1)));
         word_idx = aligned_page div 64;
         bit_start = aligned_page mod 64
     in if word_idx < length (node_map n) then
          (let msk = (if step = 1 then shl64 1 bit_start
                       else shl64 (shl64 1 step - 1) bit_start)
           in Some (n\<lparr>node_map := (node_map n)[word_idx := node_map n ! word_idx OR msk]\<rparr>))
        else None)"

fun page_dealloc :: "page_allocator \<Rightarrow> u64 \<Rightarrow> page_size \<Rightarrow> (map_err, page_allocator) result" where
  "page_dealloc [] phys sz = Inl NotMapped"
| "page_dealloc (n # ns) phys sz =
    (if in_node phys n
     then (case release sz phys n of None \<Rightarrow> Inl NotMapped | Some n' \<Rightarrow> Inr (n' # ns))
     else rbind (page_dealloc ns phys sz) (\<lambda>ns'. Inr (n # ns')))"

section \<open>Statistics\<close>

definition count_ones :: "u64 \<Rightarrow> nat" where
  "count_ones v = length (filter (bit v) [0..<64])"

fun word_stats :: "nat \<Rightarrow> nat \<Rightarrow> nat \<Rightarrow> u64 list \<Rightarrow> nat \<times> nat" where
  "word_stats pages_in_region words word_idx [] = (0, 0)"
| "word_stats pages_in_region words word_idx (val # vs) =
    (let bits_in_this_word = (if word_idx = words - 1
                              then min 64 (pages_in_region - word_idx * 64) else 64);
         (free, total) = word_stats pages_in_region words (Suc word_idx) vs
     in (free + count_ones (val AND (shl64 1 (bits_in_this_word - 1) - 1)),
         total + bits_in_this_word))"

fun get_stats :: "page_allocator \<Rightarrow> nat \<times> nat" where
  "get_stats [] = (0, 0)"
| "get_stats (n # ns) =
    (let (f, t) = word_stats (node_pages n) (length (node_map n)) 0 (node_map n);
         (fs, ts) = get_stats ns
     in (f + fs, t + ts))"

section \<open>Pages and frames\<close>

text \<open>
  Page \<open>p\<close> of a node is free when it lies in the region and its bit is set.  A frame is the
  physical address of a page; \<open>pa_free\<close> and \<open>pa_frames\<close> are the free and the managed frames of
  the whole allocator, the abstract state the operations are specified on.
\<close>

definition page_free :: "bitmap_node \<Rightarrow> nat \<Rightarrow> bool" where
  "page_free n p \<longleftrightarrow> p < node_pages n \<and> bit (node_map n ! (p div 64)) (p mod 64)"

definition page_addr :: "bitmap_node \<Rightarrow> nat \<Rightarrow> u64" where
  "page_addr n p = base_phys n + of_nat (p * PAGE_4K)"

definition node_free :: "bitmap_node \<Rightarrow> u64 set" where
  "node_free n = page_addr n ` {p. page_free n p}"

definition node_frames :: "bitmap_node \<Rightarrow> u64 set" where
  "node_frames n = page_addr n ` {..<node_pages n}"

definition pa_free :: "page_allocator \<Rightarrow> u64 set" where
  "pa_free a = \<Union> (node_free ` set a)"

definition pa_frames :: "page_allocator \<Rightarrow> u64 set" where
  "pa_frames a = \<Union> (node_frames ` set a)"

text \<open>The representation invariant.\<close>

definition node_ok :: "bitmap_node \<Rightarrow> bool" where
  "node_ok n \<longleftrightarrow>
     unat (base_phys n) mod PAGE_4K = 0
     \<and> unat (region_size n) mod PAGE_4K = 0
     \<and> unat (base_phys n) + unat (region_size n) < 2 ^ 64
     \<and> length (node_map n) = (node_pages n + 63) div 64
     \<and> (\<forall>p. node_pages n \<le> p \<longrightarrow> p div 64 < length (node_map n) \<longrightarrow>
              \<not> bit (node_map n ! (p div 64)) (p mod 64))"

definition apart :: "bitmap_node \<Rightarrow> bitmap_node \<Rightarrow> bool" where
  "apart m n \<longleftrightarrow>
     unat (base_phys m) + unat (region_size m) \<le> unat (base_phys n)
     \<or> unat (base_phys n) + unat (region_size n) \<le> unat (base_phys m)"

fun pa_inv :: "page_allocator \<Rightarrow> bool" where
  "pa_inv [] \<longleftrightarrow> True"
| "pa_inv (n # ns) \<longleftrightarrow> node_ok n \<and> (\<forall>m\<in>set ns. apart n m) \<and> pa_inv ns"

text \<open>Both updates of a bitmap the operations make.\<close>

definition clear_page :: "bitmap_node \<Rightarrow> nat \<Rightarrow> bitmap_node" where
  "clear_page n k =
    n\<lparr>node_map := (node_map n)[k div 64 := node_map n ! (k div 64) AND NOT (2 ^ (k mod 64))]\<rparr>"

definition set_page :: "bitmap_node \<Rightarrow> nat \<Rightarrow> bitmap_node" where
  "set_page n k =
    n\<lparr>node_map := (node_map n)[k div 64 := node_map n ! (k div 64) OR 2 ^ (k mod 64)]\<rparr>"

lemma update_page_simps [simp]:
  "base_phys (clear_page n k) = base_phys n" "region_size (clear_page n k) = region_size n"
  "base_phys (set_page n k) = base_phys n" "region_size (set_page n k) = region_size n"
  "length (node_map (clear_page n k)) = length (node_map n)"
  "length (node_map (set_page n k)) = length (node_map n)"
  by (simp_all add: clear_page_def set_page_def)

lemma node_pages_cong [simp]:
  "node_pages (clear_page n k) = node_pages n" "node_pages (set_page n k) = node_pages n"
  by (simp_all add: node_pages_def)

lemma page_addr_cong [simp]:
  "page_addr (clear_page n k) = page_addr n" "page_addr (set_page n k) = page_addr n"
  by (simp_all add: fun_eq_iff page_addr_def)

lemma node_okD:
  assumes "node_ok n"
  shows "unat (region_size n) = node_pages n * PAGE_4K"
    and "unat (base_phys n) + node_pages n * PAGE_4K < 2 ^ 64"
    and "length (node_map n) = (node_pages n + 63) div 64"
    and "unat (base_phys n) mod PAGE_4K = 0"
  using assms by (auto simp: node_ok_def node_pages_def)

lemma word_in_range:
  assumes "node_ok n" "p < node_pages n" shows "p div 64 < length (node_map n)"
  using assms(2) unfolding node_okD(3) [OF assms(1)] by linarith

lemma in_node_nat:
  assumes "node_ok n"
  shows "in_node phys n \<longleftrightarrow> unat (base_phys n) \<le> unat phys
    \<and> unat phys < unat (base_phys n) + node_pages n * PAGE_4K"
  using node_okD(1,2) [OF assms] by (simp add: in_node_def word_le_nat_alt word_less_nat_alt unat_add64)

lemma unat_page_addr:
  assumes "node_ok n" "p < node_pages n"
  shows "unat (page_addr n p) = unat (base_phys n) + p * PAGE_4K"
proof -
  have "p * PAGE_4K < node_pages n * PAGE_4K" using assms(2) by simp
  with node_okD(2) [OF assms(1)] have s: "unat (base_phys n) + p * PAGE_4K < 2 ^ 64" by linarith
  then have u: "unat (of_nat (p * PAGE_4K) :: u64) = p * PAGE_4K" by (intro unat_of_nat64) linarith
  with s show ?thesis unfolding page_addr_def by (simp only: unat_add64 u)
qed

lemma page_index_addr:
  assumes "node_ok n" "p < node_pages n"
  shows "in_node (page_addr n p) n" and "page_index (page_addr n p) n = p"
proof -
  have u: "unat (page_addr n p) = unat (base_phys n) + p * PAGE_4K"
    by (rule unat_page_addr [OF assms])
  show "in_node (page_addr n p) n"
    using assms by (simp add: in_node_nat u)
  have "base_phys n \<le> page_addr n p"
    by (simp add: word_le_nat_alt u)
  then show "page_index (page_addr n p) n = p"
    by (simp add: page_index_def unat_div unat_sub64 u)
qed

lemma page_index_in:
  assumes ok: "node_ok n" and i: "in_node phys n" and al: "unat phys mod PAGE_4K = 0"
  shows "page_index phys n < node_pages n" and "page_addr n (page_index phys n) = phys"
proof -
  have le: "unat (base_phys n) \<le> unat phys"
    and lt: "unat phys < unat (base_phys n) + node_pages n * PAGE_4K"
    using i by (auto simp: in_node_nat [OF ok])
  have idx: "page_index phys n = (unat phys - unat (base_phys n)) div PAGE_4K"
    using le by (simp add: page_index_def unat_div unat_sub64 word_le_nat_alt)
  show l: "page_index phys n < node_pages n"
    using le lt unfolding idx by (simp add: less_mult_imp_div_less)
  have "PAGE_4K dvd unat phys - unat (base_phys n)"
    using al node_okD(4) [OF ok] by (simp add: dvd_diff_nat mod_eq_0_iff_dvd)
  then have "page_index phys n * PAGE_4K = unat phys - unat (base_phys n)"
    unfolding idx by simp
  then have "unat (page_addr n (page_index phys n)) = unat phys"
    using le by (simp add: unat_page_addr [OF ok l])
  then show "page_addr n (page_index phys n) = phys" by (simp add: word_unat_eq_iff)
qed

lemma in_node_apart:
  assumes "node_ok m" "node_ok n" "apart m n" "in_node phys m" shows "\<not> in_node phys n"
  using assms by (auto simp: in_node_nat apart_def node_okD(1))

lemma page_addr_inj:
  assumes "node_ok n" "p < node_pages n" "q < node_pages n" "page_addr n p = page_addr n q"
  shows "p = q"
  using assms page_index_addr(2) by metis

lemma node_frames_in: "node_ok n \<Longrightarrow> f \<in> node_frames n \<Longrightarrow> in_node f n"
  by (auto simp: node_frames_def page_index_addr)

lemma node_free_frames: "node_free n \<subseteq> node_frames n"
  by (auto simp: node_free_def node_frames_def page_free_def)

lemma node_free_iff:
  assumes "node_ok n" "p < node_pages n"
  shows "page_addr n p \<in> node_free n \<longleftrightarrow> page_free n p"
  using assms by (auto simp: node_free_def page_free_def dest: page_addr_inj)

lemma div_mod_64_eq: "(p :: nat) div 64 = k div 64 \<Longrightarrow> p mod 64 = k mod 64 \<Longrightarrow> p = k"
  by (metis div_mult_mod_eq)

lemma page_free_clear:
  assumes "node_ok n" "k < node_pages n"
  shows "page_free (clear_page n k) p \<longleftrightarrow> page_free n p \<and> p \<noteq> k"
  using word_in_range [OF assms]
  by (auto simp: page_free_def clear_page_def node_pages_def nth_list_update bit_and_not_exp
      dest: div_mod_64_eq)

lemma page_free_set:
  assumes "node_ok n" "k < node_pages n"
  shows "page_free (set_page n k) p \<longleftrightarrow> page_free n p \<or> p = k"
  using word_in_range [OF assms] assms(2)
  by (auto simp: page_free_def set_page_def node_pages_def nth_list_update bit_or_exp
      dest: div_mod_64_eq)

lemma node_ok_clear: "node_ok n \<Longrightarrow> k < node_pages n \<Longrightarrow> node_ok (clear_page n k)"
  using word_in_range [of n k]
  by (auto simp: node_ok_def clear_page_def node_pages_def nth_list_update bit_and_not_exp)

lemma node_ok_set: "node_ok n \<Longrightarrow> k < node_pages n \<Longrightarrow> node_ok (set_page n k)"
  using word_in_range [of n k]
  by (auto simp: node_ok_def set_page_def node_pages_def nth_list_update bit_or_exp
      dest: div_mod_64_eq)

lemma node_sets_clear:
  assumes "node_ok n" "k < node_pages n"
  shows "node_free (clear_page n k) = node_free n - {page_addr n k}"
    and "node_frames (clear_page n k) = node_frames n"
proof -
  have "inj_on (page_addr n) {..<node_pages n}"
    using page_addr_inj [OF assms(1)] by (auto intro: inj_onI)
  then have "page_addr n ` ({p. page_free n p} - {k}) = page_addr n ` {p. page_free n p} - page_addr n ` {k}"
    by (rule inj_on_image_set_diff) (use assms(2) in \<open>auto simp: page_free_def\<close>)
  moreover have "{p. page_free (clear_page n k) p} = {p. page_free n p} - {k}"
    by (auto simp: page_free_clear [OF assms])
  ultimately show "node_free (clear_page n k) = node_free n - {page_addr n k}"
    by (simp add: node_free_def)
  show "node_frames (clear_page n k) = node_frames n" by (simp add: node_frames_def)
qed

lemma node_sets_set:
  assumes "node_ok n" "k < node_pages n"
  shows "node_free (set_page n k) = insert (page_addr n k) (node_free n)"
    and "node_frames (set_page n k) = node_frames n"
proof -
  have "{p. page_free (set_page n k) p} = insert k {p. page_free n p}"
    by (auto simp: page_free_set [OF assms])
  then show "node_free (set_page n k) = insert (page_addr n k) (node_free n)"
    by (simp add: node_free_def)
  show "node_frames (set_page n k) = node_frames n" by (simp add: node_frames_def)
qed

section \<open>The search finds a free page exactly when there is one\<close>

lemma find_bit_4k:
  "find_bit Size4KiB pages w val b =
    (if b \<le> 63 \<and> w * 64 + b < pages
     then if bit val b then Some (w * 64 + b, 2 ^ b) else find_bit Size4KiB pages w val (Suc b)
     else None)"
  by (subst find_bit.simps) (simp add: page_step_def bit_mask_def and_exp_eq)

lemma find_bit_4k_Some:
  "find_bit Size4KiB pages w val b = Some (p, m) \<Longrightarrow>
    p div 64 = w \<and> p < pages \<and> m = 2 ^ (p mod 64) \<and> bit val (p mod 64)"
proof (induction "64 - b" arbitrary: b)
  case 0
  then show ?case by (subst (asm) find_bit_4k) simp
next
  case (Suc d)
  show ?case
  proof (cases "b \<le> 63 \<and> w * 64 + b < pages \<and> \<not> bit val b")
    case True
    with Suc.prems have "find_bit Size4KiB pages w val (Suc b) = Some (p, m)"
      by (subst (asm) find_bit_4k) simp
    moreover have "d = 64 - Suc b" using Suc.hyps(2) by simp
    ultimately show ?thesis by (rule Suc.hyps(1) [rotated])
  next
    case False
    with Suc.prems show ?thesis by (subst (asm) find_bit_4k) (auto split: if_splits)
  qed
qed

lemma find_bit_4k_None:
  "find_bit Size4KiB pages w val b = None \<Longrightarrow> b \<le> i \<Longrightarrow> i < 64 \<Longrightarrow> w * 64 + i < pages \<Longrightarrow>
    \<not> bit val i"
proof (induction "64 - b" arbitrary: b)
  case 0
  then show ?case by simp
next
  case (Suc d)
  have nb: "\<not> bit val b" and step: "find_bit Size4KiB pages w val (Suc b) = None"
    using Suc.prems by (subst (asm) find_bit_4k; auto split: if_splits)+
  show ?case
  proof (cases "i = b")
    case False
    have "d = 64 - Suc b" using Suc.hyps(2) by simp
    then show ?thesis using Suc.hyps(1) [OF _ step] Suc.prems False by simp
  qed (use nb in simp)
qed

lemma scan_words_Some:
  "scan_words Size4KiB pages i ws = Some (w, p, m) \<Longrightarrow>
    i \<le> w \<and> w < i + length ws \<and> p div 64 = w \<and> p < pages \<and> m = 2 ^ (p mod 64)
    \<and> bit (ws ! (w - i)) (p mod 64)"
proof (induction ws arbitrary: i)
  case (Cons v ws)
  show ?case
  proof (cases "if v \<noteq> 0 then find_bit Size4KiB pages i v 0 else None")
    case None
    then have s: "scan_words Size4KiB pages (Suc i) ws = Some (w, p, m)" using Cons.prems by simp
    from Cons.IH [OF this] show ?thesis by (auto simp: nth_Cons' Suc_diff_le)
  next
    case (Some r)
    then show ?thesis using Cons.prems
      by (auto split: if_splits prod.splits dest!: find_bit_4k_Some)
  qed
qed simp

lemma scan_words_None:
  assumes "scan_words Size4KiB pages i ws = None" "p < pages" "i \<le> p div 64" "p div 64 < i + length ws"
  shows "\<not> bit (ws ! (p div 64 - i)) (p mod 64)"
  using assms
proof (induction ws arbitrary: i)
  case (Cons v ws)
  have f: "(if v \<noteq> 0 then find_bit Size4KiB pages i v 0 else None) = None"
    and s: "scan_words Size4KiB pages (Suc i) ws = None"
    using Cons.prems(1) by (auto split: option.splits prod.splits)
  show ?case
  proof (cases "p div 64 = i")
    case True
    have "i * 64 + p mod 64 = p" using True by (metis div_mult_mod_eq)
    then have "\<not> bit v (p mod 64)"
      using f find_bit_4k_None [of pages i v 0 "p mod 64"] Cons.prems(2) by (cases "v = 0") auto
    with True show ?thesis by simp
  next
    case False
    then have "\<not> bit (ws ! (p div 64 - Suc i)) (p mod 64)"
      using Cons.prems by (intro Cons.IH [OF s]) auto
    moreover have "p div 64 - i = Suc (p div 64 - Suc i)" using False Cons.prems(3) by simp
    ultimately show ?thesis by simp
  qed
qed simp

lemma scan_node_Some:
  assumes "node_ok n" "scan_words Size4KiB (node_pages n) 0 (node_map n) = Some (w, p, m)"
  shows "page_free n p" and "w = p div 64" and "m = 2 ^ (p mod 64)"
  using scan_words_Some [OF assms(2)] by (auto simp: page_free_def)

lemma scan_node_None:
  assumes "node_ok n" "scan_words Size4KiB (node_pages n) 0 (node_map n) = None"
  shows "node_free n = {}"
  using scan_words_None [OF assms(2)] word_in_range [OF assms(1)]
  by (auto simp: node_free_def page_free_def)

section \<open>The operations on the abstract state\<close>

lemma pa_sets_Cons [simp]:
  "pa_free (n # ns) = node_free n \<union> pa_free ns" "pa_frames (n # ns) = node_frames n \<union> pa_frames ns"
  "pa_free [] = {}" "pa_frames [] = {}"
  by (auto simp: pa_free_def pa_frames_def)

lemma pa_invD: "pa_inv a \<Longrightarrow> n \<in> set a \<Longrightarrow> node_ok n"
  by (induction a) auto

lemma pa_frames_in: "pa_inv a \<Longrightarrow> f \<in> pa_frames a \<Longrightarrow> \<exists>n\<in>set a. in_node f n"
  by (auto simp: pa_frames_def dest: pa_invD intro: node_frames_in)

lemma apart_frames:
  assumes "node_ok n" "pa_inv ns" "\<forall>m\<in>set ns. apart n m" "in_node f n"
  shows "f \<notin> pa_frames ns"
  using assms pa_frames_in [of ns f] pa_invD in_node_apart by blast

lemma pa_free_frames: "pa_free a \<subseteq> pa_frames a"
  using node_free_frames by (auto simp: pa_free_def pa_frames_def)

lemma apart_cong [simp]:
  "apart (clear_page n k) m = apart n m" "apart (set_page n k) m = apart n m"
  "apart m (clear_page n k) = apart m n" "apart m (set_page n k) = apart m n"
  by (simp_all add: apart_def)

text \<open>What an update of the node that holds the frame does to the whole allocator.\<close>

lemma update_head:
  assumes inv: "pa_inv (n # ns)" and k: "k < node_pages n"
  shows "pa_inv (clear_page n k # ns)" "pa_frames (clear_page n k # ns) = pa_frames (n # ns)"
    and "pa_free (clear_page n k # ns) = pa_free (n # ns) - {page_addr n k}"
    and "pa_inv (set_page n k # ns)" "pa_frames (set_page n k # ns) = pa_frames (n # ns)"
    and "pa_free (set_page n k # ns) = insert (page_addr n k) (pa_free (n # ns))"
proof -
  have ok: "node_ok n" using inv by simp
  have "page_addr n k \<notin> pa_free ns"
    using apart_frames [of n ns "page_addr n k"] inv page_index_addr(1) [OF ok k] pa_free_frames by auto
  then show "pa_free (clear_page n k # ns) = pa_free (n # ns) - {page_addr n k}"
    by (auto simp: node_sets_clear [OF ok k])
qed (use inv k in \<open>auto simp: node_sets_clear node_sets_set node_ok_clear node_ok_set\<close>)

lemma alloc_any_Some:
  assumes "pa_inv a" "alloc_any Size4KiB a = Some (a', f)"
  shows "pa_inv a' \<and> pa_frames a' = pa_frames a \<and> f \<in> pa_free a \<and> pa_free a' = pa_free a - {f}
    \<and> (\<forall>n. (\<forall>m\<in>set a. apart n m) \<longrightarrow> (\<forall>m\<in>set a'. apart n m))"
  using assms
proof (induction a arbitrary: a')
  case (Cons n ns)
  have ok: "node_ok n" using Cons.prems(1) by simp
  show ?case
  proof (cases "scan_words Size4KiB (node_pages n) 0 (node_map n)")
    case None
    then obtain ns' where a': "a' = n # ns'" and s: "alloc_any Size4KiB ns = Some (ns', f)"
      using Cons.prems(2) by auto
    have IH: "pa_inv ns'" "pa_frames ns' = pa_frames ns" "f \<in> pa_free ns" "pa_free ns' = pa_free ns - {f}"
      "\<forall>n. (\<forall>m\<in>set ns. apart n m) \<longrightarrow> (\<forall>m\<in>set ns'. apart n m)"
      using Cons.IH [OF _ s] Cons.prems(1) by auto
    then show ?thesis using scan_node_None [OF ok None] Cons.prems(1) a' by auto
  next
    case (Some r)
    obtain w p m where r: "r = (w, p, m)" by (cases r)
    have p: "page_free n p" "w = p div 64" "m = 2 ^ (p mod 64)"
      using scan_node_Some [OF ok] Some r by auto
    have k: "p < node_pages n" using p(1) by (simp add: page_free_def)
    have "a' = clear_page n p # ns" "f = page_addr n p"
      using Cons.prems(2) Some r p by (auto simp: clear_page_def page_addr_def)
    then show ?thesis
      using update_head(1,2,3) [OF Cons.prems(1) k] p(1) node_free_iff [OF ok k] by auto
  qed
qed simp

lemma alloc_any_None: "pa_inv a \<Longrightarrow> alloc_any Size4KiB a = None \<Longrightarrow> pa_free a = {}"
  by (induction a) (auto split: option.splits prod.splits simp: scan_node_None)

lemma claim_4k_eq:
  assumes ok: "node_ok n" and i: "in_node f n" and al: "unat f mod PAGE_4K = 0"
  shows "claim_4k f n =
    (if f \<in> node_free n then Some (clear_page n (page_index f n)) else None)"
proof -
  have k: "page_index f n < node_pages n" and f: "page_addr n (page_index f n) = f"
    using page_index_in [OF ok i al] by auto
  have "f \<in> node_free n \<longleftrightarrow> page_free n (page_index f n)"
    using node_free_iff [OF ok k] f by simp
  then show ?thesis using word_in_range [OF ok k] k
    by (simp add: claim_4k_def Let_def and_exp_zero page_free_def clear_page_def)
qed

lemma release_4k_eq:
  assumes ok: "node_ok n" and i: "in_node f n" and al: "unat f mod PAGE_4K = 0"
  shows "release Size4KiB f n = Some (set_page n (page_index f n))"
proof -
  have k: "page_index f n < node_pages n" using page_index_in [OF ok i al] by auto
  have "unat (of_nat (page_index f n) :: usize) = page_index f n"
    by (simp add: page_index_def)
  then show ?thesis using word_in_range [OF ok k]
    by (simp add: release_def Let_def page_step_def set_page_def)
qed

lemma node_free_in: "node_ok n \<Longrightarrow> f \<in> node_free n \<Longrightarrow> in_node f n"
  using node_free_frames node_frames_in by blast

lemma alloc_specific_4k:
  assumes "pa_inv a" "unat f mod PAGE_4K = 0"
  shows "f \<notin> pa_free a \<Longrightarrow> alloc_specific Size4KiB f a = None"
    and "f \<in> pa_free a \<Longrightarrow> \<exists>a'. alloc_specific Size4KiB f a = Some a' \<and> pa_inv a'
      \<and> pa_frames a' = pa_frames a \<and> pa_free a' = pa_free a - {f}
      \<and> (\<forall>n. (\<forall>m\<in>set a. apart n m) \<longrightarrow> (\<forall>m\<in>set a'. apart n m))"
  using assms(1)
proof (induction a)
  case (Cons n ns)
  {
    case 1
    then show ?case using Cons.IH claim_4k_eq [OF _ _ assms(2), of n] by auto
  next
    case 2
    then have ok: "node_ok n" by simp
    show ?case
    proof (cases "in_node f n")
      case True
      have f: "f \<in> node_free n"
        using 2 True apart_frames [OF ok _ _ True] pa_free_frames by auto
      have k: "page_index f n < node_pages n" "page_addr n (page_index f n) = f"
        using page_index_in [OF ok True assms(2)] by auto
      then show ?thesis
        using True f claim_4k_eq [OF ok True assms(2)] update_head(1-3) [OF 2(2) k(1)] by auto
    next
      case False
      then have f: "f \<in> pa_free ns" using 2 node_free_in [OF ok] by auto
      then obtain ns' where "alloc_specific Size4KiB f ns = Some ns'" "pa_inv ns'"
          "pa_frames ns' = pa_frames ns" "pa_free ns' = pa_free ns - {f}"
          "\<forall>n. (\<forall>m\<in>set ns. apart n m) \<longrightarrow> (\<forall>m\<in>set ns'. apart n m)"
        using Cons.IH(2) 2 by auto
      moreover have "f \<notin> node_free n" using False node_free_in [OF ok] by auto
      ultimately show ?thesis using False 2(2) by auto
    qed
  }
qed simp_all

lemma page_dealloc_4k:
  assumes "pa_inv a" "f \<in> pa_frames a"
  shows "\<exists>a'. page_dealloc a f Size4KiB = Inr a' \<and> pa_inv a' \<and> pa_frames a' = pa_frames a
    \<and> pa_free a' = insert f (pa_free a)
    \<and> (\<forall>n. (\<forall>m\<in>set a. apart n m) \<longrightarrow> (\<forall>m\<in>set a'. apart n m))"
  using assms
proof (induction a)
  case (Cons n ns)
  then have ok: "node_ok n" by simp
  show ?case
  proof (cases "in_node f n")
    case True
    then obtain p where p: "p < node_pages n" "f = page_addr n p"
      using Cons.prems(2) apart_frames [OF ok _ _ True] Cons.prems(1) by (auto simp: node_frames_def)
    have "page_index f n = p" using p page_index_addr(2) [OF ok] by simp
    moreover have "unat f mod PAGE_4K = 0"
      using p unat_page_addr [OF ok p(1)] node_okD(4) [OF ok] by simp
    ultimately show ?thesis
      using True p release_4k_eq [OF ok True] update_head(4-6) [OF Cons.prems(1) p(1)]
        Cons.prems(1) by auto
  next
    case False
    then have "f \<in> pa_frames ns" using Cons.prems(2) node_frames_in [OF ok] by auto
    then obtain ns' where "page_dealloc ns f Size4KiB = Inr ns'" "pa_inv ns'"
        "pa_frames ns' = pa_frames ns" "pa_free ns' = insert f (pa_free ns)"
        "\<forall>n. (\<forall>m\<in>set ns. apart n m) \<longrightarrow> (\<forall>m\<in>set ns'. apart n m)"
      using Cons.IH Cons.prems by auto
    then show ?thesis using False Cons.prems(1) by auto
  qed
qed simp

lemma page_alloc_any_cases:
  "page_alloc a Size4KiB None = (a', Some f) \<longleftrightarrow> alloc_any Size4KiB a = Some (a', f)"
  "page_alloc a Size4KiB None = (a', None) \<longleftrightarrow> alloc_any Size4KiB a = None \<and> a' = a"
  by (auto simp: page_alloc_def split: option.splits)

interpretation pages: frame_allocator pa_inv pa_frames pa_free
  "\<lambda>a. page_alloc a Size4KiB None" "\<lambda>a f. page_dealloc a f Size4KiB"
proof
  fix s :: page_allocator and s' f
  show "pa_free s \<subseteq> pa_frames s" by (rule pa_free_frames)
  show "finite (pa_frames s)" by (simp add: pa_frames_def node_frames_def)
  assume inv: "pa_inv s"
  show "page_alloc s Size4KiB None = (s', Some f) \<Longrightarrow>
      pa_inv s' \<and> pa_frames s' = pa_frames s \<and> f \<in> pa_free s \<and> pa_free s' = pa_free s - {f}"
    using alloc_any_Some [OF inv] by (auto simp: page_alloc_any_cases)
  show "page_alloc s Size4KiB None = (s', None) \<Longrightarrow> s' = s \<and> pa_free s = {}"
    using alloc_any_None [OF inv] by (auto simp: page_alloc_any_cases)
  show "f \<in> pa_frames s - pa_free s \<Longrightarrow> \<exists>s'. page_dealloc s f Size4KiB = Inr s' \<and> pa_inv s'
      \<and> pa_frames s' = pa_frames s \<and> pa_free s' = insert f (pa_free s)"
    using page_dealloc_4k [OF inv] by blast
  assume f: "f \<in> pa_free s"
  then have "f \<in> pa_frames s" using pa_free_frames [of s] by auto
  from page_dealloc_4k [OF inv this] f
  show "\<exists>s'. page_dealloc s f Size4KiB = Inr s' \<and> pa_inv s'
      \<and> pa_frames s' = pa_frames s \<and> pa_free s' = pa_free s"
    by (auto simp: insert_absorb)
qed

lemma dealloc_outside:
  assumes "\<forall>n\<in>set a. \<not> in_node f n" shows "page_dealloc a f sz = Inl NotMapped"
  using assms by (induction a) auto

section \<open>Initialisation\<close>

text \<open>
  The frames that lie wholly inside a region given by its first byte and its size, and the
  conditions on the memory map under which the arithmetic of the initialisation does not wrap:
  every region ends below the top of the address space and reaches its first page boundary.
\<close>

definition region_frames :: "u64 \<times> usize \<Rightarrow> u64 set" where
  "region_frames r = {f. unat f mod PAGE_4K = 0 \<and> unat (fst r) \<le> unat f
     \<and> unat f + PAGE_4K \<le> unat (fst r) + unat (snd r)}"

definition region_ok :: "u64 \<times> usize \<Rightarrow> bool" where
  "region_ok r \<longleftrightarrow> unat (fst r) + unat (snd r) + PAGE_4K < 2 ^ 64
     \<and> (unat (fst r) + 4095) div PAGE_4K * PAGE_4K \<le> unat (fst r) + unat (snd r)"

definition regions_apart :: "u64 \<times> usize \<Rightarrow> u64 \<times> usize \<Rightarrow> bool" where
  "regions_apart q r \<longleftrightarrow> unat (fst q) + unat (snd q) \<le> unat (fst r)
     \<or> unat (fst r) + unat (snd r) \<le> unat (fst q)"

fun memory_map_ok :: "(u64 \<times> usize) list \<Rightarrow> bool" where
  "memory_map_ok [] \<longleftrightarrow> True"
| "memory_map_ok (r # rs) \<longleftrightarrow> region_ok r \<and> (\<forall>q\<in>set rs. regions_apart r q) \<and> memory_map_ok rs"

text \<open>The bitmap a region starts with: all its pages free, the bits past its end clear.\<close>

definition fresh_map :: "nat \<Rightarrow> u64 list" where
  "fresh_map pages =
    (let words = replicate ((pages + 63) div 64) (- 1)
     in if pages mod 64 \<noteq> 0 then words[(pages + 63) div 64 - 1 := shl64 1 (pages mod 64) - 1]
        else words)"

lemma length_fresh_map [simp]: "length (fresh_map pages) = (pages + 63) div 64"
  by (simp add: fresh_map_def Let_def)

lemma bit_fresh_map:
  assumes "p div 64 < (pages + 63) div 64"
  shows "bit (fresh_map pages ! (p div 64)) (p mod 64) \<longleftrightarrow> p < pages"
proof (cases "pages mod 64 \<noteq> 0 \<and> p div 64 = (pages + 63) div 64 - 1")
  case True
  then have d: "p div 64 = pages div 64" by (simp add: ceil_div_64)
  have "p < pages \<longleftrightarrow> p mod 64 < pages mod 64"
    using d by (metis div_mult_mod_eq nat_add_left_cancel_less)
  moreover have "bit ((2 :: u64) ^ (pages mod 64) - 1) (p mod 64) \<longleftrightarrow> p mod 64 < pages mod 64"
    by (rule bit_exp_minus_one) (simp add: less_imp_le)
  ultimately show ?thesis using True assms by (simp add: fresh_map_def Let_def)
next
  case False
  then have "p div 64 < pages div 64" using assms by (auto simp: ceil_div_64 split: if_splits)
  then have "p < pages" using div_le_mono [of pages p 64] by linarith
  moreover have "fresh_map pages ! (p div 64) = - 1"
    using False assms by (auto simp: fresh_map_def Let_def nth_list_update)
  moreover have "bit (- 1 :: u64) (p mod 64)" by simp
  ultimately show ?thesis by simp
qed

definition fresh_node :: "usize \<Rightarrow> u64 \<times> usize \<Rightarrow> bitmap_node" where
  "fresh_node storage_offset r =
    (let aligned_start = (fst r + 4096 - 1) AND NOT (4096 - 1);
         aligned_size = ((fst r + snd r - aligned_start) div 4096) * 4096
     in \<lparr>node_virt = HIGHER_HALF_BASE + storage_offset,
         node_map = fresh_map (unat (aligned_size div 4096)),
         base_phys = aligned_start, region_size = aligned_size\<rparr>)"

lemma init_region_eq:
  "init_region (head, off) r =
    (if region_size (fresh_node off r) < 4096 then (head, off)
     else (fresh_node off r # head,
           off + of_nat (size_of_BitmapNode + length (node_map (fresh_node off r)) * 8)))"
  by (cases r) (simp add: init_region_def fresh_node_def fresh_map_def Let_def)

lemma fresh_node_nat:
  assumes "region_ok r"
  defines "s \<equiv> unat (fst r)" and "e \<equiv> unat (fst r) + unat (snd r)"
  defines "b \<equiv> (s + 4095) div PAGE_4K * PAGE_4K"
  shows "unat (base_phys (fresh_node off r)) = b"
    and "unat (region_size (fresh_node off r)) = (e - b) div PAGE_4K * PAGE_4K"
    and "b \<le> e" "e < 2 ^ 64 - PAGE_4K"
proof -
  have lim: "e + PAGE_4K < 2 ^ 64" and le: "b \<le> e"
    using assms(1) by (auto simp: region_ok_def s_def e_def b_def)
  have u: "unat (4095 + fst r) = s + 4095" using lim by (simp add: unat_word_ariths s_def e_def)
  show base: "unat (base_phys (fresh_node off r)) = b"
    by (simp add: fresh_node_def Let_def unat_align_down_4k u b_def)
  have e: "unat (fst r + snd r) = e" using lim by (simp add: unat_word_ariths e_def)
  have "unat (fst r + snd r - base_phys (fresh_node off r)) = e - b"
    using le by (simp add: unat_sub64 word_le_nat_alt base e)
  moreover have "(e - b) div PAGE_4K * PAGE_4K < 2 ^ 64"
    using lim by (metis div_times_less_eq_dividend diff_le_self le_less_trans add_lessD1)
  ultimately show "unat (region_size (fresh_node off r)) = (e - b) div PAGE_4K * PAGE_4K"
    by (simp add: fresh_node_def Let_def unat_word_ariths unat_div)
  show "b \<le> e" "e < 2 ^ 64 - PAGE_4K" using le lim by simp_all
qed

lemma align_up_bounds:
  fixes s :: nat
  shows "s \<le> (s + 4095) div PAGE_4K * PAGE_4K"
    and "q * PAGE_4K \<ge> s \<Longrightarrow> (s + 4095) div PAGE_4K \<le> q"
proof -
  have "(s + 4095) mod PAGE_4K < PAGE_4K" by simp
  moreover have "(s + 4095) div PAGE_4K * PAGE_4K + (s + 4095) mod PAGE_4K = s + 4095" by simp
  ultimately show "s \<le> (s + 4095) div PAGE_4K * PAGE_4K" by linarith
  assume "q * PAGE_4K \<ge> s"
  then have "s + 4095 < Suc q * PAGE_4K" by simp
  then have "(s + 4095) div PAGE_4K < Suc q" by (rule less_mult_imp_div_less)
  then show "(s + 4095) div PAGE_4K \<le> q" by simp
qed

lemma fresh_node_ok:
  assumes "region_ok r" shows "node_ok (fresh_node off r)"
proof -
  note f = fresh_node_nat(1,2) [OF assms, of off] fresh_node_nat(3,4) [OF assms]
  let ?n = "fresh_node off r"
  have np: "node_pages ?n = unat (region_size ?n div 4096)"
    by (simp add: node_pages_def unat_div)
  then have m: "node_map ?n = fresh_map (node_pages ?n)"
    by (simp add: fresh_node_def Let_def)
  have "unat (base_phys ?n) + unat (region_size ?n) < 2 ^ 64"
    unfolding f(1,2) using f(3,4) div_times_less_eq_dividend
      [of "unat (fst r) + unat (snd r) - (unat (fst r) + 4095) div PAGE_4K * PAGE_4K" PAGE_4K]
    by linarith
  moreover have "\<not> bit (node_map ?n ! (p div 64)) (p mod 64)"
    if "node_pages ?n \<le> p" "p div 64 < length (node_map ?n)" for p
    using that bit_fresh_map [of p "node_pages ?n"] by (simp add: m)
  ultimately show ?thesis using f(1,2) by (auto simp: node_ok_def m)
qed

lemma fresh_node_free:
  assumes "region_ok r" shows "node_free (fresh_node off r) = node_frames (fresh_node off r)"
proof -
  let ?n = "fresh_node off r"
  have m: "node_map ?n = fresh_map (node_pages ?n)"
    by (simp add: fresh_node_def Let_def node_pages_def unat_div)
  have "page_free ?n p" if "p < node_pages ?n" for p
    using that word_in_range [OF fresh_node_ok [OF assms] that] bit_fresh_map [of p "node_pages ?n"]
    by (simp add: page_free_def m)
  then show ?thesis by (auto simp: node_free_def node_frames_def page_free_def)
qed

lemma fresh_node_frames:
  assumes "region_ok r" shows "node_frames (fresh_node off r) = region_frames r"
proof (rule set_eqI)
  let ?n = "fresh_node off r" and ?s = "unat (fst r)" and ?e = "unat (fst r) + unat (snd r)"
  let ?b = "(?s + 4095) div PAGE_4K * PAGE_4K"
  note f = fresh_node_nat(1,2) [OF assms, of off] fresh_node_nat(3,4) [OF assms]
  have ok: "node_ok ?n" by (rule fresh_node_ok [OF assms])
  have np: "node_pages ?n = (?e - ?b) div PAGE_4K" by (simp add: node_pages_def f(2))
  fix x
  show "x \<in> node_frames ?n \<longleftrightarrow> x \<in> region_frames r"
  proof
    assume "x \<in> node_frames ?n"
    then obtain p where p: "p < node_pages ?n" "x = page_addr ?n p" by (auto simp: node_frames_def)
    have u: "unat x = ?b + p * PAGE_4K" using unat_page_addr [OF ok p(1)] p(2) f(1) by simp
    have "Suc p * PAGE_4K \<le> ?e - ?b"
      using p(1) unfolding np by (metis Suc_leI less_eq_div_iff_mult_less_eq zero_less_numeral)
    then show "x \<in> region_frames r"
      using u f(3) align_up_bounds(1) [of ?s] by (simp add: region_frames_def)
  next
    assume x: "x \<in> region_frames r"
    define q where "q = unat x div PAGE_4K"
    have q: "unat x = q * PAGE_4K" "?s \<le> q * PAGE_4K" "q * PAGE_4K + PAGE_4K \<le> ?e"
      using x by (auto simp: region_frames_def q_def)
    have b: "(?s + 4095) div PAGE_4K \<le> q" by (rule align_up_bounds(2) [OF q(2)])
    define p where "p = q - (?s + 4095) div PAGE_4K"
    have px: "?b + p * PAGE_4K = unat x" using b q(1) by (simp add: p_def diff_mult_distrib)
    then have "Suc p * PAGE_4K \<le> ?e - ?b" using q by simp
    then have "p < node_pages ?n" unfolding np
      by (metis Suc_le_eq less_eq_div_iff_mult_less_eq zero_less_numeral)
    moreover from this have "unat (page_addr ?n p) = unat x"
      using unat_page_addr [OF ok] f(1) px by simp
    then have "x = page_addr ?n p" by (simp add: word_unat_eq_iff)
    ultimately show "x \<in> node_frames ?n" by (auto simp: node_frames_def)
  qed
qed

lemma fresh_node_apart:
  assumes "region_ok q" "region_ok r" "regions_apart q r"
  shows "apart (fresh_node o1 q) (fresh_node o2 r)"
proof -
  have "unat (fst x) \<le> unat (base_phys (fresh_node off x))
      \<and> unat (base_phys (fresh_node off x)) + unat (region_size (fresh_node off x))
        \<le> unat (fst x) + unat (snd x)" if "region_ok x" for x off
    unfolding fresh_node_nat(1,2) [OF that, of off]
    using fresh_node_nat(3) [OF that] align_up_bounds(1) [of "unat (fst x)"] div_times_less_eq_dividend
      [of "unat (fst x) + unat (snd x) - (unat (fst x) + 4095) div PAGE_4K * PAGE_4K" PAGE_4K]
    by linarith
  from this [OF assms(1), of o1] this [OF assms(2), of o2] assms(3) show ?thesis
    unfolding apart_def regions_apart_def by linarith
qed

lemma small_region_frames:
  assumes "region_ok r" "region_size (fresh_node off r) < 4096" shows "region_frames r = {}"
proof -
  have "unat (region_size (fresh_node off r)) < 4096"
    using assms(2) by (simp add: word_less_nat_alt)
  then have "node_pages (fresh_node off r) = 0" by (simp add: node_pages_def)
  then show ?thesis using fresh_node_frames [OF assms(1), of off] by (simp add: node_frames_def)
qed

lemma initialize_fold:
  assumes "pa_inv head" "memory_map_ok rs"
    and "\<forall>n\<in>set head. \<exists>q o1. n = fresh_node o1 q \<and> region_ok q \<and> (\<forall>r\<in>set rs. regions_apart q r)"
  shows "let a = fst (foldl init_region (head, off) rs)
    in pa_inv a \<and> pa_frames a = pa_frames head \<union> \<Union> (region_frames ` set rs)
       \<and> pa_free a = pa_free head \<union> \<Union> (region_frames ` set rs)"
  using assms
proof (induction rs arbitrary: head off)
  case (Cons r rs)
  have r: "region_ok r" "\<forall>q\<in>set rs. regions_apart r q" "memory_map_ok rs"
    using Cons.prems(2) by auto
  show ?case
  proof (cases "region_size (fresh_node off r) < 4096")
    case True
    have "\<forall>n\<in>set head. \<exists>q o1. n = fresh_node o1 q \<and> region_ok q \<and> (\<forall>r\<in>set rs. regions_apart q r)"
      using Cons.prems(3) by (metis list.set_intros(2))
    from Cons.IH [OF Cons.prems(1) r(3) this, of off] True small_region_frames [OF r(1) True]
    show ?thesis by (simp add: init_region_eq)
  next
    case False
    let ?h = "fresh_node off r # head"
    have "\<forall>m\<in>set head. apart (fresh_node off r) m"
      using Cons.prems(3) r(1) fresh_node_apart by (fastforce simp: apart_def regions_apart_def)
    then have h: "pa_inv ?h" using Cons.prems(1) fresh_node_ok [OF r(1)] by simp
    have "\<forall>n\<in>set ?h. \<exists>q o1. n = fresh_node o1 q \<and> region_ok q \<and> (\<forall>r\<in>set rs. regions_apart q r)"
      using Cons.prems(3) r(1,2) by (metis list.set_intros(2) set_ConsD)
    from Cons.IH [OF h r(3) this] False show ?thesis
      by (simp add: init_region_eq Let_def fresh_node_frames [OF r(1)] fresh_node_free [OF r(1)] Un_ac)
  qed
qed simp

section \<open>Pages of 2 MiB\<close>

lemma foldl_clear:
  "length (foldl (\<lambda>m i. m[w + i := (0 :: u64)]) m [0..<c]) = length m"
  "j < length m \<Longrightarrow> foldl (\<lambda>m i. m[w + i := (0 :: u64)]) m [0..<c] ! j =
    (if w \<le> j \<and> j < w + c then 0 else m ! j)"
proof (induction c)
  case (Suc c)
  {
    case 1
    then show ?case using Suc.IH by simp
  next
    case 2
    then show ?case using Suc.IH by (cases "j = w + c") auto
  }
qed auto

lemma page_index_lt: "node_ok n \<Longrightarrow> in_node f n \<Longrightarrow> page_index f n < node_pages n"
  by (auto simp: in_node_nat page_index_def unat_div unat_sub64 word_le_nat_alt less_mult_imp_div_less)

lemma claim_2m_Some:
  assumes ok: "node_ok n" and c: "claim_2m f n = Some n'"
  defines "k \<equiv> page_index f n"
  shows "base_phys n' = base_phys n" "region_size n' = region_size n"
    and "k + 512 \<le> node_pages n" "\<forall>p. k \<le> p \<and> p < k + 512 \<longrightarrow> page_free n p"
    and "page_free n' p \<longleftrightarrow> page_free n p \<and> \<not> (k \<le> p \<and> p < k + 512)"
    and "node_ok n'"
proof -
  let ?w = "k div 64"
  let ?m = "foldl (\<lambda>m i. m[?w + i := 0]) (node_map n) [0..<8]"
  have c': "k mod 512 = 0" "?w + 8 \<le> length (node_map n)"
      "\<forall>i\<in>{0..<8}. node_map n ! (?w + i) = - 1" "n' = n\<lparr>node_map := ?m\<rparr>"
    using c by (auto simp: claim_2m_def page_step_def Let_def k_def split: if_splits simp del: upt_rec_numeral)
  show eqs: "base_phys n' = base_phys n" "region_size n' = region_size n" by (simp_all add: c'(4))
  have np: "node_pages n' = node_pages n" by (simp add: node_pages_def eqs)
  have "64 dvd k" using c'(1) dvd_trans [of 64 512 k] by (simp add: mod_eq_0_iff_dvd)
  then have k: "k = ?w * 64" by simp
  have rng: "?w \<le> p div 64 \<and> p div 64 < ?w + 8 \<longleftrightarrow> k \<le> p \<and> p < k + 512" for p
    using k by (auto simp: less_eq_div_iff_mult_less_eq div_less_iff_less_mult)
  have set8: "bit (node_map n ! (p div 64)) (p mod 64)" if "k \<le> p" "p < k + 512" for p
  proof -
    have "?w \<le> p div 64" "p div 64 < ?w + 8" using that rng [of p] by auto
    then have "p div 64 - ?w \<in> {0..<8}" by auto
    with c'(3) have "node_map n ! (?w + (p div 64 - ?w)) = - 1" by blast
    then have "node_map n ! (p div 64) = - 1" using \<open>?w \<le> p div 64\<close> by simp
    moreover have "bit (- 1 :: u64) (p mod 64)" by simp
    ultimately show ?thesis by simp
  qed
  show lim: "k + 512 \<le> node_pages n"
  proof (rule ccontr)
    assume "\<not> k + 512 \<le> node_pages n"
    then have "node_pages n \<le> k + 511" by simp
    moreover have "(k + 511) div 64 < length (node_map n)" using rng [of "k + 511"] c'(2) by auto
    ultimately have "\<not> bit (node_map n ! ((k + 511) div 64)) ((k + 511) mod 64)"
      using ok by (auto simp: node_ok_def)
    then show False using set8 [of "k + 511"] by simp
  qed
  show "\<forall>p. k \<le> p \<and> p < k + 512 \<longrightarrow> page_free n p"
    using lim set8 by (auto simp: page_free_def)
  have nth: "node_map n' ! (p div 64) = (if k \<le> p \<and> p < k + 512 then 0 else node_map n ! (p div 64))"
    if "p div 64 < length (node_map n)" for p
    using foldl_clear(2) [OF that, of ?w 8] rng [of p] by (simp add: c'(4))
  show "page_free n' p \<longleftrightarrow> page_free n p \<and> \<not> (k \<le> p \<and> p < k + 512)"
    using nth [of p] word_in_range [OF ok, of p] by (auto simp: page_free_def np split: if_splits)
  have len: "length (node_map n') = length (node_map n)"
    by (simp add: c'(4) foldl_clear(1) del: upt_rec_numeral)
  show "node_ok n'" using ok by (auto simp: node_ok_def eqs np len nth split: if_splits)
qed

lemma find_bit_2m: "find_bit Size2MiB pages w val b = None"
  by (subst find_bit.simps) (auto simp: page_step_def bit_mask_def Let_def)

lemma scan_words_2m: "scan_words Size2MiB pages w ws = None"
  by (induction ws arbitrary: w) (simp_all add: find_bit_2m)

lemma alloc_any_2m: "alloc_any Size2MiB a = None"
  by (induction a) (simp_all add: scan_words_2m)

lemma release_2m: "release Size2MiB f n = Some n' \<Longrightarrow> n' = n"
  by (auto simp: release_def Let_def page_step_def shl64_def split: if_splits)

lemma alloc_specific_2m_inv:
  assumes "pa_inv a" "alloc_specific Size2MiB f a = Some a'"
  shows "pa_inv a' \<and> pa_frames a' = pa_frames a \<and>
    (\<forall>n. (\<forall>m\<in>set a. apart n m) \<longrightarrow> (\<forall>m\<in>set a'. apart n m))"
  using assms
proof (induction a arbitrary: a')
  case (Cons n ns)
  then have ok: "node_ok n" by simp
  show ?case
  proof (cases "in_node f n")
    case True
    then obtain n' where n': "claim_2m f n = Some n'" "a' = n' # ns" using Cons.prems by auto
    note c = claim_2m_Some [OF ok n'(1)]
    have "node_frames n' = node_frames n"
      by (simp add: node_frames_def node_pages_def page_addr_def c(1,2))
    moreover have "apart n' m = apart n m" "apart m n' = apart m n" for m
      by (simp_all add: apart_def c(1,2))
    ultimately show ?thesis using Cons.prems(1) n'(2) c(6) by auto
  next
    case False
    then obtain ns' where "alloc_specific Size2MiB f ns = Some ns'" "a' = n # ns'"
      using Cons.prems by auto
    with Cons.IH [of ns'] Cons.prems(1) show ?thesis by auto
  qed
qed simp

lemma release_4k_inv:
  assumes "node_ok n" "in_node f n"
  shows "release Size4KiB f n = Some (set_page n (page_index f n))"
proof -
  have "unat (of_nat (page_index f n) :: usize) = page_index f n" by (simp add: page_index_def)
  then show ?thesis using word_in_range [OF assms(1) page_index_lt [OF assms]]
    by (simp add: release_def Let_def page_step_def set_page_def)
qed

lemma page_dealloc_inv:
  assumes "pa_inv a" "page_dealloc a f sz = Inr a'"
  shows "pa_inv a' \<and> pa_frames a' = pa_frames a \<and>
    (\<forall>n. (\<forall>m\<in>set a. apart n m) \<longrightarrow> (\<forall>m\<in>set a'. apart n m))"
  using assms
proof (induction a arbitrary: a')
  case (Cons n ns)
  then have ok: "node_ok n" by simp
  show ?case
  proof (cases "in_node f n")
    case True
    show ?thesis
    proof (cases sz)
      case Size4KiB
      then show ?thesis using True Cons.prems release_4k_inv [OF ok True]
          update_head(4,5) [OF Cons.prems(1) page_index_lt [OF ok True]] by auto
    next
      case Size2MiB
      then show ?thesis using True Cons.prems by (auto split: option.splits dest: release_2m)
    qed
  next
    case False
    then obtain ns' where "page_dealloc ns f sz = Inr ns'" "a' = n # ns'"
      using Cons.prems by (auto simp: rbind_Inr_iff)
    with Cons.IH [of ns'] Cons.prems(1) show ?thesis by auto
  qed
qed simp

section \<open>Statistics\<close>

text \<open>
  The mask \<open>(1 << (bits - 1)) - 1\<close> of the source drops the highest page of every bitmap word:
  page 63 of a full word and the last page of the region.
\<close>

definition top_page :: "bitmap_node \<Rightarrow> nat \<Rightarrow> bool" where
  "top_page n p \<longleftrightarrow> p mod 64 = 63 \<or> Suc p = node_pages n"

definition counted_free :: "bitmap_node \<Rightarrow> nat list" where
  "counted_free n = filter (\<lambda>p. page_free n p \<and> \<not> top_page n p) [0..<node_pages n]"

lemma count_ones_low:
  assumes "k < 64" shows "count_ones (v AND (2 ^ k - 1)) = length (filter (bit v) [0..<k])"
proof -
  have "[0..<64] = [0..<k] @ [k..<64]" using assms upt_add_eq_append [of 0 k "64 - k"] by simp
  then have "filter (bit (v AND (2 ^ k - 1))) [0..<64] = filter (bit v) [0..<k]"
    using assms by (auto simp: bit_and_iff bit_exp_minus_one intro!: filter_cong filter_False)
  then show ?thesis by (simp add: count_ones_def)
qed

lemma filter_shift:
  "length (filter P [a..<a + k]) = length (filter (\<lambda>i. P (a + i)) [0..<k])" for a k :: nat
  by (induction k) auto

lemma word_stats_eq:
  assumes "w + length vs = (pages + 63) div 64" "words = (pages + 63) div 64" "w * 64 \<le> pages"
    and "\<And>i. i < length vs \<Longrightarrow> vs ! i = m ! (w + i)"
  shows "word_stats pages words w vs =
    (length (filter (\<lambda>p. bit (m ! (p div 64)) (p mod 64) \<and> p mod 64 \<noteq> 63 \<and> Suc p \<noteq> pages)
       [w * 64..<pages]), pages - w * 64)"
  using assms
proof (induction vs arbitrary: w)
  case Nil
  then have "pages \<le> w * 64" by (auto simp: ceil_div_64 split: if_splits)
  with Nil show ?case by simp
next
  case (Cons v vs)
  let ?P = "\<lambda>p. bit (m ! (p div 64)) (p mod 64) \<and> p mod 64 \<noteq> 63 \<and> Suc p \<noteq> pages"
  define bits where "bits = min 64 (pages - w * 64)"
  have lt: "w * 64 < pages"
  proof (rule ccontr)
    assume "\<not> w * 64 < pages"
    with Cons.prems(3) have "pages = w * 64" by simp
    with Cons.prems(1) show False by simp
  qed
  have v: "v = m ! w" using Cons.prems(4) [of 0] by simp
  have b: "0 < bits" "bits \<le> 64" "w * 64 + bits \<le> pages" using lt by (auto simp: bits_def)
  have last: "bits = (if w = words - 1 then min 64 (pages - w * 64) else 64)"
  proof (cases "w = words - 1")
    case False
    then have "w + 1 < (pages + 63) div 64" using Cons.prems(1,2) by simp
    then have "w + 1 \<le> pages div 64" by (auto simp: ceil_div_64 split: if_splits)
    then have "(w + 1) * 64 \<le> pages" by (simp add: less_eq_div_iff_mult_less_eq)
    with False show ?thesis by (simp add: bits_def)
  qed (simp add: bits_def)
  have split: "[w * 64..<pages] = [w * 64..<w * 64 + bits] @ [w * 64 + bits..<pages]"
    using b upt_add_eq_append [of "w * 64" "w * 64 + bits" "pages - (w * 64 + bits)"] by simp
  have snoc: "[0..<bits] = [0..<bits - 1] @ [bits - 1]"
    using b upt_Suc_append [of 0 "bits - 1"] by simp
  define Q where "Q = (\<lambda>i. ?P (w * 64 + i))"
  have low: "Q i \<longleftrightarrow> bit v i" if "i < bits - 1" for i
    using that b v unfolding Q_def by auto
  have high: "\<not> Q (bits - 1)"
    using b unfolding Q_def by (auto simp: bits_def min_def split: if_splits)
  have "filter Q [0..<bits] = filter (bit v) [0..<bits - 1]"
    using low high by (subst snoc) (auto intro!: filter_cong)
  then have here: "length (filter ?P [w * 64..<w * 64 + bits]) = length (filter (bit v) [0..<bits - 1])"
    unfolding filter_shift Q_def by simp
  show ?case
  proof (cases "bits = 64")
    case True
    have "word_stats pages words (Suc w) vs = (length (filter ?P [Suc w * 64..<pages]), pages - Suc w * 64)"
      using Cons.prems(1-3) Cons.prems(4) [of "Suc _"] b True by (intro Cons.IH) auto
    then show ?thesis using True here last b count_ones_low [of 63 "m ! w"]
      by (simp add: split v add.commute del: upt_rec_numeral)
  next
    case False
    then have e: "w * 64 + bits = pages" using b by (auto simp: bits_def min_def split: if_splits)
    then have "vs = []"
      using Cons.prems(1) False b by (auto simp: ceil_div_64 div_less_iff_less_mult split: if_splits)
    then have "word_stats pages words w (v # vs) = (count_ones (v AND (shl64 1 (bits - 1) - 1)), bits)"
      by (subst (1 2) last) (simp only: word_stats.simps Let_def prod.case add_0)
    also have "shl64 1 (bits - 1) = 2 ^ (bits - 1)" using b by (simp add: shl64_def)
    also have "count_ones (v AND (2 ^ (bits - 1) - 1)) = length (filter (bit v) [0..<bits - 1])"
      using b by (intro count_ones_low) simp
    finally show ?thesis using here unfolding e by (simp add: e [symmetric])
  qed
qed

lemma get_stats_eq:
  "pa_inv a \<Longrightarrow> get_stats a = (sum_list (map (length \<circ> counted_free) a), sum_list (map node_pages a))"
proof (induction a)
  case (Cons n ns)
  have "word_stats (node_pages n) (length (node_map n)) 0 (node_map n) =
      (length (counted_free n), node_pages n)"
    using Cons.prems word_stats_eq [of 0 "node_map n" "node_pages n" "length (node_map n)" "node_map n"]
    by (auto simp: node_okD(3) counted_free_def page_free_def top_page_def intro!: arg_cong [where f = length] filter_cong)
  with Cons show ?case by simp
qed simp

section \<open>Reachable allocators\<close>

text \<open>
  The allocators the kernel can hold: what \<open>initialize\<close> builds from the memory map of the boot
  loader, and every state a sequence of calls of both page sizes leads to from there.
\<close>

inductive pa_reach :: "(u64 \<times> usize) list \<Rightarrow> page_allocator \<Rightarrow> bool" for regions where
  pa_init: "pa_reach regions (initialize regions)"
| pa_alloc: "pa_reach regions a \<Longrightarrow> page_alloc a sz addr = (a', r) \<Longrightarrow> pa_reach regions a'"
| pa_dealloc: "pa_reach regions a \<Longrightarrow> page_dealloc a f sz = Inr a' \<Longrightarrow> pa_reach regions a'"

lemma initialize_sets:
  assumes "memory_map_ok regions"
  shows "pa_inv (initialize regions)"
    and "pa_frames (initialize regions) = \<Union> (region_frames ` set regions)"
    and "pa_free (initialize regions) = \<Union> (region_frames ` set regions)"
  using initialize_fold [of "[]" regions 0] assms
  by (simp_all add: initialize_def Let_def pa_frames_def pa_free_def)

lemma page_alloc_inv:
  assumes "pa_inv a" "page_alloc a sz addr = (a', r)"
  shows "pa_inv a' \<and> pa_frames a' = pa_frames a"
proof (cases addr)
  case None
  then show ?thesis using assms alloc_any_Some [OF assms(1)] alloc_any_2m
    by (cases sz) (auto simp: page_alloc_def split: option.splits)
next
  case (Some f)
  show ?thesis
  proof (cases sz)
    case Size4KiB
    then show ?thesis using assms Some alloc_specific_4k [OF assms(1), of f]
      by (cases "f \<in> pa_free a") (auto simp: page_alloc_def split: if_splits)
  next
    case Size2MiB
    then show ?thesis using assms Some alloc_specific_2m_inv [OF assms(1), of f]
      by (auto simp: page_alloc_def split: if_splits option.splits)
  qed
qed

lemma frames_aligned: "pa_inv a \<Longrightarrow> f \<in> pa_frames a \<Longrightarrow> unat f mod PAGE_4K = 0"
  by (auto simp: pa_frames_def node_frames_def unat_page_addr node_okD(4) dest!: pa_invD)

section \<open>Properties\<close>

text \<open>
  C14: initialisation. From a memory map whose regions do not overlap and do not wrap, \<open>initialize\<close>
  builds an allocator that satisfies the representation invariant and in which exactly the 4 KiB
  frames lying wholly inside a region are managed, all of them free.
\<close>

theorem initialize_correct:
  assumes "memory_map_ok regions"
  shows "pa_inv (initialize regions)
    \<and> pa_frames (initialize regions) = \<Union> (region_frames ` set regions)
    \<and> pa_free (initialize regions) = pa_frames (initialize regions)"
  using initialize_sets [OF assms] by simp

theorem initialize_correct_witness:
  "memory_map_ok [(0x1000, 16384), (0x20010, 8192)]
   \<and> pa_inv (initialize [(0x1000, 16384), (0x20010, 8192)])
   \<and> map base_phys (initialize [(0x1000, 16384), (0x20010, 8192)]) = [0x21000, 0x1000]
   \<and> map node_map (initialize [(0x1000, 16384), (0x20010, 8192)]) = [[1], [15]]"
proof -
  have m: "memory_map_ok [(0x1000, 16384), (0x20010, 8192)]"
    by (simp add: region_ok_def regions_apart_def)
  moreover have "map base_phys (initialize [(0x1000, 16384), (0x20010, 8192)]) = [0x21000, 0x1000]"
    by code_simp
  moreover have "map node_map (initialize [(0x1000, 16384), (0x20010, 8192)]) = [[1], [15]]"
    by code_simp
  ultimately show ?thesis using initialize_correct [OF m] by (elim conjE) (intro conjI; assumption)
qed

text \<open>
  C16: every state the allocator reaches by calls of \<open>alloc\<close> and \<open>dealloc\<close> of either page size
  satisfies the invariant and manages exactly the frames of the memory map: no call loses a frame
  of the map, adds one, or sets a bit past the end of a region.
\<close>

theorem pa_reach_inv:
  assumes "memory_map_ok regions" "pa_reach regions a"
  shows "pa_inv a \<and> pa_frames a = \<Union> (region_frames ` set regions) \<and> pa_free a \<subseteq> pa_frames a"
proof -
  have "pa_inv a \<and> pa_frames a = \<Union> (region_frames ` set regions)" using assms(2)
  proof induction
    case pa_init
    then show ?case using initialize_sets [OF assms(1)] by simp
  next
    case (pa_alloc a sz addr a' r)
    then show ?case using page_alloc_inv [of a sz addr a' r] by simp
  next
    case (pa_dealloc a f sz a')
    then show ?case using page_dealloc_inv [of a f sz a'] by simp
  qed
  then show ?thesis using pa_free_frames [of a] by simp
qed

theorem pa_reach_inv_witness:
  "pa_reach [(0x1000, 16384)] (fst (page_alloc (initialize [(0x1000, 16384)]) Size4KiB None))
   \<and> pa_inv (fst (page_alloc (initialize [(0x1000, 16384)]) Size4KiB None))"
proof -
  have r: "pa_reach [(0x1000, 16384)] (fst (page_alloc (initialize [(0x1000, 16384)]) Size4KiB None))"
    by (rule pa_alloc [OF pa_init, where r = "snd (page_alloc (initialize [(0x1000, 16384)]) Size4KiB None)"]) simp
  moreover have "memory_map_ok [(0x1000, 16384)]" by (simp add: region_ok_def)
  ultimately show ?thesis using pa_reach_inv by blast
qed

text \<open>
  C9: a 4 KiB request for any page succeeds exactly when a frame is free; it then returns a
  page-aligned free frame and removes that frame, and only that one, from the free frames. When
  it fails the allocator is unchanged.
\<close>

theorem page_alloc_any:
  assumes "pa_inv a" "page_alloc a Size4KiB None = (a', r)"
  shows "(r = None \<longleftrightarrow> pa_free a = {}) \<and> (r = None \<longrightarrow> a' = a)
    \<and> (\<forall>f. r = Some f \<longrightarrow> f \<in> pa_free a \<and> unat f mod PAGE_4K = 0 \<and> pa_inv a'
        \<and> pa_frames a' = pa_frames a \<and> pa_free a' = pa_free a - {f})"
proof (cases r)
  case None
  then show ?thesis using pages.alloc_None [OF assms(1)] assms(2) by simp
next
  case (Some f)
  have f: "pa_inv a' \<and> pa_frames a' = pa_frames a \<and> f \<in> pa_free a \<and> pa_free a' = pa_free a - {f}"
    using pages.alloc_Some [OF assms(1)] assms(2) Some by simp
  then have "unat f mod PAGE_4K = 0" using frames_aligned [OF assms(1)] pa_free_frames by blast
  with f Some show ?thesis by auto
qed

theorem page_alloc_any_witness:
  "pa_inv (initialize [(0x1000, 16384)])
   \<and> snd (page_alloc (initialize [(0x1000, 16384)]) Size4KiB None) = Some 0x1000
   \<and> 0x1000 \<in> pa_free (initialize [(0x1000, 16384)])
   \<and> 0x1000 \<notin> pa_free (fst (page_alloc (initialize [(0x1000, 16384)]) Size4KiB None))"
proof -
  have inv: "pa_inv (initialize [(0x1000, 16384)])"
    by (rule initialize_sets) (simp add: region_ok_def)
  have r: "snd (page_alloc (initialize [(0x1000, 16384)]) Size4KiB None) = Some 0x1000"
    by code_simp
  show ?thesis using inv r
      page_alloc_any [OF inv prod.collapse [symmetric]] by auto
qed

text \<open>
  A request for one given 4 KiB page succeeds exactly when the address is page-aligned and
  the frame is free, and then takes that frame and no other; otherwise nothing changes.
\<close>

theorem page_alloc_given:
  assumes "pa_inv a" "page_alloc a Size4KiB (Some f) = (a', r)"
  shows "(f \<in> pa_free a \<longrightarrow> r = Some f \<and> pa_inv a' \<and> pa_frames a' = pa_frames a
            \<and> pa_free a' = pa_free a - {f})
    \<and> (f \<notin> pa_free a \<longrightarrow> r = None \<and> a' = a)"
proof (cases "unat f mod PAGE_4K = 0")
  case True
  show ?thesis
  proof (cases "f \<in> pa_free a")
    case free: True
    then obtain b where "alloc_specific Size4KiB f a = Some b" "pa_inv b"
        "pa_frames b = pa_frames a" "pa_free b = pa_free a - {f}"
      using alloc_specific_4k(2) [OF assms(1) True free] by blast
    with True free assms(2) show ?thesis by (simp add: page_alloc_def)
  next
    case False
    with True assms(2) alloc_specific_4k(1) [OF assms(1) True] show ?thesis
      by (simp add: page_alloc_def)
  qed
next
  case False
  then have "f \<notin> pa_free a" using frames_aligned [OF assms(1), of f] pa_free_frames [of a] by auto
  with False assms(2) show ?thesis by (simp add: page_alloc_def)
qed

theorem page_alloc_given_witness:
  "pa_inv (initialize [(0x1000, 16384)])
   \<and> snd (page_alloc (initialize [(0x1000, 16384)]) Size4KiB (Some 0x3000)) = Some 0x3000
   \<and> snd (page_alloc (initialize [(0x1000, 16384)]) Size4KiB (Some 0x5000)) = None
   \<and> 0x5000 \<notin> pa_free (initialize [(0x1000, 16384)])"
proof -
  have inv: "pa_inv (initialize [(0x1000, 16384)])"
    by (rule initialize_sets) (simp add: region_ok_def)
  have r: "snd (page_alloc (initialize [(0x1000, 16384)]) Size4KiB (Some 0x3000)) = Some 0x3000"
      "snd (page_alloc (initialize [(0x1000, 16384)]) Size4KiB (Some 0x5000)) = None"
    by code_simp+
  show ?thesis using inv r
      page_alloc_given [OF inv prod.collapse [symmetric], of "0x5000"] by auto
qed

text \<open>
  C12: giving a 4 KiB frame back. A frame of the memory map becomes free and nothing else
  changes; an address outside every region is refused with \<open>NotMapped\<close>.
\<close>

theorem page_dealloc_correct:
  assumes "pa_inv a"
  shows "(f \<in> pa_frames a \<longrightarrow> (\<exists>a'. page_dealloc a f Size4KiB = Inr a' \<and> pa_inv a'
            \<and> pa_frames a' = pa_frames a \<and> pa_free a' = insert f (pa_free a)))
    \<and> ((\<forall>n\<in>set a. \<not> in_node f n) \<longrightarrow> page_dealloc a f sz = Inl NotMapped)"
  using pages.dealloc_frame [OF assms, of f] dealloc_outside [of a f sz] by blast

theorem page_dealloc_correct_witness:
  "pa_inv (initialize [(0x1000, 16384)])
   \<and> page_dealloc (initialize [(0x1000, 16384)]) 0x9000 Size2MiB = Inl NotMapped"
proof -
  have inv: "pa_inv (initialize [(0x1000, 16384)])"
    by (rule initialize_sets) (simp add: region_ok_def)
  have "\<forall>n\<in>set (initialize [(0x1000, 16384)]). \<not> in_node 0x9000 n" by code_simp
  then show ?thesis using inv page_dealloc_correct [OF inv, of "0x9000" Size2MiB] by blast
qed

text \<open>
  C8: a client that takes frames one by one receives pairwise distinct free frames, as many as it
  asked for or as many as were free, and giving them back restores the free frames it started
  from: no frame is handed out twice and none leaks.
\<close>

theorem alloc_many_frames:
  assumes "pa_inv a" "alloc_many (\<lambda>a. page_alloc a Size4KiB None) n a = (a', fs)"
  shows "distinct fs \<and> set fs \<subseteq> pa_free a \<and> length fs = min n (card (pa_free a))
    \<and> pa_free a' = pa_free a - set fs
    \<and> (\<exists>a''. dealloc_many (\<lambda>a f. page_dealloc a f Size4KiB) fs a' = Inr a''
         \<and> pa_inv a'' \<and> pa_free a'' = pa_free a)"
  using pages.many_distinct [OF assms] pages.many_length [OF assms]
    pages.alloc_dealloc_restores [OF assms] by blast

theorem alloc_many_frames_witness:
  "pa_inv (initialize [(0x1000, 16384)])
   \<and> snd (alloc_many (\<lambda>a. page_alloc a Size4KiB None) 3 (initialize [(0x1000, 16384)])) =
       [0x1000, 0x2000, 0x3000]
   \<and> distinct (snd (alloc_many (\<lambda>a. page_alloc a Size4KiB None) 3 (initialize [(0x1000, 16384)])))"
proof -
  have inv: "pa_inv (initialize [(0x1000, 16384)])"
    by (rule initialize_sets) (simp add: region_ok_def)
  have "snd (alloc_many (\<lambda>a. page_alloc a Size4KiB None) 3 (initialize [(0x1000, 16384)])) =
      [0x1000, 0x2000, 0x3000]" by code_simp
  then show ?thesis using inv alloc_many_frames [OF inv prod.collapse [symmetric]] by blast
qed

text \<open>
  Pages of 2 MiB. A request without an address never succeeds, whatever is free, because no
  run of 512 bits lies inside one 64-bit word; and giving a 2 MiB page back frees nothing, because
  the mask of 512 bits is empty.
\<close>

theorem huge_page_limits:
  "page_alloc a Size2MiB None = (a, None)
   \<and> (page_dealloc a f Size2MiB = Inr a' \<longrightarrow> a' = a)"
proof -
  have "page_dealloc a f Size2MiB = Inr a' \<Longrightarrow> a' = a"
    by (induction a arbitrary: a')
      (auto simp: rbind_Inr_iff split: if_splits option.splits dest: release_2m)
  then show ?thesis by (simp add: page_alloc_def alloc_any_2m)
qed

theorem huge_page_limits_witness:
  "page_dealloc [\<lparr>node_virt = 0, node_map = [14], base_phys = 0x1000, region_size = 16384\<rparr>] 0x1000 Size2MiB =
     Inr [\<lparr>node_virt = 0, node_map = [14], base_phys = 0x1000, region_size = 16384\<rparr>]"
proof -
  let ?a = "[\<lparr>node_virt = 0, node_map = [14 :: u64], base_phys = 0x1000, region_size = 16384\<rparr>]"
  have "\<exists>a'. page_dealloc ?a 0x1000 Size2MiB = Inr a'"
    by (simp add: in_node_def release_def page_index_def Let_def page_step_def)
  then show ?thesis using huge_page_limits by blast
qed

text \<open>
  \<open>get_stats\<close> reports the exact number of managed pages, and of the free pages it counts those
  that are neither page 63 of a bitmap word nor the last page of their region.
\<close>

theorem get_stats_counts:
  assumes "pa_inv a"
  shows "get_stats a = (sum_list (map (length \<circ> counted_free) a), sum_list (map node_pages a))"
  by (rule get_stats_eq [OF assms])

theorem get_stats_counts_witness:
  "pa_inv (initialize [(0x1000, 16384)]) \<and> get_stats (initialize [(0x1000, 16384)]) = (3, 4)"
proof -
  have inv: "pa_inv (initialize [(0x1000, 16384)])"
    by (rule initialize_sets) (simp add: region_ok_def)
  have "sum_list (map (length \<circ> counted_free) (initialize [(0x1000, 16384)])) = 3"
      "sum_list (map node_pages (initialize [(0x1000, 16384)])) = 4"
    by code_simp+
  then show ?thesis using inv get_stats_counts [OF inv] by simp
qed

end
