(* ===== verification/Paging.thy ===== *)
theory Paging
  imports PageAlloc
begin

text \<open>
  The page mapping layer of \<open>zenos-kernel/src/memory/mod.rs\<close>: the kernel functions that take a frame
  from the page allocator and enter it in the page tables, give it back, or hand out DMA buffers.
  The page tables themselves belong to the \<open>x86_64\<close> crate; its mapper is a record of functions
  over an abstract table state.  The global \<open>ALLOCATOR\<close> is an option, empty before \<open>init\<close>.
\<close>

section \<open>Data\<close>

datatype page_type =
    Mmio
  | Identity
  | Recursive
  | Huge
  | Arbitrary
  | ArbitraryPhys u64
  | MmioRecursive

datatype map_to_error = FrameAllocationFailed | ParentEntryHugePage | PageAlreadyMapped

datatype unmap_error = UnmapParentEntryHugePage | PageNotMapped | InvalidFrameAddress

definition PRESENT :: u64 where "PRESENT = 1"
definition WRITABLE :: u64 where "WRITABLE = 2"
definition USER_ACCESSIBLE :: u64 where "USER_ACCESSIBLE = 4"
definition NO_CACHE :: u64 where "NO_CACHE = 16"
definition HUGE_PAGE :: u64 where "HUGE_PAGE = 128"
definition GLOBAL :: u64 where "GLOBAL = 256"
definition NO_EXECUTE :: u64 where "NO_EXECUTE = 0x8000000000000000"

text \<open>
  The mapper of the \<open>x86_64\<close> crate.  Mapping takes the frames of new intermediate tables from the
  allocator it is given, so it returns the allocator as well.
\<close>

record 'pt mapper =
  map_4k :: "'pt \<Rightarrow> page_allocator \<Rightarrow> u64 \<Rightarrow> u64 \<Rightarrow> u64 \<Rightarrow> u64 \<Rightarrow> 'pt \<times> page_allocator \<times> map_to_error option"
  map_2m :: "'pt \<Rightarrow> page_allocator \<Rightarrow> u64 \<Rightarrow> u64 \<Rightarrow> u64 \<Rightarrow> 'pt \<times> page_allocator \<times> map_to_error option"
  unmap_4k :: "'pt \<Rightarrow> u64 \<Rightarrow> 'pt \<times> unmap_error option"
  translate :: "'pt \<Rightarrow> u64 \<Rightarrow> u64 option"

record 'pt kmem =
  allocator :: "page_allocator option"
  tables :: 'pt
  dma_base :: u64

text \<open>\<open>PhysAddr::new\<close> panics on an address of more than 52 bits.\<close>

definition phys_addr_new :: "u64 \<Rightarrow> (map_err fault, u64) result" where
  "phys_addr_new a = (if drop_bit 52 a = 0 then Inr a else Inl Panic)"

definition init_memory :: "'pt kmem \<Rightarrow> (u64 \<times> usize) list \<Rightarrow> 'pt kmem" where
  "init_memory k regions = k\<lparr>allocator := Some (initialize regions)\<rparr>"

definition virt_to_phys :: "'pt mapper \<Rightarrow> 'pt kmem \<Rightarrow> u64 \<Rightarrow> u64 option" where
  "virt_to_phys m k virt = translate m (tables k) virt"

section \<open>Mapping a page\<close>

definition alloc_given ::
  "page_allocator \<Rightarrow> page_size \<Rightarrow> u64 \<Rightarrow> page_allocator \<times> (map_err fault, u64 option) result" where
  "alloc_given al sz addr =
    (case phys_addr_new addr of
       Inl e \<Rightarrow> (al, Inl e)
     | Inr p \<Rightarrow> (let (al', r) = page_alloc al sz (Some p) in (al', Inr r)))"

definition allocate_frame ::
  "page_allocator \<Rightarrow> u64 \<Rightarrow> page_type \<Rightarrow> page_allocator \<times> (map_err fault, u64 \<times> page_size) result" where
  "allocate_frame al virtaddr ptype =
    (let (al', addr) =
       (case ptype of
          Huge \<Rightarrow> alloc_given al Size2MiB virtaddr
        | Mmio \<Rightarrow> (al, rbind (phys_addr_new virtaddr) (\<lambda>p. Inr (Some p)))
        | Identity \<Rightarrow> alloc_given al Size4KiB virtaddr
        | Recursive \<Rightarrow> alloc_given al Size4KiB (virtaddr - HIGHER_HALF_BASE)
        | Arbitrary \<Rightarrow> (let (al', r) = page_alloc al Size4KiB None in (al', Inr r))
        | ArbitraryPhys phys \<Rightarrow> (al, Inr (Some phys))
        | MmioRecursive \<Rightarrow> (al, rbind (phys_addr_new (virtaddr - HIGHER_HALF_BASE)) (\<lambda>p. Inr (Some p))));
         sz = (case ptype of Huge \<Rightarrow> Size2MiB | _ \<Rightarrow> Size4KiB)
     in (al', rbind addr (\<lambda>a. ok_or (Fail OutOfMemory) (map_option (\<lambda>p. (p, sz)) a))))"

definition table_flags :: "u64 \<Rightarrow> u64" where
  "table_flags flags = PRESENT OR WRITABLE OR
     (if flags AND USER_ACCESSIBLE = USER_ACCESSIBLE then USER_ACCESSIBLE else 0)"

definition map_page ::
  "'pt mapper \<Rightarrow> 'pt \<Rightarrow> page_allocator \<Rightarrow> u64 \<Rightarrow> u64 \<times> page_size \<Rightarrow> u64
    \<Rightarrow> 'pt \<times> page_allocator \<times> (map_err fault, unit) result" where
  "map_page m pt al virtaddr frame flags =
    (let (phys, sz) = frame
     in case sz of
          Size2MiB \<Rightarrow>
            (let (pt', al', e) = map_2m m pt al virtaddr phys flags
             in (pt', al', case e of None \<Rightarrow> Inr () | Some _ \<Rightarrow> Inl (Fail OutOfMemory)))
        | Size4KiB \<Rightarrow>
            (let (pt', al', e) = map_4k m pt al virtaddr phys flags (table_flags flags)
             in (pt', al', case e of
                   None \<Rightarrow> Inr ()
                 | Some ParentEntryHugePage \<Rightarrow> Inr ()
                 | Some PageAlreadyMapped \<Rightarrow> Inr ()
                 | Some _ \<Rightarrow> Inl (Fail OutOfMemory))))"

text \<open>The body the three allocation functions share; they differ in the flags.\<close>

definition alloc_and_map ::
  "'pt mapper \<Rightarrow> (page_type \<Rightarrow> u64) \<Rightarrow> 'pt kmem \<Rightarrow> u64 \<Rightarrow> page_type \<Rightarrow> 'pt kmem \<times> (map_err fault, u64) result" where
  "alloc_and_map m flags k virtaddr ptype =
    (case allocator k of
       None \<Rightarrow> (k, Inl (Fail Uninitialized))
     | Some al \<Rightarrow>
         (if ptype = Huge \<and> virtaddr mod 0x200000 \<noteq> 0 then (k, Inl (Fail InvalidAlignment))
          else
            (let (al1, fr) = allocate_frame al virtaddr ptype
             in case fr of
                  Inl e \<Rightarrow> (k\<lparr>allocator := Some al1\<rparr>, Inl e)
                | Inr frame \<Rightarrow>
                    (let (pt', al2, r) = map_page m (tables k) al1 virtaddr frame (flags ptype)
                     in (k\<lparr>allocator := Some al2, tables := pt'\<rparr>, rbind r (\<lambda>_. Inr (fst frame)))))))"

definition kalloc_flags :: "page_type \<Rightarrow> u64" where
  "kalloc_flags ptype = PRESENT OR WRITABLE OR NO_EXECUTE OR
     (case ptype of Mmio \<Rightarrow> NO_CACHE | Recursive \<Rightarrow> NO_CACHE | Huge \<Rightarrow> HUGE_PAGE | _ \<Rightarrow> GLOBAL)"

definition kalloc_page :: "'pt mapper \<Rightarrow> 'pt kmem \<Rightarrow> u64 \<Rightarrow> page_type \<Rightarrow> 'pt kmem \<times> (map_err fault, u64) result" where
  "kalloc_page m = alloc_and_map m kalloc_flags"

definition user_flags :: "u64 \<Rightarrow> page_type \<Rightarrow> u64" where
  "user_flags flags ptype = (flags OR
     (case ptype of Mmio \<Rightarrow> NO_CACHE | Huge \<Rightarrow> HUGE_PAGE | _ \<Rightarrow> 0)) OR USER_ACCESSIBLE"

definition ualloc_page :: "'pt mapper \<Rightarrow> 'pt kmem \<Rightarrow> u64 \<Rightarrow> page_type \<Rightarrow> 'pt kmem \<times> (map_err fault, u64) result" where
  "ualloc_page m = alloc_and_map m (user_flags (PRESENT OR WRITABLE))"

definition ualloc_page_flags ::
  "'pt mapper \<Rightarrow> 'pt kmem \<Rightarrow> u64 \<Rightarrow> page_type \<Rightarrow> u64 \<Rightarrow> 'pt kmem \<times> (map_err fault, u64) result" where
  "ualloc_page_flags m k virtaddr ptype flags =
    alloc_and_map m (user_flags (flags OR PRESENT)) k virtaddr ptype"

section \<open>Unmapping a page\<close>

definition unmap_result :: "unmap_error option \<Rightarrow> (map_err fault, unit) result" where
  "unmap_result e = (case e of
     None \<Rightarrow> Inr () | Some UnmapParentEntryHugePage \<Rightarrow> Inr () | Some _ \<Rightarrow> Inl (Fail NotMapped))"

text \<open>Both branches of the size of the page unmap and release one 4 KiB page.\<close>

definition kfree_page :: "'pt mapper \<Rightarrow> 'pt kmem \<Rightarrow> u64 \<Rightarrow> page_type \<Rightarrow> 'pt kmem \<times> (map_err fault, unit) result" where
  "kfree_page m k virtaddr ptype =
    (case allocator k of
       None \<Rightarrow> (k, Inl (Fail Uninitialized))
     | Some al \<Rightarrow>
         (case translate m (tables k) virtaddr of
            None \<Rightarrow> (k, Inl (Fail NotMapped))
          | Some phys \<Rightarrow>
              (let (pt', e) = unmap_4k m (tables k) virtaddr
               in case page_dealloc al phys Size4KiB of
                    Inl d \<Rightarrow> (k\<lparr>tables := pt'\<rparr>, Inl (Fail d))
                  | Inr al' \<Rightarrow> (k\<lparr>allocator := Some al', tables := pt'\<rparr>, unmap_result e))))"

definition kleak_page :: "'pt mapper \<Rightarrow> 'pt kmem \<Rightarrow> u64 \<Rightarrow> page_type \<Rightarrow> 'pt kmem \<times> (map_err fault, unit) result" where
  "kleak_page m k virtaddr ptype =
    (case allocator k of
       None \<Rightarrow> (k, Inl (Fail Uninitialized))
     | Some al \<Rightarrow>
         (let (pt', e) = unmap_4k m (tables k) virtaddr in (k\<lparr>tables := pt'\<rparr>, unmap_result e)))"

definition free_phys_page :: "'pt kmem \<Rightarrow> u64 \<Rightarrow> 'pt kmem \<times> (map_err fault, unit) result" where
  "free_phys_page k phys =
    (case allocator k of
       None \<Rightarrow> (k, Inl (Fail Uninitialized))
     | Some al \<Rightarrow>
         (case page_dealloc al phys Size4KiB of
            Inl d \<Rightarrow> (k, Inl (Fail d))
          | Inr al' \<Rightarrow> (k\<lparr>allocator := Some al'\<rparr>, Inr ())))"

section \<open>DMA buffers\<close>

fun map_each :: "'pt mapper \<Rightarrow> u64 \<Rightarrow> nat list \<Rightarrow> 'pt kmem \<Rightarrow> 'pt kmem \<times> (map_err fault, unit) result" where
  "map_each m base [] k = (k, Inr ())"
| "map_each m base (i # is) k =
    (case kalloc_page m k (base + of_nat (i * 4096)) Arbitrary of
       (k', Inl e) \<Rightarrow> (k', Inl e)
     | (k', Inr _) \<Rightarrow> map_each m base is k')"

text \<open>
  The buffer is the address of its first byte and its length.  When no frame is left the function
  calls itself again on the next address range, so it may not return: \<open>None\<close>.
\<close>

partial_function (option) kalloc_dma_pages ::
  "'pt mapper \<Rightarrow> nat \<Rightarrow> 'pt kmem \<Rightarrow> ('pt kmem \<times> (map_err fault, u64 \<times> nat) result) option" where
  "kalloc_dma_pages m len k =
    (if len = 0 then Some (k, Inl (Fail NotMapped))
     else
       (let num_pages = (len + 4095) div 4096;
            virt_base = dma_base k;
            k = k\<lparr>dma_base := dma_base k + of_nat (num_pages * 4096)\<rparr>
        in case kalloc_page m k virt_base Arbitrary of
             (k', Inl e) \<Rightarrow>
               (if e = Fail OutOfMemory then kalloc_dma_pages m len k' else Some (k', Inl e))
           | (k', Inr _) \<Rightarrow>
               (case map_each m virt_base [1..<num_pages] k' of
                  (k'', Inl e) \<Rightarrow> Some (k'', Inl e)
                | (k'', Inr _) \<Rightarrow> Some (k'', Inr (virt_base, len)))))"

fun unmap_each :: "'pt mapper \<Rightarrow> u64 \<Rightarrow> nat list \<Rightarrow> 'pt kmem \<Rightarrow> 'pt kmem \<times> (map_err fault, unit) result" where
  "unmap_each m base [] k = (k, Inr ())"
| "unmap_each m base (i # is) k =
    (case kfree_page m k (base + of_nat i * 4096) Arbitrary of
       (k', Inl e) \<Rightarrow> (k', Inl e)
     | (k', Inr _) \<Rightarrow> unmap_each m base is k')"

definition kfree_dma_pages :: "'pt mapper \<Rightarrow> 'pt kmem \<Rightarrow> u64 \<times> nat \<Rightarrow> 'pt kmem \<times> (map_err fault, unit) result" where
  "kfree_dma_pages m k buf =
    (let (base_ptr, len) = buf
     in if len = 0 then (k, Inl (Fail NotMapped))
        else unmap_each m base_ptr [0..<(len + 4095) div 4096] k)"

definition get_stats_locked :: "'pt kmem \<Rightarrow> (map_err fault, nat \<times> nat) result" where
  "get_stats_locked k = (case allocator k of None \<Rightarrow> Inl (Fail Uninitialized) | Some al \<Rightarrow> Inr (get_stats al))"

section \<open>Changing the flags of a mapped page\<close>

text \<open>
  The page tables as memory: the physical address of a table and an index give the entry.  An
  entry is unused when it is zero; its address is bits 12 to 51.
\<close>

type_synonym table_mem = "u64 \<Rightarrow> nat \<Rightarrow> u64"

definition entry_addr :: "u64 \<Rightarrow> u64" where
  "entry_addr e = e AND 0x000FFFFFFFFFF000"

definition table_index :: "nat \<Rightarrow> u64 \<Rightarrow> nat" where
  "table_index level addr = unat (drop_bit (12 + 9 * (level - 1)) addr AND 511)"

definition change_flags :: "table_mem \<Rightarrow> u64 \<Rightarrow> u64 \<Rightarrow> u64 \<Rightarrow> table_mem \<times> (map_err, unit) result" where
  "change_flags tm p4 addr flags =
    (let p4e = tm p4 (table_index 4 addr);
         p3 = entry_addr p4e;
         p3e = tm p3 (table_index 3 addr)
     in if p3e = 0 then (tm, Inl NotMapped)
        else
          let p2 = entry_addr p3e;
              p2e = tm p2 (table_index 2 addr)
          in if p2e = 0 then (tm, Inl NotMapped)
             else
               let p1 = entry_addr p2e;
                   p1e = tm p1 (table_index 1 addr)
               in (tm(p1 := (tm p1)(table_index 1 addr := entry_addr p1e OR flags)), Inr ()))"

text \<open>The last-level table of an address.\<close>

definition leaf_table :: "table_mem \<Rightarrow> u64 \<Rightarrow> u64 \<Rightarrow> u64" where
  "leaf_table tm p4 a =
    entry_addr (tm (entry_addr (tm (entry_addr (tm p4 (table_index 4 a))) (table_index 3 a))) (table_index 2 a))"

lemma entry_flags:
  assumes "flags AND 0x000FFFFFFFFFF000 = 0"
  shows "entry_addr (entry_addr e OR flags) = entry_addr e"
    and "(entry_addr e OR flags) AND NOT 0x000FFFFFFFFFF000 = flags"
proof -
  define M :: u64 where "M = 0x000FFFFFFFFFF000"
  have f: "flags AND M = 0" using assms by (simp add: M_def)
  have "((e AND M) OR flags) AND M = e AND M"
    using f by (simp add: bit.conj_disj_distrib ac_simps)
  then show "entry_addr (entry_addr e OR flags) = entry_addr e" by (simp add: entry_addr_def M_def)
  have "flags AND NOT M = flags"
  proof (rule bit_word_eqI)
    fix n assume n: "n < LENGTH(64)"
    have "\<not> (bit flags n \<and> bit M n)" using arg_cong [OF f, of "\<lambda>w. bit w n"] by (simp add: bit_and_iff)
    then show "bit (flags AND NOT M) n \<longleftrightarrow> bit flags n" using n by (auto simp: bit_and_iff bit_not_iff)
  qed
  then have "((e AND M) OR flags) AND NOT M = flags"
    by (simp add: bit.conj_disj_distrib2 and.assoc)
  then show "(entry_addr e OR flags) AND NOT 0x000FFFFFFFFFF000 = flags" by (simp add: entry_addr_def M_def)
qed

section \<open>What the mapper promises\<close>

text \<open>
  The documented behaviour of the crate the theorems rely on: mapping a page takes frames out of
  the allocator and never puts one back (\<open>mapper_frames\<close>); and, for addresses whose intermediate
  tables exist, mapping an unmapped page enters it and takes no frame, translation finds it, and
  unmapping it leaves the tables as they were before (\<open>mapper_exact\<close>, over the addresses \<open>A\<close>).
\<close>

definition mapper_frames :: "'pt mapper \<Rightarrow> bool" where
  "mapper_frames m \<longleftrightarrow> (\<forall>pt al v p f tf pt' al' e. pa_inv al \<longrightarrow> map_4k m pt al v p f tf = (pt', al', e) \<longrightarrow>
     pa_inv al' \<and> pa_frames al' = pa_frames al \<and> pa_free al' \<subseteq> pa_free al)"

definition mapper_exact :: "'pt mapper \<Rightarrow> u64 set \<Rightarrow> bool" where
  "mapper_exact m A \<longleftrightarrow> (\<forall>pt al v p f tf. v \<in> A \<longrightarrow> translate m pt v = None \<longrightarrow>
     (\<exists>pt'. map_4k m pt al v p f tf = (pt', al, None) \<and> translate m pt' v = Some p
        \<and> unmap_4k m pt' v = (pt, None) \<and> (\<forall>w\<in>A. w \<noteq> v \<longrightarrow> translate m pt' w = translate m pt w)))"

lemma mapper_framesD:
  assumes "mapper_frames m" "pa_inv al" "map_4k m pt al v p f tf = (pt', al', e)"
  shows "pa_inv al'" "pa_frames al' = pa_frames al" "pa_free al' \<subseteq> pa_free al"
  using assms(1) [unfolded mapper_frames_def, rule_format, OF assms(2,3)] by auto

lemma mapper_exactD:
  assumes "mapper_exact m A" "v \<in> A" "translate m pt v = None" "map_4k m pt al v p f tf = (pt', al', e)"
  shows "al' = al" "e = None" "translate m pt' v = Some p" "unmap_4k m pt' v = (pt, None)"
    "\<forall>w\<in>A. w \<noteq> v \<longrightarrow> translate m pt' w = translate m pt w"
  using assms(1) [unfolded mapper_exact_def, rule_format, OF assms(2,3), of al p f tf] assms(4) by auto

text \<open>A page table without intermediate levels, which keeps both promises.\<close>

definition flat_mapper :: "(u64 \<Rightarrow> u64 option) mapper" where
  "flat_mapper =
    \<lparr>map_4k = (\<lambda>pt al v p f tf. if pt v = None then (pt(v := Some p), al, None) else (pt, al, Some PageAlreadyMapped)),
     map_2m = (\<lambda>pt al v p f. (pt, al, Some FrameAllocationFailed)),
     unmap_4k = (\<lambda>pt v. if pt v = None then (pt, Some PageNotMapped) else (pt(v := None), None)),
     translate = (\<lambda>pt v. pt v)\<rparr>"

lemma flat_mapper_ok: "mapper_frames flat_mapper" "mapper_exact flat_mapper A"
  by (auto simp: mapper_frames_def mapper_exact_def flat_mapper_def split: if_splits)

section \<open>Single pages\<close>

lemma kalloc_arbitrary_cases:
  assumes "allocator k = Some al" "kalloc_page m k v Arbitrary = (k', r)"
  obtains (empty) "page_alloc al Size4KiB None = (al, None)" "k' = k\<lparr>allocator := Some al\<rparr>" "r = Inl (Fail OutOfMemory)"
  | (frame) al1 p pt al2 e where "page_alloc al Size4KiB None = (al1, Some p)"
      "map_4k m (tables k) al1 v p (kalloc_flags Arbitrary) (table_flags (kalloc_flags Arbitrary)) = (pt, al2, e)"
      "k' = k\<lparr>allocator := Some al2, tables := pt\<rparr>"
      "r = (if e = Some FrameAllocationFailed then Inl (Fail OutOfMemory) else Inr p)"
proof (cases "page_alloc al Size4KiB None")
  case (Pair al1 a)
  show thesis
  proof (cases a)
    case None
    then have "al1 = al" using Pair by (simp add: page_alloc_any_cases)
    then show thesis using assms Pair None empty
      by (auto simp: kalloc_page_def alloc_and_map_def allocate_frame_def)
  next
    case (Some p)
    obtain pt al2 e where
      m: "map_4k m (tables k) al1 v p (kalloc_flags Arbitrary) (table_flags (kalloc_flags Arbitrary)) = (pt, al2, e)"
      by (metis prod_cases3)
    then have "k' = k\<lparr>allocator := Some al2, tables := pt\<rparr>"
        "r = (if e = Some FrameAllocationFailed then Inl (Fail OutOfMemory) else Inr p)"
      using assms Pair Some
      by (auto simp: kalloc_page_def alloc_and_map_def allocate_frame_def map_page_def
          split: option.splits map_to_error.splits)
    then show thesis using frame Pair Some m by blast
  qed
qed

lemma kalloc_arbitrary_frame:
  assumes "mapper_frames m" "allocator k = Some al" "pa_inv al" "kalloc_page m k v Arbitrary = (k', Inr p)"
  shows "\<exists>al'. allocator k' = Some al' \<and> pa_inv al' \<and> pa_frames al' = pa_frames al
    \<and> p \<in> pa_free al \<and> p \<notin> pa_free al' \<and> pa_free al' \<subseteq> pa_free al"
  using assms(2,4)
proof (cases rule: kalloc_arbitrary_cases)
  case (frame al1 q pt al2 e)
  then have q: "q = p" by (auto split: if_splits)
  have a: "pa_inv al1 \<and> pa_frames al1 = pa_frames al \<and> p \<in> pa_free al \<and> pa_free al1 = pa_free al - {p}"
    using pages.alloc_Some [OF assms(3) frame(1)] q by simp
  then have "pa_inv al1" by simp
  from mapper_framesD [OF assms(1) this frame(2)] a frame(3) show ?thesis by auto
qed simp

lemma kalloc_exact:
  assumes "mapper_exact m A" "v \<in> A" "allocator k = Some al" "pa_inv al" "pa_free al \<noteq> {}"
    and "translate m (tables k) v = None"
  obtains al' p pt where "kalloc_page m k v Arbitrary = (k\<lparr>allocator := Some al', tables := pt\<rparr>, Inr p)"
    "pa_inv al'" "pa_frames al' = pa_frames al" "p \<in> pa_free al" "pa_free al' = pa_free al - {p}"
    "translate m pt v = Some p" "unmap_4k m pt v = (tables k, None)"
    "\<forall>w\<in>A. w \<noteq> v \<longrightarrow> translate m pt w = translate m (tables k) w"
proof -
  obtain k' r where r: "kalloc_page m k v Arbitrary = (k', r)" by fastforce
  from assms(3) r show thesis
  proof (cases rule: kalloc_arbitrary_cases)
    case empty
    then show thesis using pages.alloc_None [OF assms(4)] assms(5) by simp
  next
    case (frame al1 q pt al2 e)
    from mapper_exactD [OF assms(1,2,6) frame(2)] show thesis
      using that [of pt al1 q] r frame pages.alloc_Some [OF assms(4) frame(1)] by simp
  qed
qed

section \<open>Ranges of pages\<close>

lemma card_minus_one: "finite S \<Longrightarrow> p \<in> S \<Longrightarrow> card (S - {p}) = card S - 1"
  by simp

lemma map_each_exact:
  assumes "mapper_exact m A" "allocator k = Some al" "pa_inv al"
    and "\<forall>i\<in>set is. base + of_nat (i * 4096) \<in> A \<and> translate m (tables k) (base + of_nat (i * 4096)) = None"
    and "distinct (map (\<lambda>i. base + of_nat (i * 4096) :: u64) is)" "length is \<le> card (pa_free al)"
  shows "\<exists>k' al'. map_each m base is k = (k', Inr ()) \<and> allocator k' = Some al' \<and> pa_inv al'
    \<and> pa_free al' \<subseteq> pa_free al \<and> card (pa_free al') = card (pa_free al) - length is \<and> dma_base k' = dma_base k"
  using assms(2-6)
proof (induction "is" arbitrary: k al)
  case (Cons i "is")
  let ?v = "base + of_nat (i * 4096)"
  have ne: "pa_free al \<noteq> {}" using Cons.prems(5) by auto
  obtain al1 p pt where s: "kalloc_page m k ?v Arbitrary = (k\<lparr>allocator := Some al1, tables := pt\<rparr>, Inr p)"
      "pa_inv al1" "p \<in> pa_free al" "pa_free al1 = pa_free al - {p}"
      "\<forall>w\<in>A. w \<noteq> ?v \<longrightarrow> translate m pt w = translate m (tables k) w"
    using kalloc_exact [OF assms(1) _ Cons.prems(1,2) ne, of ?v] Cons.prems(3) by (metis list.set_intros(1))
  have c: "card (pa_free al1) = card (pa_free al) - 1"
    unfolding s(4) using pages.finite_free [OF Cons.prems(2)] s(3) by (rule card_minus_one)
  let ?k = "k\<lparr>allocator := Some al1, tables := pt\<rparr>"
  have "\<forall>j\<in>set is. base + of_nat (j * 4096) \<in> A \<and> translate m (tables ?k) (base + of_nat (j * 4096)) = None"
  proof
    fix j assume j: "j \<in> set is"
    have "?v \<notin> (\<lambda>i. base + of_nat (i * 4096)) ` set is"
      using Cons.prems(4) by (simp only: list.map distinct.simps list.set_map not_False_eq_True)
    moreover have "base + of_nat (j * 4096) \<in> (\<lambda>i. base + of_nat (i * 4096)) ` set is"
      using j by (rule imageI)
    ultimately have "base + of_nat (j * 4096) \<noteq> ?v" by (intro notI) (simp only:)
    then show "base + of_nat (j * 4096) \<in> A \<and> translate m (tables ?k) (base + of_nat (j * 4096)) = None"
      using Cons.prems(3) s(5) j by simp
  qed
  then have "\<exists>k' al'. map_each m base is ?k = (k', Inr ()) \<and> allocator k' = Some al' \<and> pa_inv al'
      \<and> pa_free al' \<subseteq> pa_free al1 \<and> card (pa_free al') = card (pa_free al1) - length is \<and> dma_base k' = dma_base ?k"
    using Cons.prems(4,5) s(2) c by (intro Cons.IH) auto
  then show ?case using s(1,4) c by auto
qed simp

section \<open>DMA buffers\<close>

lemma kalloc_exhausted:
  assumes "allocator k = Some al" "pa_inv al" "pa_free al = {}"
  shows "kalloc_page m k v Arbitrary = (k\<lparr>allocator := Some al\<rparr>, Inl (Fail OutOfMemory))"
proof -
  obtain k' r where r: "kalloc_page m k v Arbitrary = (k', r)" by fastforce
  with assms(1) show ?thesis
  proof (cases rule: kalloc_arbitrary_cases)
    case (frame al1 p pt al2 e)
    then show ?thesis using pages.alloc_Some [OF assms(2) frame(1)] assms(3) by simp
  qed (simp add: r)
qed

lemma kalloc_dma_diverges:
  assumes "pa_inv al" "pa_free al = {}" "kalloc_dma_pages m len k = Some y"
  shows "0 < len \<longrightarrow> allocator k \<noteq> Some al"
proof (rule kalloc_dma_pages.raw_induct [OF _ assms(3)], intro impI notI)
  fix f m len y and k :: "'a kmem"
  assume IH: "\<And>m len k y. f m len k = Some y \<Longrightarrow> 0 < len \<longrightarrow> allocator k \<noteq> Some al"
    and len: "0 < len" and al: "allocator k = Some al"
    and body: "(if len = 0 then Some (k, Inl (Fail NotMapped))
       else let num_pages = (len + 4095) div PAGE_4K; virt_base = dma_base k;
                k = k\<lparr>dma_base := dma_base k + word_of_nat (num_pages * PAGE_4K)\<rparr>
            in case kalloc_page m k virt_base Arbitrary of
               (k', Inl e) \<Rightarrow> if e = Fail OutOfMemory then f m len k' else Some (k', Inl e)
             | (k', Inr x) \<Rightarrow>
                 case map_each m virt_base [1..<num_pages] k' of
                   (k'', Inl e) \<Rightarrow> Some (k'', Inl e)
                 | (k'', Inr x) \<Rightarrow> Some (k'', Inr (virt_base, len))) = Some y"
  let ?k = "k\<lparr>dma_base := dma_base k + of_nat ((len + 4095) div 4096 * 4096)\<rparr>"
  have "kalloc_page m ?k (dma_base k) Arbitrary = (?k\<lparr>allocator := Some al\<rparr>, Inl (Fail OutOfMemory))"
    by (rule kalloc_exhausted [OF _ assms(1,2)]) (simp add: al)
  then have "f m len (?k\<lparr>allocator := Some al\<rparr>) = Some y"
    using body len by (simp add: Let_def)
  from IH [OF this] len show False by simp
qed

section \<open>Properties\<close>

text \<open>
  A page mapped with \<open>PageType::Arbitrary\<close> is backed by a frame that was free, is no longer
  free, and belongs to the memory map; the allocator stays well formed, also counting the frames
  the page tables took.
\<close>

theorem kalloc_page_frame:
  assumes "mapper_frames m" "allocator k = Some al" "pa_inv al" "kalloc_page m k v Arbitrary = (k', Inr p)"
  shows "\<exists>al'. allocator k' = Some al' \<and> pa_inv al' \<and> pa_frames al' = pa_frames al
    \<and> p \<in> pa_free al \<and> p \<notin> pa_free al' \<and> pa_free al' \<subseteq> pa_free al"
  by (rule kalloc_arbitrary_frame [OF assms])

text \<open>A booted kernel on a memory map of one region of four pages.\<close>

definition small_kmem :: "(u64 \<Rightarrow> u64 option) kmem" where
  "small_kmem = init_memory \<lparr>allocator = None, tables = (\<lambda>_. None), dma_base = 0xFFFFFF0010000000\<rparr> [(0x1000, 16384)]"

lemma small_kmem_ok:
  "allocator small_kmem = Some (initialize [(0x1000, 16384)])" "pa_inv (initialize [(0x1000, 16384)])"
  "pa_free (initialize [(0x1000, 16384)]) = {0x1000, 0x2000, 0x3000, 0x4000}"
proof -
  have m: "memory_map_ok [(0x1000, 16384)]" by (simp add: region_ok_def)
  show "allocator small_kmem = Some (initialize [(0x1000, 16384)])" by (simp add: small_kmem_def init_memory_def)
  show "pa_inv (initialize [(0x1000, 16384)])" by (rule initialize_sets [OF m])
  have "f \<in> region_frames (0x1000, 16384) \<longleftrightarrow> f \<in> {0x1000, 0x2000, 0x3000, 0x4000}" for f
  proof -
    have "unat f mod 4096 = 0 \<and> 4096 \<le> unat f \<and> unat f + 4096 \<le> 20480 \<longleftrightarrow>
        unat f \<in> {4096, 8192, 12288, 16384}" by auto
    then show ?thesis by (simp add: region_frames_def word_unat_eq_iff)
  qed
  then show "pa_free (initialize [(0x1000, 16384)]) = {0x1000, 0x2000, 0x3000, 0x4000}"
    using initialize_sets(3) [OF m] by auto
qed

theorem kalloc_page_frame_witness:
  "\<exists>k' p. kalloc_page flat_mapper small_kmem 0x400000 Arbitrary = (k', Inr p)
    \<and> p \<in> {0x1000, 0x2000, 0x3000, 0x4000} \<and> (\<exists>al'. allocator k' = Some al' \<and> pa_inv al' \<and> p \<notin> pa_free al')"
proof -
  have t: "translate flat_mapper (tables small_kmem) 0x400000 = None"
    by (simp add: flat_mapper_def small_kmem_def init_memory_def)
  have ne: "pa_free (initialize [(0x1000, 16384)]) \<noteq> {}" by (simp add: small_kmem_ok(3))
  obtain al' p pt where r: "kalloc_page flat_mapper small_kmem 0x400000 Arbitrary =
      (small_kmem\<lparr>allocator := Some al', tables := pt\<rparr>, Inr p)"
    by (rule kalloc_exact [OF flat_mapper_ok(2) [of UNIV] UNIV_I small_kmem_ok(1,2) ne t])
  have "\<exists>al''. Some al' = Some al'' \<and> pa_inv al'' \<and> p \<in> {0x1000, 0x2000, 0x3000, 0x4000} \<and> p \<notin> pa_free al''"
    using kalloc_page_frame [OF flat_mapper_ok(1) small_kmem_ok(1,2) r] unfolding small_kmem_ok(3) by simp
  then have "p \<in> {0x1000, 0x2000, 0x3000, 0x4000}" "pa_inv al'" "p \<notin> pa_free al'" by blast+
  then show ?thesis unfolding r by simp
qed







text \<open>
  \<open>change_flags\<close> of a page whose upper tables are present rewrites the flags of its last-level
  entry, keeps the frame of that entry and every other entry; with an unused entry above it
  returns \<open>NotMapped\<close> and changes nothing.
\<close>

theorem change_flags_entry:
  assumes "change_flags tm p4 a flags = (tm', r)" "flags AND 0x000FFFFFFFFFF000 = 0"
  shows "(r = Inl NotMapped \<and> tm' = tm) \<or>
    (r = Inr () \<and> entry_addr (tm' (leaf_table tm p4 a) (table_index 1 a)) = entry_addr (tm (leaf_table tm p4 a) (table_index 1 a))
      \<and> tm' (leaf_table tm p4 a) (table_index 1 a) AND NOT 0x000FFFFFFFFFF000 = flags
      \<and> (\<forall>t i. (t, i) \<noteq> (leaf_table tm p4 a, table_index 1 a) \<longrightarrow> tm' t i = tm t i))"
proof (cases "r = Inr ()")
  case True
  then have t: "tm' = tm(leaf_table tm p4 a := (tm (leaf_table tm p4 a))
      (table_index 1 a := entry_addr (tm (leaf_table tm p4 a) (table_index 1 a)) OR flags))"
    using assms(1) by (simp add: change_flags_def Let_def leaf_table_def split: if_splits)
  show ?thesis unfolding t using True entry_flags [OF assms(2)] by simp
next
  case False
  then show ?thesis using assms(1) by (simp add: change_flags_def Let_def split: if_splits)
qed

theorem change_flags_entry_witness:
  "snd (change_flags (\<lambda>t i. 0x1000) 0x1000 0x400000 (PRESENT OR WRITABLE)) = Inr ()
   \<and> fst (change_flags (\<lambda>t i. 0x1000) 0x1000 0x400000 (PRESENT OR WRITABLE)) 0x1000 (table_index 1 0x400000)
       AND NOT 0x000FFFFFFFFFF000 = 3"
proof -
  have "(PRESENT OR WRITABLE) AND 0x000FFFFFFFFFF000 = 0" "PRESENT OR WRITABLE = 3"
    by (simp_all add: PRESENT_def WRITABLE_def)
  moreover have "snd (change_flags (\<lambda>t i. 0x1000) 0x1000 0x400000 (PRESENT OR WRITABLE)) = Inr ()"
    by (simp add: change_flags_def Let_def)
  moreover have "leaf_table (\<lambda>t i. 0x1000) 0x1000 0x400000 = 0x1000" by (simp add: leaf_table_def entry_addr_def)
  ultimately show ?thesis
    using change_flags_entry [OF prod.collapse [symmetric], of "PRESENT OR WRITABLE" "\<lambda>t i. 0x1000" "0x1000" "0x400000"]
    by simp
qed

end
