(* ===== verification/Dma.thy ===== *)
theory Dma
  imports Paging
begin

text \<open>
  What a driver relies on when it takes bounce buffers with \<open>kalloc_dma_pages\<close> and gives them back
  with \<open>kfree_dma_pages\<close>: the locale \<open>dma_pool\<close>, for buffers of one page, and its interpretation on the
  functions of the page mapping layer.  The state \<open>room k n bufs\<close> can serve \<open>n\<close> more buffers while
  those at the addresses \<open>bufs\<close> are in use.
\<close>

record 'k dma_ops =
  dma_alloc :: "'k \<Rightarrow> nat \<Rightarrow> ('k \<times> (map_err fault, u64 \<times> nat) result) option"
  dma_free :: "'k \<Rightarrow> u64 \<times> nat \<Rightarrow> 'k \<times> (map_err fault, unit) result"
  dma_phys :: "'k \<Rightarrow> u64 \<Rightarrow> u64 option"

definition kernel_dma :: "'pt mapper \<Rightarrow> 'pt kmem dma_ops" where
  "kernel_dma m = \<lparr>dma_alloc = (\<lambda>k len. kalloc_dma_pages m len k), dma_free = kfree_dma_pages m,
     dma_phys = virt_to_phys m\<rparr>"

locale dma_pool =
  fixes ops :: "'k dma_ops" and room :: "'k \<Rightarrow> nat \<Rightarrow> u64 set \<Rightarrow> bool"
  assumes room_mono: "room k n bufs \<Longrightarrow> n' \<le> n \<Longrightarrow> room k n' bufs"
    and alloc_room: "room k (Suc n) bufs \<Longrightarrow> 0 < len \<Longrightarrow> len \<le> 4096 \<Longrightarrow>
      \<exists>k' v p. dma_alloc ops k len = Some (k', Inr (v, len)) \<and> v \<notin> bufs \<and> room k' n (insert v bufs)
        \<and> dma_phys ops k' v = Some p"
    and free_room: "room k n bufs \<Longrightarrow> v \<in> bufs \<Longrightarrow> 0 < len \<Longrightarrow> len \<le> 4096 \<Longrightarrow>
      \<exists>k'. dma_free ops k (v, len) = (k', Inr ()) \<and> room k' n (bufs - {v})"
begin

text \<open>Taking two buffers and giving back the first, as a driver does around a transfer.\<close>

lemma alloc_alloc_free:
  assumes "room k (Suc (Suc n)) bufs" "0 < len" "len \<le> 4096" "0 < len'" "len' \<le> 4096"
  obtains k1 v p k2 v' p' k3 where "dma_alloc ops k len = Some (k1, Inr (v, len))"
    "dma_phys ops k1 v = Some p" "dma_alloc ops k1 len' = Some (k2, Inr (v', len'))" "dma_phys ops k2 v' = Some p'"
    "dma_free ops k2 (v, len) = (k3, Inr ())" "room k3 n (insert v' bufs)"
proof -
  from alloc_room [OF assms(1-3)] obtain k1 v p where a: "dma_alloc ops k len = Some (k1, Inr (v, len))"
      "v \<notin> bufs" "room k1 (Suc n) (insert v bufs)" "dma_phys ops k1 v = Some p" by (elim exE conjE)
  from alloc_room [OF a(3) assms(4,5)] obtain k2 v' p' where b: "dma_alloc ops k1 len' = Some (k2, Inr (v', len'))"
      "v' \<notin> insert v bufs" "room k2 n (insert v' (insert v bufs))" "dma_phys ops k2 v' = Some p'" by (elim exE conjE)
  from free_room [OF b(3) _ assms(2,3), of v] obtain k3 where c: "dma_free ops k2 (v, len) = (k3, Inr ())"
      "room k3 n (insert v' (insert v bufs) - {v})" by auto
  have "insert v' (insert v bufs) - {v} = insert v' bufs" using a(2) b(2) by auto
  with c have "room k3 n (insert v' bufs)" by simp
  with a b c show ?thesis using that by simp
qed

end

text \<open>
  The documented behaviour of the mapper this rests on, besides \<open>mapper_exact\<close>: unmapping a mapped
  page removes that page and no other.
\<close>

definition mapper_unmaps :: "'pt mapper \<Rightarrow> u64 set \<Rightarrow> bool" where
  "mapper_unmaps m A \<longleftrightarrow> (\<forall>pt v p. v \<in> A \<longrightarrow> translate m pt v = Some p \<longrightarrow>
     (\<exists>pt'. unmap_4k m pt v = (pt', None) \<and> translate m pt' v = None
        \<and> (\<forall>w\<in>A. w \<noteq> v \<longrightarrow> translate m pt' w = translate m pt w)))"

lemma mapper_unmapsD:
  assumes "mapper_unmaps m A" "v \<in> A" "translate m pt v = Some p"
  obtains pt' where "unmap_4k m pt v = (pt', None)" "translate m pt' v = None"
    "\<forall>w\<in>A. w \<noteq> v \<longrightarrow> translate m pt' w = translate m pt w"
  using assms(1) [unfolded mapper_unmaps_def, rule_format, OF assms(2,3)] by (elim exE conjE)

lemma flat_mapper_unmaps: "mapper_unmaps flat_mapper A"
  by (auto simp: mapper_unmaps_def flat_mapper_def)

text \<open>The frames of the buffers in use are allocated, and no two buffers share one.\<close>

definition bufs_mapped :: "'pt mapper \<Rightarrow> u64 set \<Rightarrow> 'pt \<Rightarrow> page_allocator \<Rightarrow> u64 set \<Rightarrow> bool" where
  "bufs_mapped m A pt al bufs \<longleftrightarrow> bufs \<subseteq> A \<and> inj_on (translate m pt) bufs
     \<and> (\<forall>v\<in>bufs. \<exists>p. translate m pt v = Some p \<and> p \<in> pa_frames al - pa_free al)"

definition dma_room :: "'pt mapper \<Rightarrow> u64 set \<Rightarrow> 'pt kmem \<Rightarrow> nat \<Rightarrow> u64 set \<Rightarrow> bool" where
  "dma_room m A k n bufs \<longleftrightarrow> mapper_exact m A \<and> mapper_unmaps m A \<and> n < 2 ^ 52
     \<and> (\<forall>i<n. dma_base k + of_nat (i * 4096) \<in> A \<and> translate m (tables k) (dma_base k + of_nat (i * 4096)) = None)
     \<and> (\<exists>al. allocator k = Some al \<and> pa_inv al \<and> n \<le> card (pa_free al) \<and> bufs_mapped m A (tables k) al bufs)"

lemma dma_roomD:
  assumes "dma_room m A k n bufs"
  obtains al where "mapper_exact m A" "mapper_unmaps m A" "n < 2 ^ 52"
    "\<forall>i<n. dma_base k + of_nat (i * 4096) \<in> A"
    "\<forall>i<n. translate m (tables k) (dma_base k + of_nat (i * 4096)) = None"
    "allocator k = Some al" "pa_inv al" "n \<le> card (pa_free al)" "bufs_mapped m A (tables k) al bufs"
  using assms unfolding dma_room_def by auto

lemma kalloc_dma_one_page:
  assumes "0 < len" "len \<le> 4096"
    and "kalloc_page m (k\<lparr>dma_base := dma_base k + 4096\<rparr>) (dma_base k) Arbitrary = (k', Inr p)"
  shows "kalloc_dma_pages m len k = Some (k', Inr (dma_base k, len))"
proof -
  have "(len + 4095) div 4096 = 1" using assms(1,2) by (intro div_nat_eqI) auto
  then show ?thesis using assms by (subst kalloc_dma_pages.simps) (simp add: Let_def)
qed

lemma dma_room_alloc:
  assumes "dma_room m A k (Suc n) bufs" "0 < len" "len \<le> 4096"
  shows "\<exists>k' v p. kalloc_dma_pages m len k = Some (k', Inr (v, len)) \<and> v \<notin> bufs
    \<and> dma_room m A k' n (insert v bufs) \<and> virt_to_phys m k' v = Some p"
proof -
  from assms(1) obtain al where R: "mapper_exact m A" "mapper_unmaps m A" "Suc n < 2 ^ 52"
    "\<forall>i<Suc n. dma_base k + of_nat (i * 4096) \<in> A"
    "\<forall>i<Suc n. translate m (tables k) (dma_base k + of_nat (i * 4096)) = None"
    "allocator k = Some al" "pa_inv al" "Suc n \<le> card (pa_free al)" "bufs_mapped m A (tables k) al bufs"
    by (rule dma_roomD)
  define v where "v = dma_base k"
  have v: "v \<in> A" "translate m (tables k) v = None" using R(4,5) [rule_format, of 0] by (simp_all add: v_def)
  have nb: "v \<notin> bufs" using v(2) R(9) by (auto simp: bufs_mapped_def)
  let ?k = "k\<lparr>dma_base := dma_base k + 4096\<rparr>"
  have ne: "pa_free al \<noteq> {}" using R(8) by auto
  have k': "allocator ?k = Some al" "translate m (tables ?k) v = None" using R(6) v(2) by simp_all
  obtain al' p pt where s: "kalloc_page m ?k v Arbitrary = (?k\<lparr>allocator := Some al', tables := pt\<rparr>, Inr p)"
    "pa_inv al'" "pa_frames al' = pa_frames al" "p \<in> pa_free al" "pa_free al' = pa_free al - {p}"
    "translate m pt v = Some p" "\<forall>w\<in>A. w \<noteq> v \<longrightarrow> translate m pt w = translate m (tables ?k) w"
    by (rule kalloc_exact [OF R(1) v(1) k'(1) R(7) ne k'(2)])
  have keep: "translate m pt w = translate m (tables k) w" if "w \<in> A" "w \<noteq> v" for w using s(7) that by simp
  have "card (pa_free al') = card (pa_free al) - 1"
    unfolding s(5) using pages.finite_free [OF R(7)] s(4) by (rule card_minus_one)
  then have c: "n \<le> card (pa_free al')" using R(8) by simp
  have fresh: "dma_base k + 4096 + of_nat (i * 4096) \<in> A \<and> translate m pt (dma_base k + 4096 + of_nat (i * 4096)) = None"
    if "i < n" for i
  proof -
    have eq: "dma_base k + 4096 + of_nat (i * 4096) = dma_base k + of_nat (Suc i * 4096)" by (simp add: algebra_simps)
    have "unat (of_nat (Suc i * 4096) :: u64) = Suc i * 4096" using that R(3) by (intro unat_of_nat64) simp
    then have "(of_nat (Suc i * 4096) :: u64) \<noteq> 0" by (metis mult_is_0 nat.distinct(1) unat_0 zero_neq_numeral)
    then have "dma_base k + of_nat (Suc i * 4096) \<noteq> v" by (simp add: v_def)
    then show ?thesis unfolding eq using R(4,5) [rule_format, of "Suc i"] that keep by (metis Suc_less_eq)
  qed
  have bm: "bufs_mapped m A pt al' (insert v bufs)"
    unfolding bufs_mapped_def
  proof (intro conjI ballI)
    have sub: "bufs \<subseteq> A" using R(9) by (simp add: bufs_mapped_def)
    then show "insert v bufs \<subseteq> A" using v(1) by simp
    have old: "\<exists>q. translate m pt w = Some q \<and> translate m (tables k) w = Some q \<and> q \<in> pa_frames al - pa_free al"
      if "w \<in> bufs" for w
      using R(9) that keep [of w] sub nb unfolding bufs_mapped_def by (metis subsetD)
    have "inj_on (translate m pt) bufs" using R(9) old unfolding bufs_mapped_def inj_on_def by metis
    moreover have "translate m pt v \<notin> translate m pt ` (bufs - {v})" using old s(4,6) by force
    ultimately show "inj_on (translate m pt) (insert v bufs)" by simp
    fix w assume "w \<in> insert v bufs"
    then show "\<exists>q. translate m pt w = Some q \<and> q \<in> pa_frames al' - pa_free al'"
      using old [of w] s(3-6) pages.free_frames [OF R(7)] by auto
  qed
  have "dma_room m A (?k\<lparr>allocator := Some al', tables := pt\<rparr>) n (insert v bufs)"
    unfolding dma_room_def using R(1-3) fresh s(2) c bm by simp
  moreover have "kalloc_dma_pages m len k = Some (?k\<lparr>allocator := Some al', tables := pt\<rparr>, Inr (v, len))"
    unfolding v_def using assms(2,3) s(1) [unfolded v_def] by (rule kalloc_dma_one_page)
  ultimately show ?thesis using s(6) nb by (intro exI [of _ p] exI [of _ v] exI conjI) (auto simp: virt_to_phys_def)
qed

lemma dma_room_free:
  assumes "dma_room m A k n bufs" "v \<in> bufs" "0 < len" "len \<le> 4096"
  shows "\<exists>k'. kfree_dma_pages m k (v, len) = (k', Inr ()) \<and> dma_room m A k' n (bufs - {v})"
proof -
  from assms(1) obtain al where R: "mapper_exact m A" "mapper_unmaps m A" "n < 2 ^ 52"
    "\<forall>i<n. dma_base k + of_nat (i * 4096) \<in> A"
    "\<forall>i<n. translate m (tables k) (dma_base k + of_nat (i * 4096)) = None"
    "allocator k = Some al" "pa_inv al" "n \<le> card (pa_free al)" "bufs_mapped m A (tables k) al bufs"
    by (rule dma_roomD)
  obtain p where p: "v \<in> A" "translate m (tables k) v = Some p" "p \<in> pa_frames al - pa_free al"
    using R(9) assms(2) by (auto simp: bufs_mapped_def)
  obtain pt where u: "unmap_4k m (tables k) v = (pt, None)" "translate m pt v = None"
    "\<forall>w\<in>A. w \<noteq> v \<longrightarrow> translate m pt w = translate m (tables k) w"
    by (rule mapper_unmapsD [OF R(2) p(1,2)])
  from pages.dealloc_used [OF R(7) p(3)] obtain al' where d: "page_dealloc al p Size4KiB = Inr al'" "pa_inv al'"
    "pa_frames al' = pa_frames al" "pa_free al' = insert p (pa_free al)" by (elim exE conjE)
  let ?k = "k\<lparr>allocator := Some al', tables := pt\<rparr>"
  have "(len + 4095) div 4096 = 1" using assms(3,4) by (intro div_nat_eqI) auto
  then have "kfree_dma_pages m k (v, len) = (?k, Inr ())"
    using assms(3) R(6) p(2) u(1) d(1) by (simp add: kfree_dma_pages_def kfree_page_def unmap_result_def)
  moreover have "dma_room m A ?k n (bufs - {v})"
    unfolding dma_room_def
  proof (intro conjI allI impI)
    show "mapper_exact m A" "mapper_unmaps m A" "n < 2 ^ 52" using R by simp_all
    have "card (pa_free al) \<le> card (pa_free al')"
      unfolding d(4) using pages.finite_free [OF R(7)] by (intro card_mono) auto
    moreover have "bufs_mapped m A pt al' (bufs - {v})"
      unfolding bufs_mapped_def
    proof (intro conjI ballI)
      have same: "translate m pt w = translate m (tables k) w" if "w \<in> bufs - {v}" for w
        using u(3) R(9) that unfolding bufs_mapped_def by blast
      show "bufs - {v} \<subseteq> A" using R(9) by (auto simp: bufs_mapped_def)
      have inj: "inj_on (translate m (tables k)) bufs" using R(9) by (simp add: bufs_mapped_def)
      then have "inj_on (translate m (tables k)) (bufs - {v})" by (rule inj_on_subset) auto
      then show "inj_on (translate m pt) (bufs - {v})" using same by (subst inj_on_cong [where g = "translate m (tables k)"])
      fix w assume w: "w \<in> bufs - {v}"
      then obtain q where q: "translate m (tables k) w = Some q" "q \<in> pa_frames al - pa_free al"
        using R(9) by (auto simp: bufs_mapped_def)
      moreover have "q \<noteq> p" using inj_onD [OF inj, of w v] w assms(2) q(1) p(2) by auto
      ultimately show "\<exists>q. translate m pt w = Some q \<and> q \<in> pa_frames al' - pa_free al'"
        using same [OF w] d(3,4) by simp
    qed
    ultimately show "\<exists>al. allocator ?k = Some al \<and> pa_inv al \<and> n \<le> card (pa_free al) \<and> bufs_mapped m A (tables ?k) al (bufs - {v})"
      using d(2) R(8) by simp
    fix i assume i: "i < n"
    show "dma_base ?k + of_nat (i * 4096) \<in> A" using R(4) [rule_format, OF i] by simp
    have "dma_base k + of_nat (i * 4096) \<noteq> v" using R(5) [rule_format, OF i] p(2) by auto
    then show "translate m (tables ?k) (dma_base ?k + of_nat (i * 4096)) = None"
      using u(3) R(4,5) [rule_format, OF i] by simp
  qed
  ultimately show ?thesis by blast
qed

interpretation kdma: dma_pool "kernel_dma m" "dma_room m A" for m A
proof
  fix k n n' bufs v len
  show "dma_room m A k n bufs \<Longrightarrow> n' \<le> n \<Longrightarrow> dma_room m A k n' bufs"
    unfolding dma_room_def by auto
  show "dma_room m A k (Suc n) bufs \<Longrightarrow> 0 < len \<Longrightarrow> len \<le> 4096 \<Longrightarrow>
      \<exists>k' v p. dma_alloc (kernel_dma m) k len = Some (k', Inr (v, len)) \<and> v \<notin> bufs
        \<and> dma_room m A k' n (insert v bufs) \<and> dma_phys (kernel_dma m) k' v = Some p"
    unfolding kernel_dma_def dma_ops.simps by (rule dma_room_alloc)
  show "dma_room m A k n bufs \<Longrightarrow> v \<in> bufs \<Longrightarrow> 0 < len \<Longrightarrow> len \<le> 4096 \<Longrightarrow>
      \<exists>k'. dma_free (kernel_dma m) k (v, len) = (k', Inr ()) \<and> dma_room m A k' n (bufs - {v})"
    unfolding kernel_dma_def dma_ops.simps by (rule dma_room_free)
qed

end
