(* ===== verification/Ahci.thy ===== *)
theory Ahci
  imports BlockDev Dma
begin

text \<open>
  The AHCI driver of \<open>zenos-kernel/src/disk/block/ahci.rs\<close>.  The controller is a record of functions
  over an abstract hardware state: reading and writing a memory-mapped register, and the passing of
  time while the calling process is blocked; each may also change the memory the controller reaches
  by DMA.  That memory holds the command headers and command tables, by the address of the
  structure, and the DMA pages, by their physical address.  \<open>drive_ok\<close> is what the AHCI
  specification promises of a working drive.
\<close>

section \<open>Hardware structures\<close>

record cmd_header =
  hdr_flags :: u16
  prdtl :: u16
  prdbc :: u32
  ctba :: u32
  ctbau :: u32

record prdt_entry =
  dba :: u32
  dbau :: u32
  dbc :: u32

record reg_fis =
  fis_type :: u8
  pmport :: u8
  command :: u8
  featurel :: u8
  lba0 :: u8
  lba1 :: u8
  lba2 :: u8
  fis_device :: u8
  lba3 :: u8
  lba4 :: u8
  lba5 :: u8
  featureh :: u8
  countl :: u8
  counth :: u8
  icc :: u8
  control :: u8

text \<open>The ATAPI command, the reserved bytes and the entries after the first are never used.\<close>

record cmd_table =
  cfis :: reg_fis
  prdt0 :: prdt_entry

record cmd_mem =
  cmd_headers :: "u64 \<Rightarrow> cmd_header"
  cmd_tables :: "u64 \<Rightarrow> cmd_table"
  dma_mem :: "u64 \<Rightarrow> bytes"

record 'h hba =
  reg_read :: "'h \<times> cmd_mem \<Rightarrow> u64 \<Rightarrow> ('h \<times> cmd_mem) \<times> u32"
  reg_write :: "'h \<times> cmd_mem \<Rightarrow> u64 \<Rightarrow> u32 \<Rightarrow> 'h \<times> cmd_mem"
  time_passes :: "'h \<times> cmd_mem \<Rightarrow> 'h \<times> cmd_mem"

definition READ_DMA_EXT :: u8 where "READ_DMA_EXT = 0x25"
definition WRITE_DMA_EXT :: u8 where "WRITE_DMA_EXT = 0x35"
definition DEVICE_LBA :: u8 where "DEVICE_LBA = 0x40"
definition PORTS_IMPLEMENTED :: u64 where "PORTS_IMPLEMENTED = 0x0C"
definition CLB :: u64 where "CLB = 0x00"
definition CLBU :: u64 where "CLBU = 0x04"
definition FB :: u64 where "FB = 0x08"
definition FBU :: u64 where "FBU = 0x0C"
definition IS :: u64 where "IS = 0x10"
definition CMD :: u64 where "CMD = 0x18"
definition TFD :: u64 where "TFD = 0x20"
definition SSTS :: u64 where "SSTS = 0x28"
definition SERR :: u64 where "SERR = 0x30"
definition CI :: u64 where "CI = 0x38"
definition CMD_ST :: u32 where "CMD_ST = 1"
definition CMD_FRE :: u32 where "CMD_FRE = 0x10"
definition CMD_FR :: u32 where "CMD_FR = 0x4000"
definition CMD_CR :: u32 where "CMD_CR = 0x8000"
definition IS_TFES :: u32 where "IS_TFES = 0x40000000"
definition TFD_ERR :: u32 where "TFD_ERR = 1"
definition PRDT_IOC :: u32 where "PRDT_IOC = 0x80000000"
definition CMD_WRITE :: u16 where "CMD_WRITE = 0x40"
definition TIMEOUT_MAX :: nat where "TIMEOUT_MAX = 10000000"
definition AHCI_VIRT_BASE :: u64 where "AHCI_VIRT_BASE = 0xFFFFFF0000000000 + 0x20000000"

definition set_command_table_addr :: "cmd_header \<Rightarrow> u64 \<Rightarrow> cmd_header" where
  "set_command_table_addr h addr = h\<lparr>ctba := ucast addr, ctbau := ucast (drop_bit 32 addr)\<rparr>"

definition command_table_addr :: "cmd_header \<Rightarrow> u64" where
  "command_table_addr h = ucast (ctba h) OR push_bit 32 (ucast (ctbau h))"

definition set_data_addr :: "prdt_entry \<Rightarrow> u64 \<Rightarrow> prdt_entry" where
  "set_data_addr e addr = e\<lparr>dba := ucast (addr AND 0xFFFFFFFF), dbau := ucast (drop_bit 32 addr AND 0xFFFFFFFF)\<rparr>"

definition new_dma_command :: "u64 \<Rightarrow> u16 \<Rightarrow> bool \<Rightarrow> reg_fis" where
  "new_dma_command lba count write =
    \<lparr>fis_type = 0x27, pmport = 0x80, command = (if write then WRITE_DMA_EXT else READ_DMA_EXT), featurel = 0,
     lba0 = ucast (lba AND 0xFF), lba1 = ucast (drop_bit 8 lba AND 0xFF), lba2 = ucast (drop_bit 16 lba AND 0xFF),
     fis_device = DEVICE_LBA,
     lba3 = ucast (drop_bit 24 lba AND 0xFF), lba4 = ucast (drop_bit 32 lba AND 0xFF), lba5 = ucast (drop_bit 40 lba AND 0xFF),
     featureh = 0, countl = ucast (count AND 0xFF), counth = ucast (drop_bit 8 count AND 0xFF), icc = 0, control = 0\<rparr>"

definition prdt_mask_bytecount :: "u32 \<Rightarrow> u32" where
  "prdt_mask_bytecount n = n AND 0x003FFFFF"

section \<open>Ports\<close>

record port_info =
  port_base :: u64
  port_phys_offset :: u64
  virt_cmd_list :: u64
  virt_cmd_tables_base :: u64

text \<open>
  The state of the driver: the hardware with the memory it shares, the kernel memory, the flag
  \<open>AHCI_BLOCKED\<close>, the global \<open>PORTS\<close>, and the port and the cursor of the \<open>AhciBlockDevice\<close>.  Its
  \<open>sector_size\<close> is the constant \<open>SECTOR_SIZE\<close>, 512.
\<close>

record ('h, 'k) ahci =
  hw :: "'h \<times> cmd_mem"
  kmemory :: 'k
  ahci_blocked :: bool
  ports :: "port_info list option"
  dev_port :: u64
  cursor :: u64

definition header_addr :: "port_info \<Rightarrow> nat \<Rightarrow> u64" where
  "header_addr p slot = virt_cmd_list p + of_nat slot * 32"

definition table_addr :: "port_info \<Rightarrow> nat \<Rightarrow> u64" where
  "table_addr p slot = virt_cmd_tables_base p + of_nat slot * 4096"

definition read_reg :: "'h hba \<Rightarrow> port_info \<Rightarrow> ('h, 'k) ahci \<Rightarrow> u64 \<Rightarrow> ('h, 'k) ahci \<times> u32" where
  "read_reg H p d off = (let (s, v) = reg_read H (hw d) (port_base p + off) in (d\<lparr>hw := s\<rparr>, v))"

definition write_reg :: "'h hba \<Rightarrow> port_info \<Rightarrow> ('h, 'k) ahci \<Rightarrow> u64 \<Rightarrow> u32 \<Rightarrow> ('h, 'k) ahci" where
  "write_reg H p d off v = d\<lparr>hw := reg_write H (hw d) (port_base p + off) v\<rparr>"

definition update_mem :: "(cmd_mem \<Rightarrow> cmd_mem) \<Rightarrow> ('h, 'k) ahci \<Rightarrow> ('h, 'k) ahci" where
  "update_mem f d = d\<lparr>hw := apsnd f (hw d)\<rparr>"

text \<open>Spinning until a bit of the command register is clear; \<open>None\<close> when it never is.\<close>

partial_function (option) wait_clear :: "'h hba \<Rightarrow> port_info \<Rightarrow> u32 \<Rightarrow> ('h, 'k) ahci \<Rightarrow> ('h, 'k) ahci option" where
  "wait_clear H p b d =
    (let (d', v) = read_reg H p d CMD
     in if v AND b \<noteq> 0 then wait_clear H p b d' else Some d')"

definition port_stop :: "'h hba \<Rightarrow> port_info \<Rightarrow> ('h, 'k) ahci \<Rightarrow> ('h, 'k) ahci option" where
  "port_stop H p d =
    (let (d, cmd) = read_reg H p d CMD;
         d = write_reg H p d CMD (cmd AND NOT CMD_ST)
     in case wait_clear H p CMD_CR d of
          None \<Rightarrow> None
        | Some d \<Rightarrow>
            (let (d, cmd) = read_reg H p d CMD;
                 d = write_reg H p d CMD (cmd AND NOT CMD_FRE)
             in wait_clear H p CMD_FR d))"

definition port_start :: "'h hba \<Rightarrow> port_info \<Rightarrow> ('h, 'k) ahci \<Rightarrow> ('h, 'k) ahci" where
  "port_start H p d =
    (let (d, cmd) = read_reg H p d CMD;
         d = write_reg H p d CMD (cmd OR CMD_FRE);
         (d, cmd) = read_reg H p d CMD
     in write_reg H p d CMD (cmd OR CMD_ST))"

definition has_drive :: "'h hba \<Rightarrow> port_info \<Rightarrow> ('h, 'k) ahci \<Rightarrow> ('h, 'k) ahci \<times> bool" where
  "has_drive H p d =
    (let (d, ssts) = read_reg H p d SSTS;
         det = ssts AND 0xF;
         ipm = drop_bit 8 ssts AND 0xF
     in (d, det = 3 \<and> ipm = 1))"

definition allocate_slot :: "'h hba \<Rightarrow> port_info \<Rightarrow> ('h, 'k) ahci \<Rightarrow> ('h, 'k) ahci \<times> nat option" where
  "allocate_slot H p d =
    (let (d, ci) = read_reg H p d CI
     in (d, List.find (\<lambda>slot. ci AND push_bit slot 1 = 0) [0..<32]))"

definition clear_errors :: "'h hba \<Rightarrow> port_info \<Rightarrow> ('h, 'k) ahci \<Rightarrow> ('h, 'k) ahci" where
  "clear_errors H p d =
    (let d = write_reg H p d IS 0xFFFFFFFF
     in write_reg H p d SERR 0xFFFFFFFF)"

text \<open>The polling loop: at most \<open>TIMEOUT_MAX\<close> rounds.  \<open>in_process\<close> is \<open>has_current_process\<close>.\<close>

primrec wait_loop :: "'h hba \<Rightarrow> bool \<Rightarrow> port_info \<Rightarrow> nat \<Rightarrow> nat \<Rightarrow> ('h, 'k) ahci \<Rightarrow> ('h, 'k) ahci \<times> (unit fault, unit) result" where
  "wait_loop H in_process p slot 0 d = (d, Inl (Fail ()))"
| "wait_loop H in_process p slot (Suc n) d =
    (let (d, ci) = read_reg H p d CI
     in if ci AND push_bit slot 1 = 0 then (d, Inr ())
        else
          (let (d, is) = read_reg H p d IS
           in if is AND IS_TFES \<noteq> 0 then
                (let (d, serr) = read_reg H p d SERR;
                     d = write_reg H p d IS is;
                     d = write_reg H p d SERR serr
                 in (d, Inl (Fail ())))
              else wait_loop H in_process p slot n
                     (if in_process then d\<lparr>ahci_blocked := True, hw := time_passes H (hw d)\<rparr> else d)))"

definition wait_for_completion where
  "wait_for_completion H in_process p slot = wait_loop H in_process p slot TIMEOUT_MAX"

text \<open>Buffers from the kernel.  Running out of frames never returns: the recursion of
  \<open>kalloc_dma_pages\<close> exhausts the stack, which is a crash like a panic.\<close>

definition dma_take :: "'k dma_ops \<Rightarrow> 'e \<Rightarrow> nat \<Rightarrow> ('h, 'k) ahci \<Rightarrow> ('h, 'k) ahci \<times> ('e fault, u64 \<times> nat) result" where
  "dma_take D err len d =
    (case dma_alloc D (kmemory d) len of
       None \<Rightarrow> (d, Inl Panic)
     | Some (k, r) \<Rightarrow> (d\<lparr>kmemory := k\<rparr>, map_fail (\<lambda>_. err) r))"

definition dma_give :: "'k dma_ops \<Rightarrow> 'e \<Rightarrow> u64 \<times> nat \<Rightarrow> ('h, 'k) ahci \<Rightarrow> ('h, 'k) ahci \<times> ('e fault, unit) result" where
  "dma_give D err buf d =
    (let (k, r) = dma_free D (kmemory d) buf in (d\<lparr>kmemory := k\<rparr>, map_fail (\<lambda>_. err) r))"

text \<open>
  Issuing a command.  The result is the contents of the caller's buffer afterwards.
\<close>

definition set_header :: "u64 \<Rightarrow> (cmd_header \<Rightarrow> cmd_header) \<Rightarrow> cmd_mem \<Rightarrow> cmd_mem" where
  "set_header a f m = m\<lparr>cmd_headers := (cmd_headers m)(a := f (cmd_headers m a))\<rparr>"

definition set_table :: "u64 \<Rightarrow> (cmd_table \<Rightarrow> cmd_table) \<Rightarrow> cmd_mem \<Rightarrow> cmd_mem" where
  "set_table a f m = m\<lparr>cmd_tables := (cmd_tables m)(a := f (cmd_tables m a))\<rparr>"

definition set_page :: "u64 \<Rightarrow> bytes \<Rightarrow> cmd_mem \<Rightarrow> cmd_mem" where
  "set_page a bs m = m\<lparr>dma_mem := (dma_mem m)(a := bs)\<rparr>"

definition command_flags :: "bool \<Rightarrow> u16" where
  "command_flags write = (5 AND 0x1F) OR (if write then CMD_WRITE else 0)"

definition fill_prdt :: "u64 \<Rightarrow> nat \<Rightarrow> cmd_table \<Rightarrow> cmd_table" where
  "fill_prdt phys total_bytes t =
    t\<lparr>prdt0 := (set_data_addr (prdt0 t) phys)\<lparr>dbc := prdt_mask_bytecount (of_nat total_bytes - 1) OR PRDT_IOC\<rparr>\<rparr>"

definition issue_command ::
  "'h hba \<Rightarrow> bool \<Rightarrow> port_info \<Rightarrow> nat \<Rightarrow> u64 \<Rightarrow> bytes \<Rightarrow> nat \<Rightarrow> bool \<Rightarrow> ('h, 'k) ahci \<Rightarrow> ('h, 'k) ahci \<times> (unit fault, bytes) result" where
  "issue_command H in_process p slot phys buf total_bytes write d =
    (let (d, cmd_status) = read_reg H p d CMD
     in if cmd_status AND CMD_ST = 0 then (d, Inl (Fail ()))
        else
          (let d = write_reg H p d CI (push_bit slot 1);
               (d, res) = wait_for_completion H in_process p slot d;
               buf' = (if res = Inr () \<and> \<not> write then take total_bytes (dma_mem (snd (hw d)) phys) else buf);
               (d, tfd) = read_reg H p d TFD
           in if tfd AND TFD_ERR \<noteq> 0 then
                (let (d, is) = read_reg H p d IS;
                     (d, serr) = read_reg H p d SERR;
                     d = write_reg H p d IS is;
                     d = write_reg H p d SERR serr
                 in (d, Inl (Fail ())))
              else (d, rbind res (\<lambda>_. Inr buf'))))"

definition send_command ::
  "'h hba \<Rightarrow> 'k dma_ops \<Rightarrow> bool \<Rightarrow> port_info \<Rightarrow> u64 \<Rightarrow> bytes \<Rightarrow> u16 \<Rightarrow> bool \<Rightarrow> ('h, 'k) ahci
    \<Rightarrow> ('h, 'k) ahci \<times> (unit fault, bytes) result" where
  "send_command H D in_process p lba buf sector_count write d =
    (let d = clear_errors H p d;
         (d, free_slot) = allocate_slot H p d
     in case free_slot of
          None \<Rightarrow> (d, Inl (Fail ()))
        | Some slot \<Rightarrow>
            (let d = update_mem (set_header (header_addr p slot)
                       (\<lambda>h. h\<lparr>hdr_flags := command_flags write, prdtl := 0, prdbc := 0\<rparr>)) d;
                 d = update_mem (set_table (table_addr p slot)
                       (\<lambda>t. t\<lparr>cfis := new_dma_command lba sector_count write\<rparr>)) d;
                 total_bytes = unat sector_count * 512
             in if total_bytes = 0 \<or> total_bytes > 4096 then (d, Inl (Fail ()))
                else
                  sbind (dma_take D () total_bytes d) (\<lambda>d dma_buf.
                    case dma_phys D (kmemory d) (fst dma_buf) of
                      None \<Rightarrow> (d, Inl Panic)
                    | Some phys \<Rightarrow>
                        (let page = (if write then splice 0 (take total_bytes buf) (replicate 4096 0) else replicate 4096 0);
                             d = update_mem (set_page phys page) d;
                             d = update_mem (set_table (table_addr p slot) (fill_prdt phys total_bytes)) d;
                             d = update_mem (set_header (header_addr p slot) (\<lambda>h. h\<lparr>prdtl := 1\<rparr>)) d
                         in issue_command H in_process p slot phys buf total_bytes write d))))"

definition read_sectors where
  "read_sectors H D in_process p lba buf count = send_command H D in_process p lba buf count False"

definition write_sectors where
  "write_sectors H D in_process p lba buf count = send_command H D in_process p lba buf count True"

text \<open>The check the timer interrupt makes; \<open>lock_free\<close> says whether \<open>PORTS.try_lock\<close> succeeds.\<close>

fun any_port_idle :: "'h hba \<Rightarrow> port_info list \<Rightarrow> ('h, 'k) ahci \<Rightarrow> ('h, 'k) ahci" where
  "any_port_idle H [] d = d"
| "any_port_idle H (p # ps) d =
    (let (d, ci) = read_reg H p d CI
     in if ci = 0 then d\<lparr>ahci_blocked := False\<rparr> else any_port_idle H ps d)"

definition check_ahci_completion :: "'h hba \<Rightarrow> bool \<Rightarrow> ('h, 'k) ahci \<Rightarrow> ('h, 'k) ahci" where
  "check_ahci_completion H lock_free d =
    (if \<not> ahci_blocked d \<or> \<not> lock_free then d
     else case ports d of None \<Rightarrow> d | Some ps \<Rightarrow> any_port_idle H ps d)"

section \<open>Initialisation\<close>

definition port_at :: "u64 \<Rightarrow> u32 \<Rightarrow> nat \<Rightarrow> u64 \<Rightarrow> u64 \<Rightarrow> port_info" where
  "port_at mmio_base bar5 port_num list_virt tables_virt =
    \<lparr>port_base = mmio_base + of_nat (0x100 + port_num * 0x80),
     port_phys_offset = ucast bar5 + of_nat (0x100 + port_num * 0x80),
     virt_cmd_list = list_virt, virt_cmd_tables_base = tables_virt\<rparr>"

definition cmd_list_virt :: "nat \<Rightarrow> u64" where
  "cmd_list_virt port_num = AHCI_VIRT_BASE + of_nat port_num * 4096"

definition fis_virt :: "nat \<Rightarrow> u64" where
  "fis_virt port_num = AHCI_VIRT_BASE + 0x1000 + of_nat port_num * 4096"

definition cmd_table_base_virt :: "nat \<Rightarrow> u64" where
  "cmd_table_base_virt port_num = AHCI_VIRT_BASE + 0x2000 + of_nat (port_num * 32) * 4096"

definition zero_header :: cmd_header where
  "zero_header = \<lparr>hdr_flags = 0, prdtl = 0, prdbc = 0, ctba = 0, ctbau = 0\<rparr>"

text \<open>\<open>kalloc_page(..).expect(..)\<close> and \<open>kfree_page(..).expect(..)\<close>.\<close>

definition map_expect :: "'pt mapper \<Rightarrow> ('h, 'pt kmem) ahci \<Rightarrow> u64 \<Rightarrow> page_type \<Rightarrow> ('h, 'pt kmem) ahci \<times> (unit fault, u64) result" where
  "map_expect m d v pt =
    (let (k, r) = kalloc_page m (kmemory d) v pt
     in (d\<lparr>kmemory := k\<rparr>, case r of Inl _ \<Rightarrow> Inl Panic | Inr p \<Rightarrow> Inr p))"

definition unmap_expect :: "'pt mapper \<Rightarrow> ('h, 'pt kmem) ahci \<Rightarrow> u64 \<Rightarrow> ('h, 'pt kmem) ahci \<times> (unit fault, unit) result" where
  "unmap_expect m d v =
    (let (k, r) = kfree_page m (kmemory d) v Arbitrary
     in (d\<lparr>kmemory := k\<rparr>, case r of Inl _ \<Rightarrow> Inl Panic | Inr _ \<Rightarrow> Inr ()))"

fun link_tables :: "'pt mapper \<Rightarrow> port_info \<Rightarrow> nat list \<Rightarrow> ('h, 'pt kmem) ahci \<Rightarrow> ('h, 'pt kmem) ahci \<times> (unit fault, unit) result" where
  "link_tables m p [] d = (d, Inr ())"
| "link_tables m p (slot # slots) d =
    sbind (map_expect m d (table_addr p slot) Arbitrary) (\<lambda>d table_phys.
      link_tables m p slots
        (update_mem (set_header (header_addr p slot) (\<lambda>h. set_command_table_addr h table_phys)) d))"

fun free_tables :: "'pt mapper \<Rightarrow> port_info \<Rightarrow> nat list \<Rightarrow> ('h, 'pt kmem) ahci \<Rightarrow> ('h, 'pt kmem) ahci \<times> (unit fault, unit) result" where
  "free_tables m p [] d = (d, Inr ())"
| "free_tables m p (slot # slots) d =
    sbind (unmap_expect m d (table_addr p slot)) (\<lambda>d _. free_tables m p slots d)"

text \<open>One implemented port; the outcome says whether a drive was found on it.\<close>

definition init_port :: "'h hba \<Rightarrow> 'pt mapper \<Rightarrow> u64 \<Rightarrow> u32 \<Rightarrow> nat \<Rightarrow> ('h, 'pt kmem) ahci
    \<Rightarrow> (('h, 'pt kmem) ahci \<times> (unit fault, bool) result) option" where
  "init_port H m mmio_base bar5 port_num d =
    (let port = port_at mmio_base bar5 port_num 0 0
     in case port_stop H port d of
          None \<Rightarrow> None
        | Some d \<Rightarrow> Some (
            sbind (map_expect m d (cmd_list_virt port_num) Arbitrary) (\<lambda>d cmd_list_phys.
            sbind (map_expect m d (fis_virt port_num) Arbitrary) (\<lambda>d fis_phys.
              let p = port_at mmio_base bar5 port_num (cmd_list_virt port_num) (cmd_table_base_virt port_num);
                  d = foldl (\<lambda>d slot. update_mem (set_header (header_addr p slot) (\<lambda>_. zero_header)) d) d [0..<32];
                  d = write_reg H port d CLB (ucast cmd_list_phys);
                  d = write_reg H port d CLBU (ucast (drop_bit 32 cmd_list_phys));
                  (d, _) = read_reg H port d CLB;
                  d = write_reg H port d FB (ucast fis_phys);
                  d = write_reg H port d FBU (ucast (drop_bit 32 fis_phys))
              in sbind (link_tables m p [0..<32] d) (\<lambda>d _.
                 let d = port_start H port d;
                     (d, present) = has_drive H port d
                 in if present
                    then (d\<lparr>ports := Some [p], dev_port := port_base p, cursor := 0\<rparr>, Inr True)
                    else sbind (free_tables m p [0..<32] d) (\<lambda>d _. (d, Inr False)))))))"

fun init_ports :: "'h hba \<Rightarrow> 'pt mapper \<Rightarrow> u64 \<Rightarrow> u32 \<Rightarrow> u32 \<Rightarrow> nat list \<Rightarrow> ('h, 'pt kmem) ahci
    \<Rightarrow> (('h, 'pt kmem) ahci \<times> (unit fault, bool) result) option" where
  "init_ports H m mmio_base bar5 implemented [] d = Some (d, Inr False)"
| "init_ports H m mmio_base bar5 implemented (port_num # rest) d =
    (if implemented AND push_bit port_num 1 = 0 then init_ports H m mmio_base bar5 implemented rest d
     else case init_port H m mmio_base bar5 port_num d of
            None \<Rightarrow> None
          | Some (d, Inr False) \<Rightarrow> init_ports H m mmio_base bar5 implemented rest d
          | Some out \<Rightarrow> Some out)"

definition init_ahcibd :: "'h hba \<Rightarrow> 'pt mapper \<Rightarrow> u32 option \<Rightarrow> ('h, 'pt kmem) ahci
    \<Rightarrow> (('h, 'pt kmem) ahci \<times> (unit fault, bool) result) option" where
  "init_ahcibd H m bar d =
    (case bar of
       None \<Rightarrow> Some (d, Inr False)
     | Some bar5 \<Rightarrow>
         (let mmio_base = ucast bar5 + HIGHER_HALF_BASE
          in case map_expect m d mmio_base MmioRecursive of
               (d, Inl e) \<Rightarrow> Some (d, Inl e)
             | (d, Inr _) \<Rightarrow>
                 (let (s, implemented) = reg_read H (hw d) (mmio_base + PORTS_IMPLEMENTED)
                  in init_ports H m mmio_base bar5 implemented [0..<32] (d\<lparr>hw := s\<rparr>))))"

section \<open>The block device\<close>

definition find_port :: "('h, 'k) ahci \<Rightarrow> port_info option" where
  "find_port d = Option.bind (ports d) (List.find (\<lambda>p. port_base p = dev_port d))"

definition ahci_new :: "nat \<Rightarrow> ('h, 'k) ahci \<Rightarrow> ('h, 'k) ahci option" where
  "ahci_new port_index d =
    Option.bind (ports d) (\<lambda>ps. if port_index < length ps
      then Some (d\<lparr>dev_port := port_base (ps ! port_index), cursor := 0\<rparr>) else None)"

definition sectors_for_bytes :: "nat \<Rightarrow> u16" where
  "sectors_for_bytes n = of_nat ((n + 511) div 512)"

definition sector_offset :: "u64 \<Rightarrow> nat" where
  "sector_offset cur = unat (cur mod 512)"

definition chunk_len :: "u64 \<Rightarrow> nat \<Rightarrow> nat" where
  "chunk_len cur bytes_left = min bytes_left (4096 - sector_offset cur)"

text \<open>The port is gone: the buffer is given back, whatever that returns.\<close>

definition give_and_fail :: "'k dma_ops \<Rightarrow> block_error \<Rightarrow> u64 \<times> nat \<Rightarrow> ('h, 'k) ahci \<Rightarrow> ('h, 'k) ahci \<times> (block_error fault, 'a) result" where
  "give_and_fail D err ubuf d =
    (let (d, r) = dma_give D err ubuf d in (d, Inl (if r = Inl Panic then Panic else Fail err)))"

definition read_chunk ::
  "'h hba \<Rightarrow> 'k dma_ops \<Rightarrow> bool \<Rightarrow> u64 \<Rightarrow> nat \<Rightarrow> ('h, 'k) ahci \<Rightarrow> ('h, 'k) ahci \<times> (block_error fault, bytes) result" where
  "read_chunk H D in_process cur bytes_left d =
    (let start_lba = cur div 512;
         off = sector_offset cur;
         len = chunk_len cur bytes_left;
         sectors = sectors_for_bytes (off + len)
     in sbind (dma_take D ReadError (unat sectors * 512) d) (\<lambda>d ubuf.
        case find_port d of
          None \<Rightarrow> give_and_fail D DeviceNotFound ubuf d
        | Some p \<Rightarrow>
            (case read_sectors H D in_process p start_lba (replicate (unat sectors * 512) 0) sectors d of
               (d, Inl Panic) \<Rightarrow> (d, Inl Panic)
             | (d, Inl (Fail _)) \<Rightarrow> give_and_fail D ReadError ubuf d
             | (d, Inr content) \<Rightarrow>
                 sbind (dma_give D ReadError ubuf d) (\<lambda>d _. (d, Inr (take len (drop off content)))))))"

text \<open>
  When the chunk covers whole sectors nothing is read first and the whole buffer is overwritten, so
  its initial contents do not matter.
\<close>

definition write_chunk ::
  "'h hba \<Rightarrow> 'k dma_ops \<Rightarrow> bool \<Rightarrow> u64 \<Rightarrow> bytes \<Rightarrow> ('h, 'k) ahci \<Rightarrow> ('h, 'k) ahci \<times> (block_error fault, unit) result" where
  "write_chunk H D in_process cur src d =
    (let start_lba = cur div 512;
         off = sector_offset cur;
         len = length src;
         sectors = sectors_for_bytes (off + len);
         sz = unat sectors * 512
     in sbind (dma_take D WriteError sz d) (\<lambda>d ubuf.
        case find_port d of
          None \<Rightarrow> give_and_fail D DeviceNotFound ubuf d
        | Some p \<Rightarrow>
            (let need_read = (off \<noteq> 0 \<or> len \<noteq> sz)
             in case (if need_read then read_sectors H D in_process p start_lba (replicate sz 0) sectors d
                      else (d, Inr (replicate sz 0))) of
                  (d, Inl Panic) \<Rightarrow> (d, Inl Panic)
                | (d, Inl (Fail _)) \<Rightarrow> give_and_fail D WriteError ubuf d
                | (d, Inr content) \<Rightarrow>
                    (case write_sectors H D in_process p start_lba (splice off src content) sectors d of
                       (d, Inl Panic) \<Rightarrow> (d, Inl Panic)
                     | (d, Inl (Fail _)) \<Rightarrow> give_and_fail D WriteError ubuf d
                     | (d, Inr _) \<Rightarrow> dma_give D WriteError ubuf d))))"

lemma sector_offset_lt: "sector_offset cur < 512"
proof -
  have "cur mod 512 < 512" by (rule word_mod_less_divisor) simp
  then show ?thesis by (simp add: sector_offset_def word_less_nat_alt)
qed

lemma chunk_len_pos: "0 < n \<Longrightarrow> 0 < chunk_len cur n"
  using sector_offset_lt [of cur] by (simp add: chunk_len_def)

lemma chunk_len_le: "chunk_len cur n \<le> n"
  by (simp add: chunk_len_def)

function read_loop ::
  "'h hba \<Rightarrow> 'k dma_ops \<Rightarrow> bool \<Rightarrow> u64 \<Rightarrow> nat \<Rightarrow> ('h, 'k) ahci \<Rightarrow> ('h, 'k) ahci \<times> (block_error fault, bytes) result" where
  "read_loop H D in_process cur left d =
    (if left = 0 then (d, Inr [])
     else sbind (read_chunk H D in_process cur left d) (\<lambda>d bs.
          sbind (read_loop H D in_process (cur + of_nat (chunk_len cur left)) (left - chunk_len cur left) d) (\<lambda>d rest.
          (d, Inr (bs @ rest)))))"
  by pat_completeness auto
termination
  by (relation "measure (\<lambda>(H, D, ip, cur, left, d). left)") (auto intro: diff_less chunk_len_pos)

function write_loop ::
  "'h hba \<Rightarrow> 'k dma_ops \<Rightarrow> bool \<Rightarrow> u64 \<Rightarrow> bytes \<Rightarrow> ('h, 'k) ahci \<Rightarrow> ('h, 'k) ahci \<times> (block_error fault, unit) result" where
  "write_loop H D in_process cur bs d =
    (if bs = [] then (d, Inr ())
     else let n = chunk_len cur (length bs)
          in sbind (write_chunk H D in_process cur (take n bs) d) (\<lambda>d _.
             write_loop H D in_process (cur + of_nat n) (drop n bs) d))"
  by pat_completeness auto
termination
  by (relation "measure (\<lambda>(H, D, ip, cur, bs, d). length bs)") (auto intro: diff_less chunk_len_pos)

declare read_loop.simps [simp del] write_loop.simps [simp del]

definition ahci_read ::
  "'h hba \<Rightarrow> 'k dma_ops \<Rightarrow> bool \<Rightarrow> ('h, 'k) ahci \<Rightarrow> nat \<Rightarrow> ('h, 'k) ahci \<times> (block_error fault, bytes) result" where
  "ahci_read H D in_process d n =
    sbind (read_loop H D in_process (cursor d) n d) (\<lambda>d bs. (d\<lparr>cursor := cursor d + of_nat n\<rparr>, Inr bs))"

definition ahci_write ::
  "'h hba \<Rightarrow> 'k dma_ops \<Rightarrow> bool \<Rightarrow> ('h, 'k) ahci \<Rightarrow> bytes \<Rightarrow> ('h, 'k) ahci \<times> (block_error fault, nat) result" where
  "ahci_write H D in_process d bs =
    sbind (write_loop H D in_process (cursor d) bs d)
      (\<lambda>d _. (d\<lparr>cursor := cursor d + of_nat (length bs)\<rparr>, Inr (length bs)))"

definition ahci_seek :: "('h, 'k) ahci \<Rightarrow> seek_from \<Rightarrow> ('h, 'k) ahci \<times> (block_error fault, u64) result" where
  "ahci_seek d pos =
    (case pos of
       Start offset \<Rightarrow> (d\<lparr>cursor := offset\<rparr>, Inr offset)
     | End _ \<Rightarrow> (d, Inl (Fail UnsupportedOperation))
     | Current offset \<Rightarrow>
         (if sint offset < 0
          then (if cursor d < - offset then (d, Inl (Fail SeekError))
                else (d\<lparr>cursor := cursor d - (- offset)\<rparr>, Inr (cursor d - (- offset))))
          else (if cursor d + offset < cursor d then (d, Inl (Fail SeekError))
                else (d\<lparr>cursor := cursor d + offset\<rparr>, Inr (cursor d + offset)))))"

definition ahci_ops :: "'h hba \<Rightarrow> 'k dma_ops \<Rightarrow> bool \<Rightarrow> ('h, 'k) ahci block_ops" where
  "ahci_ops H D in_process =
    \<lparr>block_size = (\<lambda>d. 512), bd_read = ahci_read H D in_process, bd_write = ahci_write H D in_process,
     bd_seek = ahci_seek, bd_flush = (\<lambda>d. (d, Inr ()))\<rparr>"

section \<open>What a drive promises\<close>

text \<open>
  How the controller reads the structures: the FIS of the command table, its transfer size and the
  physical address of its one region, and the direction bit of the header.
\<close>

definition fis_lba :: "reg_fis \<Rightarrow> u64" where
  "fis_lba f = from_le [lba0 f, lba1 f, lba2 f, lba3 f, lba4 f, lba5 f]"

definition fis_count :: "reg_fis \<Rightarrow> u16" where
  "fis_count f = from_le [countl f, counth f]"

definition prdt_addr :: "prdt_entry \<Rightarrow> u64" where
  "prdt_addr e = ucast (dba e) OR push_bit 32 (ucast (dbau e))"

definition decode_command :: "cmd_header \<Rightarrow> cmd_table \<Rightarrow> (bool \<times> nat \<times> nat \<times> u64) option" where
  "decode_command h t =
    (let f = cfis t; n = unat (fis_count f); wr = (hdr_flags h AND CMD_WRITE \<noteq> 0)
     in if fis_type f = 0x27 \<and> pmport f = 0x80 \<and> fis_device f = DEVICE_LBA \<and> hdr_flags h AND 0x1F = 5 \<and> prdtl h = 1
           \<and> command f = (if wr then WRITE_DMA_EXT else READ_DMA_EXT)
           \<and> unat (dbc (prdt0 t) AND 0x003FFFFF) + 1 = n * 512
        then Some (wr, unat (fis_lba f), n, prdt_addr (prdt0 t)) else None)"

text \<open>A command completes when a poll finds its bit of the command issue register clear.\<close>

inductive completes :: "'h hba \<Rightarrow> bool \<Rightarrow> port_info \<Rightarrow> nat \<Rightarrow> nat \<Rightarrow> 'h \<times> cmd_mem \<Rightarrow> 'h \<times> cmd_mem \<Rightarrow> bool"
  for H in_process p slot where
  now: "reg_read H s (port_base p + CI) = (s', ci) \<Longrightarrow> ci AND push_bit slot 1 = 0 \<Longrightarrow> completes H in_process p slot 0 s s'"
| later: "reg_read H s (port_base p + CI) = (s1, ci) \<Longrightarrow> ci AND push_bit slot 1 \<noteq> 0 \<Longrightarrow>
    reg_read H s1 (port_base p + IS) = (s2, is) \<Longrightarrow> is AND IS_TFES = 0 \<Longrightarrow>
    completes H in_process p slot n (if in_process then time_passes H s2 else s2) s' \<Longrightarrow>
    completes H in_process p slot (Suc n) s s'"

definition steady_read :: "'h hba \<Rightarrow> port_info \<Rightarrow> ('h \<Rightarrow> nat \<Rightarrow> u8) \<Rightarrow> ('h \<Rightarrow> bool) \<Rightarrow> u64 \<Rightarrow> (u32 \<Rightarrow> bool) \<Rightarrow> bool" where
  "steady_read H p img idle r good \<longleftrightarrow> (\<forall>h m. idle h \<longrightarrow>
     (\<exists>h' v. reg_read H (h, m) (port_base p + r) = ((h', m), v) \<and> good v \<and> idle h' \<and> img h' = img h))"

definition steady_write :: "'h hba \<Rightarrow> port_info \<Rightarrow> ('h \<Rightarrow> nat \<Rightarrow> u8) \<Rightarrow> ('h \<Rightarrow> bool) \<Rightarrow> u64 \<Rightarrow> bool" where
  "steady_write H p img idle r \<longleftrightarrow> (\<forall>h m v. idle h \<longrightarrow>
     (\<exists>h'. reg_write H (h, m) (port_base p + r) v = (h', m) \<and> idle h' \<and> img h' = img h))"

definition transfers :: "'h hba \<Rightarrow> bool \<Rightarrow> port_info \<Rightarrow> ('h \<Rightarrow> nat \<Rightarrow> u8) \<Rightarrow> ('h \<Rightarrow> bool) \<Rightarrow> nat \<Rightarrow> bool" where
  "transfers H in_process p img idle capacity \<longleftrightarrow> (\<forall>h m slot wr lba n phys. idle h \<longrightarrow> slot < 32 \<longrightarrow>
     decode_command (cmd_headers m (header_addr p slot)) (cmd_tables m (table_addr p slot)) = Some (wr, lba, n, phys) \<longrightarrow>
     (lba + n) * 512 \<le> capacity \<longrightarrow> length (dma_mem m phys) = 4096 \<longrightarrow>
     (\<exists>k h' m'. k < TIMEOUT_MAX \<and> idle h'
        \<and> completes H in_process p slot k (reg_write H (h, m) (port_base p + CI) (push_bit slot 1)) (h', m')
        \<and> (if wr then img h' = overwrite (img h) (lba * 512) (take (n * 512) (dma_mem m phys))
           else img h' = img h \<and> take (n * 512) (dma_mem m' phys) = span (img h) (lba * 512) (n * 512))))"

text \<open>
  A working drive of a given capacity in bytes: in an idle state with contents \<open>img\<close>, some command slot is
  free, the engine runs, no error is reported, acknowledging errors is harmless, and a command
  issued in any slot transfers its sectors within the polls of the timeout.
\<close>

definition drive_ok :: "'h hba \<Rightarrow> bool \<Rightarrow> port_info \<Rightarrow> ('h \<Rightarrow> nat \<Rightarrow> u8) \<Rightarrow> ('h \<Rightarrow> bool) \<Rightarrow> nat \<Rightarrow> bool" where
  "drive_ok H in_process p img idle capacity \<longleftrightarrow>
     steady_read H p img idle CI (\<lambda>ci. ci \<noteq> 0xFFFFFFFF) \<and> steady_read H p img idle CMD (\<lambda>c. c AND CMD_ST \<noteq> 0)
     \<and> steady_read H p img idle TFD (\<lambda>t. t AND TFD_ERR = 0)
     \<and> steady_write H p img idle IS \<and> steady_write H p img idle SERR
     \<and> transfers H in_process p img idle capacity \<and> capacity \<le> 2 ^ 57 \<and> 512 dvd capacity"

lemma steady_readD:
  assumes "steady_read H p img idle r good" "hw d = (h, m)" "idle h"
  obtains h' v where "read_reg H p d r = (d\<lparr>hw := (h', m)\<rparr>, v)" "good v" "idle h'" "img h' = img h"
  using assms(1) [unfolded steady_read_def, rule_format, OF assms(3), of m] assms(2)
  by (auto simp: read_reg_def)

lemma steady_writeD:
  assumes "steady_write H p img idle r" "hw d = (h, m)" "idle h"
  obtains h' where "write_reg H p d r v = d\<lparr>hw := (h', m)\<rparr>" "idle h'" "img h' = img h"
  using assms(1) [unfolded steady_write_def, rule_format, OF assms(3), of m v] assms(2)
  by (auto simp: write_reg_def)

lemma wait_completes:
  assumes "completes H in_process p slot n s s'" "n < k" "hw d = s"
  shows "\<exists>b. wait_loop H in_process p slot k d = (d\<lparr>hw := s', ahci_blocked := b\<rparr>, Inr ())"
  using assms
proof (induction n s s' arbitrary: k d rule: completes.induct)
  case (now s s' ci)
  then obtain k' where k: "k = Suc k'" by (cases k) auto
  show ?case unfolding k using now by (auto simp: read_reg_def intro!: exI [of _ "ahci_blocked d"])
next
  case (later s s1 ci s2 "is" n s')
  then obtain k' where k: "k = Suc k'" by (cases k) auto
  let ?d = "if in_process then d\<lparr>hw := s2\<rparr>\<lparr>ahci_blocked := True, hw := time_passes H s2\<rparr> else d\<lparr>hw := s2\<rparr>"
  have "n < k'" "hw ?d = (if in_process then time_passes H s2 else s2)" using later.prems k by auto
  from later.IH [OF this] obtain b where b: "wait_loop H in_process p slot k' ?d = (?d\<lparr>hw := s', ahci_blocked := b\<rparr>, Inr ())"
    by blast
  have "wait_loop H in_process p slot k d = wait_loop H in_process p slot k' ?d"
    unfolding k using later.hyps later.prems by (simp add: read_reg_def)
  then show ?case unfolding b by (auto intro!: exI [of _ b])
qed

lemma free_slot:
  assumes "ci \<noteq> (0xFFFFFFFF :: u32)"
  obtains slot where "List.find (\<lambda>slot. ci AND push_bit slot 1 = 0) [0..<32] = Some slot" "slot < 32"
proof -
  have bit: "ci AND push_bit i 1 = 0 \<longleftrightarrow> \<not> bit ci i" for i
    by (simp add: and_exp_eq_0_iff_not_bit)
  have "\<exists>i<32. \<not> bit ci i"
  proof (rule ccontr)
    assume "\<not> (\<exists>i<32. \<not> bit ci i)"
    then have "ci = - 1" by (intro bit_word_eqI) auto
    with assms show False by simp
  qed
  then obtain i where i: "i < 32" "\<not> bit ci i" by blast
  have "List.find (\<lambda>slot. ci AND push_bit slot 1 = 0) [0..<32] \<noteq> None"
    using i bit by (auto simp: find_None_iff)
  then obtain slot where slot: "List.find (\<lambda>slot. ci AND push_bit slot 1 = 0) [0..<32] = Some slot" by blast
  then have "slot < 32" by (auto simp: find_Some_iff)
  with slot show thesis by (rule that)
qed

section \<open>The command the controller sees\<close>

lemma bit_mask16: "bit ((0xFF :: u16)) n \<longleftrightarrow> n < 8"
  using bit_mask_iff [of 8 n, where 'a = u16] by (auto simp: mask_eq_exp_minus_1)

lemma bit_mask64: "bit ((0xFF :: u64)) n \<longleftrightarrow> n < 8" "bit ((0xFFFFFFFF :: u64)) n \<longleftrightarrow> n < 32"
  using bit_mask_iff [of 8 n, where 'a = u64] bit_mask_iff [of 32 n, where 'a = u64] by (auto simp: mask_eq_exp_minus_1)

lemma to_le_parts:
  "ucast (w AND 0xFF) = (ucast w :: u8)" "ucast (drop_bit k w AND 0xFF) = (ucast (drop_bit k w) :: u8)" for w :: u64
  by (rule bit_word_eqI; simp only: bit_unsigned_iff bit_and_iff bit_mask64, auto)+

lemma to_le_parts16:
  "ucast (w AND 0xFF) = (ucast w :: u8)" "ucast (drop_bit k w AND 0xFF) = (ucast (drop_bit k w) :: u8)" for w :: u16
  by (rule bit_word_eqI; simp only: bit_unsigned_iff bit_and_iff bit_mask16, auto)+

lemma fis_lba_new: "unat lba < 2 ^ 48 \<Longrightarrow> fis_lba (new_dma_command lba count write) = lba"
proof -
  assume lt: "unat lba < 2 ^ 48"
  have "fis_lba (new_dma_command lba count write) = from_le (to_le 6 lba)"
    by (simp add: fis_lba_def new_dma_command_def to_le_parts numeral_eq_Suc drop_bit_drop_bit)
  also have "\<dots> = lba"
  proof (rule bit_word_eqI)
    fix i :: nat assume "i < LENGTH(64)"
    have "take_bit 48 lba = lba" using lt by (rule take_bit_small)
    then have "bit lba i \<Longrightarrow> i < 48" by (metis bit_take_bit_iff)
    then show "bit (from_le (to_le 6 lba) :: u64) i \<longleftrightarrow> bit lba i"
      by (auto simp: bit_from_le nth_to_le bit_unsigned_iff bit_drop_bit_eq dest: bit_imp_le_length)
  qed
  finally show ?thesis .
qed

lemma fis_count_new: "fis_count (new_dma_command lba count write) = count"
proof -
  have "fis_count (new_dma_command lba count write) = from_le (to_le 2 count)"
    by (simp add: fis_count_def new_dma_command_def to_le_parts16 numeral_eq_Suc)
  then show ?thesis by simp
qed

lemma low_half: "ucast (w AND 0xFFFFFFFF) = (ucast w :: u32)" for w :: u64
  by (rule bit_word_eqI; simp only: bit_unsigned_iff bit_and_iff bit_mask64, auto)

lemma prdt_addr_set: "prdt_addr ((set_data_addr e addr)\<lparr>dbc := n\<rparr>) = addr"
  unfolding prdt_addr_def set_data_addr_def low_half
  by (rule bit_word_eqI) (auto simp: bit_or_iff bit_push_bit_iff bit_unsigned_iff bit_drop_bit_eq)

lemma byte_count:
  assumes "0 < n" "n \<le> 4096"
  shows "unat ((prdt_mask_bytecount (of_nat n - 1) OR PRDT_IOC) AND 0x003FFFFF) + 1 = n"
proof -
  obtain k where k: "n = Suc k" using assms(1) by (cases n) auto
  have u: "unat (of_nat k :: u32) = k" using assms(2) k by (simp add: unat_of_nat)
  have msk: "((x AND 0x003FFFFF) OR 0x80000000) AND 0x003FFFFF = x AND 0x003FFFFF" for x :: u32
    by (simp add: bit.conj_disj_distrib2 and.assoc)
  have low: "of_nat k AND 0x003FFFFF = (of_nat k :: u32)"
  proof -
    have "of_nat k AND 0x003FFFFF = take_bit 22 (of_nat k :: u32)"
      by (simp add: take_bit_eq_mask mask_eq_exp_minus_1)
    also have "\<dots> = of_nat k" using assms(2) k by (intro take_bit_small) (simp add: unat_of_nat)
    finally show ?thesis .
  qed
  have n: "(of_nat n - 1 :: u32) = of_nat k" by (simp add: k)
  show ?thesis unfolding prdt_mask_bytecount_def PRDT_IOC_def n msk unfolding low u by (simp add: k)
qed

lemma decode_built:
  assumes "0 < unat c" "unat c \<le> 8" "unat lba < 2 ^ 48"
    and "hdr_flags h = command_flags wr" "prdtl h = 1" "cfis t = new_dma_command lba c wr"
  shows "decode_command h (fill_prdt phys (unat c * 512) t) = Some (wr, unat lba, unat c, phys)"
proof -
  have "command_flags wr AND 0x1F = 5" "command_flags wr AND CMD_WRITE \<noteq> 0 \<longleftrightarrow> wr"
    by (cases wr; simp add: command_flags_def CMD_WRITE_def)+
  moreover have "unat ((prdt_mask_bytecount (of_nat (unat c * 512) - 1) OR PRDT_IOC) AND 0x003FFFFF) + 1 = unat c * 512"
    by (rule byte_count) (use assms(1,2) in auto)
  moreover have "fis_lba (cfis t) = lba" "fis_count (cfis t) = c"
    using assms(3,6) by (simp_all add: fis_lba_new fis_count_new)
  moreover have "fis_type (cfis t) = 0x27" "pmport (cfis t) = 0x80" "fis_device (cfis t) = DEVICE_LBA"
      "command (cfis t) = (if wr then WRITE_DMA_EXT else READ_DMA_EXT)"
    using assms(6) by (simp_all add: new_dma_command_def)
  ultimately show ?thesis using assms(4,5)
    unfolding decode_command_def fill_prdt_def Let_def by (simp add: prdt_addr_set)
qed

lemma transfersD:
  assumes "transfers H in_process p img idle capacity" "idle h" "slot < 32"
    and "decode_command (cmd_headers m (header_addr p slot)) (cmd_tables m (table_addr p slot)) = Some (wr, lba, n, phys)"
    and "(lba + n) * 512 \<le> capacity" "length (dma_mem m phys) = 4096"
  obtains k h' m' where "k < TIMEOUT_MAX" "idle h'"
    "completes H in_process p slot k (reg_write H (h, m) (port_base p + CI) (push_bit slot 1)) (h', m')"
    "if wr then img h' = overwrite (img h) (lba * 512) (take (n * 512) (dma_mem m phys))
     else img h' = img h \<and> take (n * 512) (dma_mem m' phys) = span (img h) (lba * 512) (n * 512)"
  using assms(1) [unfolded transfers_def, rule_format, OF assms(2-6)] by (elim exE conjE)

lemma issue_command_ok:
  assumes ok: "drive_ok H in_process p img idle capacity" and s: "hw d = (h, m)" "idle h" "slot < 32"
    and dec: "decode_command (cmd_headers m (header_addr p slot)) (cmd_tables m (table_addr p slot)) = Some (wr, lba, n, phys)"
    and fit: "(lba + n) * 512 \<le> capacity" "length (dma_mem m phys) = 4096"
  obtains h' m' b where
    "issue_command H in_process p slot phys buf (n * 512) wr d =
      (d\<lparr>hw := (h', m'), ahci_blocked := b\<rparr>, Inr (if wr then buf else span (img h) (lba * 512) (n * 512)))"
    "idle h'" "img h' = (if wr then overwrite (img h) (lba * 512) (take (n * 512) (dma_mem m phys)) else img h)"
proof -
  from ok have r: "steady_read H p img idle CMD (\<lambda>c. c AND CMD_ST \<noteq> 0)" "steady_read H p img idle TFD (\<lambda>t. t AND TFD_ERR = 0)"
      "transfers H in_process p img idle capacity" by (simp_all add: drive_ok_def)
  obtain h1 c where c: "read_reg H p d CMD = (d\<lparr>hw := (h1, m)\<rparr>, c)" "c AND CMD_ST \<noteq> 0" "idle h1" "img h1 = img h"
    by (rule steady_readD [OF r(1) s(1,2)])
  obtain k h2 m2 where t: "k < TIMEOUT_MAX" "idle h2"
    "completes H in_process p slot k (reg_write H (h1, m) (port_base p + CI) (push_bit slot 1)) (h2, m2)"
    "if wr then img h2 = overwrite (img h1) (lba * 512) (take (n * 512) (dma_mem m phys))
     else img h2 = img h1 \<and> take (n * 512) (dma_mem m2 phys) = span (img h1) (lba * 512) (n * 512)"
    by (rule transfersD [OF r(3) c(3) s(3) dec fit])
  let ?d = "write_reg H p (d\<lparr>hw := (h1, m)\<rparr>) CI (push_bit slot 1)"
  have "hw ?d = reg_write H (h1, m) (port_base p + CI) (push_bit slot 1)" by (simp add: write_reg_def)
  from wait_completes [OF t(3,1) this] obtain b where
    w: "wait_for_completion H in_process p slot ?d = (d\<lparr>hw := (h2, m2), ahci_blocked := b\<rparr>, Inr ())"
    by (auto simp: wait_for_completion_def write_reg_def)
  have "hw (d\<lparr>hw := (h2, m2), ahci_blocked := b\<rparr>) = (h2, m2)" by simp
  from r(2) this t(2) obtain h3 v where
    e: "read_reg H p (d\<lparr>hw := (h2, m2), ahci_blocked := b\<rparr>) TFD = (d\<lparr>hw := (h2, m2), ahci_blocked := b\<rparr>\<lparr>hw := (h3, m2)\<rparr>, v)"
      "v AND TFD_ERR = 0" "idle h3" "img h3 = img h2" by (rule steady_readD)
  have "issue_command H in_process p slot phys buf (n * 512) wr d =
      (d\<lparr>hw := (h3, m2), ahci_blocked := b\<rparr>, Inr (if wr then buf else span (img h) (lba * 512) (n * 512)))"
    unfolding issue_command_def using c w e t(4) by (simp add: Let_def)
  moreover have "img h3 = (if wr then overwrite (img h) (lba * 512) (take (n * 512) (dma_mem m phys)) else img h)"
    using t(4) e(4) c(4) by (simp split: if_splits)
  ultimately show thesis using e(3) that by blast
qed

text \<open>What every operation leaves alone: the port table, the port and the cursor of the device.\<close>

definition same_device :: "('h, 'k) ahci \<Rightarrow> ('h, 'k) ahci \<Rightarrow> bool" where
  "same_device d d' \<longleftrightarrow> ports d' = ports d \<and> dev_port d' = dev_port d \<and> cursor d' = cursor d"

lemma same_device_trans: "same_device d d' \<Longrightarrow> same_device d' d'' \<Longrightarrow> same_device d d''"
  by (simp add: same_device_def)

context dma_pool
begin

lemma send_command_ok:
  assumes ok: "drive_ok H in_process p img idle capacity" and s: "hw d = (h, m)" "idle h"
    and room: "room (kmemory d) (Suc n) bufs" and c: "0 < unat c" "unat c \<le> 8" "(unat lba + unat c) * 512 \<le> capacity"
    and len: "length buf = unat c * 512"
  obtains d' v where
    "send_command H ops in_process p lba buf c wr d = (d', Inr (if wr then buf else span (img h) (unat lba * 512) (unat c * 512)))"
    "idle (fst (hw d'))" "img (fst (hw d')) = (if wr then overwrite (img h) (unat lba * 512) buf else img h)"
    "room (kmemory d') n (insert v bufs)" "v \<notin> bufs" "same_device d d'"
proof -
  from ok have r: "steady_read H p img idle CI (\<lambda>ci. ci \<noteq> 0xFFFFFFFF)" "steady_write H p img idle IS"
      "steady_write H p img idle SERR" and cap: "capacity \<le> 2 ^ 57" by (simp_all add: drive_ok_def)
  obtain h1 where a1: "write_reg H p d IS 0xFFFFFFFF = d\<lparr>hw := (h1, m)\<rparr>" "idle h1" "img h1 = img h"
    by (rule steady_writeD [OF r(2) s])
  have "hw (d\<lparr>hw := (h1, m)\<rparr>) = (h1, m)" by simp
  from r(3) this a1(2) obtain h2 where a2: "write_reg H p (d\<lparr>hw := (h1, m)\<rparr>) SERR 0xFFFFFFFF = d\<lparr>hw := (h1, m)\<rparr>\<lparr>hw := (h2, m)\<rparr>"
      "idle h2" "img h2 = img h1" by (rule steady_writeD)
  have "hw (d\<lparr>hw := (h2, m)\<rparr>) = (h2, m)" by simp
  from r(1) this a2(2) obtain h3 ci where a3: "read_reg H p (d\<lparr>hw := (h2, m)\<rparr>) CI = (d\<lparr>hw := (h2, m)\<rparr>\<lparr>hw := (h3, m)\<rparr>, ci)"
      "ci \<noteq> 0xFFFFFFFF" "idle h3" "img h3 = img h2" by (rule steady_readD)
  from a3(2) obtain slot where sl: "List.find (\<lambda>slot. ci AND push_bit slot 1 = 0) [0..<32] = Some slot" "slot < 32"
    by (rule free_slot)
  have start: "clear_errors H p d = d\<lparr>hw := (h2, m)\<rparr>" "allocate_slot H p (d\<lparr>hw := (h2, m)\<rparr>) = (d\<lparr>hw := (h3, m)\<rparr>, Some slot)"
    using a1(1) a2(1) a3(1) sl(1) by (simp_all add: clear_errors_def allocate_slot_def)
  let ?n = "unat c * 512"
  have n: "0 < ?n" "?n \<le> 4096" using c by auto
  from alloc_room [OF room n] obtain k v phys where k: "dma_alloc ops (kmemory d) ?n = Some (k, Inr (v, ?n))" "v \<notin> bufs"
      "room k n (insert v bufs)" "dma_phys ops k v = Some phys" by (elim exE conjE)
  define m1 where "m1 = set_table (table_addr p slot) (\<lambda>t. t\<lparr>cfis := new_dma_command lba c wr\<rparr>)
    (set_header (header_addr p slot) (\<lambda>h. h\<lparr>hdr_flags := command_flags wr, prdtl := 0, prdbc := 0\<rparr>) m)"
  define page where "page = (if wr then splice 0 (take ?n buf) (replicate 4096 0) else replicate 4096 0 :: bytes)"
  define m2 where "m2 = set_header (header_addr p slot) (\<lambda>h. h\<lparr>prdtl := 1\<rparr>)
    (set_table (table_addr p slot) (fill_prdt phys ?n) (set_page phys page m1))"
  let ?d = "d\<lparr>kmemory := k, hw := (h3, m2)\<rparr>"
  have send: "send_command H ops in_process p lba buf c wr d = issue_command H in_process p slot phys buf ?n wr ?d"
    using n k start
    by (simp add: send_command_def dma_take_def update_mem_def m2_def m1_def page_def Let_def)
  have pl: "length page = 4096" using n len by (simp add: page_def splice_def)
  have "unat lba * 512 + 512 \<le> 2 ^ 57" using c cap by (simp add: algebra_simps)
  then have lba: "unat lba < 2 ^ 48" by simp
  have dec: "decode_command (cmd_headers m2 (header_addr p slot)) (cmd_tables m2 (table_addr p slot)) = Some (wr, unat lba, unat c, phys)"
  proof -
    have tb: "cmd_tables m2 (table_addr p slot) = fill_prdt phys ?n ((cmd_tables m (table_addr p slot))\<lparr>cfis := new_dma_command lba c wr\<rparr>)"
      by (simp add: m2_def m1_def set_header_def set_table_def set_page_def)
    show ?thesis unfolding tb
      by (rule decode_built [OF c(1,2) lba]) (simp_all add: m2_def m1_def set_header_def set_table_def set_page_def)
  qed
  have dm: "dma_mem m2 phys = page" by (simp add: m2_def set_header_def set_table_def set_page_def)
  have "hw ?d = (h3, m2)" "length (dma_mem m2 phys) = 4096" using pl dm by simp_all
  from issue_command_ok [OF ok this(1) a3(3) sl(2) dec c(3) this(2), of buf] obtain h' m' b where
    i: "issue_command H in_process p slot phys buf ?n wr ?d = (?d\<lparr>hw := (h', m'), ahci_blocked := b\<rparr>,
          Inr (if wr then buf else span (img h3) (unat lba * 512) ?n))"
      "idle h'" "img h' = (if wr then overwrite (img h3) (unat lba * 512) (take ?n (dma_mem m2 phys)) else img h3)" .
  have h3: "img h3 = img h" using a1(3) a2(3) a3(4) by simp
  have "take ?n page = buf" if wr using that n len by (simp add: page_def splice_def)
  then show thesis using that [of "?d\<lparr>hw := (h', m'), ahci_blocked := b\<rparr>" v] send i k dm h3
    by (simp add: same_device_def)
qed

end

section \<open>Transfers of any size\<close>

lemma sectors_bounds:
  assumes "0 < n" "n \<le> 4096"
  shows "unat (sectors_for_bytes n) = (n + 511) div 512" "0 < unat (sectors_for_bytes n)" "unat (sectors_for_bytes n) \<le> 8"
    "n \<le> unat (sectors_for_bytes n) * 512" "unat (sectors_for_bytes n) * 512 < n + 512"
proof -
  have b: "0 < (n + 511) div 512" "(n + 511) div 512 \<le> 8" using assms by (auto simp: div_greater_zero_iff div_le_mono)
  then show eq: "unat (sectors_for_bytes n) = (n + 511) div 512" by (simp add: sectors_for_bytes_def unat_of_nat)
  with b show "0 < unat (sectors_for_bytes n)" "unat (sectors_for_bytes n) \<le> 8" by simp_all
  show "n \<le> unat (sectors_for_bytes n) * 512" "unat (sectors_for_bytes n) * 512 < n + 512" unfolding eq by linarith+
qed

lemma cursor_parts: "unat cur = unat (cur div 512) * 512 + sector_offset cur" for cur :: u64
  unfolding sector_offset_def by (simp add: unat_div unat_mod)

lemma chunk_fits:
  assumes "unat cur + n \<le> capacity" "512 dvd capacity" "0 < n" "sector_offset cur + n \<le> 4096"
  shows "(unat (cur div 512) + unat (sectors_for_bytes (sector_offset cur + n))) * 512 \<le> capacity"
proof -
  obtain q where q: "capacity = 512 * q" using assms(2) by (elim dvdE)
  let ?c = "unat (sectors_for_bytes (sector_offset cur + n))"
  have "?c * 512 < sector_offset cur + n + 512" using assms(3,4) by (intro sectors_bounds) auto
  with cursor_parts [of cur] assms(1) q have "(unat (cur div 512) + ?c) * 512 < (q + 1) * 512"
    by (simp only: distrib_right)
  then have "unat (cur div 512) + ?c < q + 1" by (simp only: mult_less_cancel2)
  then show ?thesis unfolding q by simp
qed

lemma chunk_bound: "sector_offset cur + chunk_len cur n \<le> 4096"
  using sector_offset_lt [of cur] by (simp add: chunk_len_def)

definition ahci_image :: "('h \<Rightarrow> nat \<Rightarrow> u8) \<Rightarrow> ('h, 'k) ahci \<Rightarrow> nat \<Rightarrow> u8" where
  "ahci_image img d = img (fst (hw d))"

definition ahci_ready ::
  "('k \<Rightarrow> nat \<Rightarrow> u64 set \<Rightarrow> bool) \<Rightarrow> 'h hba \<Rightarrow> bool \<Rightarrow> port_info \<Rightarrow> ('h \<Rightarrow> nat \<Rightarrow> u8) \<Rightarrow> ('h \<Rightarrow> bool) \<Rightarrow> nat \<Rightarrow> nat \<Rightarrow> ('h, 'k) ahci \<Rightarrow> bool" where
  "ahci_ready room H in_process p img idle capacity b d \<longleftrightarrow> drive_ok H in_process p img idle capacity
     \<and> find_port d = Some p \<and> idle (fst (hw d)) \<and> (\<exists>bufs. room (kmemory d) b bufs)"

definition ahci_cost :: "nat \<Rightarrow> nat" where
  "ahci_cost n = 3 * ((n + 511) div 512)"

lemma find_port_same: "same_device d d' \<Longrightarrow> find_port d' = find_port d"
  by (simp add: find_port_def same_device_def)

lemma dma_give_ok:
  "dma_free D (kmemory d) buf = (k, Inr ()) \<Longrightarrow> dma_give D err buf d = (d\<lparr>kmemory := k\<rparr>, Inr ())"
  by (simp add: dma_give_def)

context dma_pool
begin

lemma send_read_ok:
  assumes "drive_ok H in_process p img idle capacity" "hw d = (h, m)" "idle h" "room (kmemory d) (Suc n) bufs"
    and "0 < unat c" "unat c \<le> 8" "(unat lba + unat c) * 512 \<le> capacity"
  shows "\<exists>d' v. read_sectors H ops in_process p lba (replicate (unat c * 512) 0) c d = (d', Inr (span (img h) (unat lba * 512) (unat c * 512)))
    \<and> idle (fst (hw d')) \<and> img (fst (hw d')) = img h \<and> room (kmemory d') n (insert v bufs) \<and> same_device d d'"
  by (rule send_command_ok [OF assms, of "replicate (unat c * 512) 0" False]) (auto simp: read_sectors_def)

lemma send_write_ok:
  assumes "drive_ok H in_process p img idle capacity" "hw d = (h, m)" "idle h" "room (kmemory d) (Suc n) bufs"
    and "0 < unat c" "unat c \<le> 8" "(unat lba + unat c) * 512 \<le> capacity" "length buf = unat c * 512"
  shows "\<exists>d' v. write_sectors H ops in_process p lba buf c d = (d', Inr buf)
    \<and> idle (fst (hw d')) \<and> img (fst (hw d')) = overwrite (img h) (unat lba * 512) buf
    \<and> room (kmemory d') n (insert v bufs) \<and> same_device d d'"
  by (rule send_command_ok [OF assms, of True]) (auto simp: write_sectors_def)

lemma read_chunk_ok:
  fixes cur :: u64 and n :: nat
  defines "len \<equiv> chunk_len cur n"
  assumes R: "ahci_ready room H in_process p img idle capacity (Suc (Suc b)) d" and n: "0 < n" "unat cur + n \<le> capacity"
  shows "\<exists>d'. read_chunk H ops in_process cur n d = (d', Inr (span (ahci_image img d) (unat cur) len))
    \<and> ahci_ready room H in_process p img idle capacity b d' \<and> ahci_image img d' = ahci_image img d \<and> same_device d d'"
proof -
  from R obtain bufs where ok: "drive_ok H in_process p img idle capacity" "find_port d = Some p" "idle (fst (hw d))"
      "room (kmemory d) (Suc (Suc b)) bufs" by (auto simp: ahci_ready_def)
  let ?off = "sector_offset cur" and ?lba = "cur div 512"
  let ?c = "sectors_for_bytes (?off + len)"
  have len: "0 < len" "len \<le> n" "?off + len \<le> 4096"
    using chunk_len_pos [OF n(1)] chunk_len_le chunk_bound by (simp_all add: len_def)
  have c: "0 < unat ?c" "unat ?c \<le> 8" "?off + len \<le> unat ?c * 512" using len by (intro sectors_bounds; simp)+
  have sz: "0 < unat ?c * 512" "unat ?c * 512 \<le> 4096" using c by auto
  from alloc_room [OF ok(4) sz] obtain k v ph where k: "dma_alloc ops (kmemory d) (unat ?c * 512) = Some (k, Inr (v, unat ?c * 512))"
      "v \<notin> bufs" "room k (Suc b) (insert v bufs)" by (elim exE conjE)
  let ?d = "d\<lparr>kmemory := k\<rparr>"
  obtain h m where hw: "hw d = (h, m)" by (cases "hw d")
  have d: "hw ?d = (h, m)" "idle h" "room (kmemory ?d) (Suc b) (insert v bufs)" "find_port ?d = Some p"
    using hw ok k by (simp_all add: find_port_def)
  have "512 dvd capacity" using ok(1) by (simp add: drive_ok_def)
  then have fit: "(unat ?lba + unat ?c) * 512 \<le> capacity" using n(2) len by (intro chunk_fits) auto
  obtain d1 v1 where s: "read_sectors H ops in_process p ?lba (replicate (unat ?c * 512) 0) ?c ?d =
      (d1, Inr (span (img h) (unat ?lba * 512) (unat ?c * 512)))" "idle (fst (hw d1))" "img (fst (hw d1)) = img h"
      "room (kmemory d1) b (insert v1 (insert v bufs))" "same_device ?d d1"
    using send_read_ok [OF ok(1) d(1-3) c(1,2) fit] by (elim exE conjE)
  from free_room [OF s(4) _ sz, of v] obtain k2 where f: "dma_free ops (kmemory d1) (v, unat ?c * 512) = (k2, Inr ())"
      "room k2 b (insert v1 (insert v bufs) - {v})" by auto
  have "read_chunk H ops in_process cur n d = (d1\<lparr>kmemory := k2\<rparr>, Inr (take len (drop ?off (span (img h) (unat ?lba * 512) (unat ?c * 512)))))"
    using k(1) d(4) s(1) dma_give_ok [OF f(1), of ReadError]
    by (simp add: read_chunk_def dma_take_def Let_def len_def [symmetric])
  also have "take len (drop ?off (span (img h) (unat ?lba * 512) (unat ?c * 512))) = span (img h) (unat cur) len"
    using c(3) cursor_parts [of cur] by (simp add: take_drop_span)
  finally have "read_chunk H ops in_process cur n d = (d1\<lparr>kmemory := k2\<rparr>, Inr (span (ahci_image img d) (unat cur) len))"
    by (simp add: ahci_image_def hw)
  moreover have "same_device d (d1\<lparr>kmemory := k2\<rparr>)" using s(5) by (simp add: same_device_def)
  ultimately show ?thesis using s(2,3) f(2) ok(1,2) hw find_port_same [of d "d1\<lparr>kmemory := k2\<rparr>"]
    by (intro exI [of _ "d1\<lparr>kmemory := k2\<rparr>"]) (auto simp: ahci_ready_def ahci_image_def)
qed

lemma write_chunk_ok:
  fixes cur :: u64 and src :: bytes
  assumes R: "ahci_ready room H in_process p img idle capacity (Suc (Suc (Suc b))) d"
    and n: "src \<noteq> []" "unat cur + length src \<le> capacity" "sector_offset cur + length src \<le> 4096"
  shows "\<exists>d'. write_chunk H ops in_process cur src d = (d', Inr ())
    \<and> ahci_ready room H in_process p img idle capacity b d'
    \<and> ahci_image img d' = overwrite (ahci_image img d) (unat cur) src \<and> same_device d d'"
proof -
  from R obtain bufs where ok: "drive_ok H in_process p img idle capacity" "find_port d = Some p" "idle (fst (hw d))"
      "room (kmemory d) (Suc (Suc (Suc b))) bufs" by (auto simp: ahci_ready_def)
  let ?off = "sector_offset cur" and ?lba = "cur div 512"
  let ?c = "sectors_for_bytes (?off + length src)"
  let ?sz = "unat ?c * 512"
  have len: "0 < ?off + length src" "?off + length src \<le> 4096" using n by auto
  have c: "0 < unat ?c" "unat ?c \<le> 8" "?off + length src \<le> ?sz" using len by (intro sectors_bounds; simp)+
  have sz: "0 < ?sz" "?sz \<le> 4096" using c by auto
  from alloc_room [OF ok(4) sz] obtain k v ph where k: "dma_alloc ops (kmemory d) ?sz = Some (k, Inr (v, ?sz))"
      "v \<notin> bufs" "room k (Suc (Suc b)) (insert v bufs)" by (elim exE conjE)
  let ?d = "d\<lparr>kmemory := k\<rparr>"
  obtain h m where hw: "hw d = (h, m)" by (cases "hw d")
  have d: "hw ?d = (h, m)" "idle h" "room (kmemory ?d) (Suc (Suc b)) (insert v bufs)" "find_port ?d = Some p"
    using hw ok k by (simp_all add: find_port_def)
  have "512 dvd capacity" using ok(1) by (simp add: drive_ok_def)
  then have fit: "(unat ?lba + unat ?c) * 512 \<le> capacity" using n by (intro chunk_fits) auto
  define need where "need \<longleftrightarrow> ?off \<noteq> 0 \<or> length src \<noteq> ?sz"
  have "\<exists>d1 content bufs1. (if need then read_sectors H ops in_process p ?lba (replicate ?sz 0) ?c ?d else (?d, Inr (replicate ?sz 0)))
      = (d1, Inr content) \<and> length content = ?sz \<and> (need \<longrightarrow> content = span (img h) (unat ?lba * 512) ?sz)
      \<and> idle (fst (hw d1)) \<and> img (fst (hw d1)) = img h \<and> room (kmemory d1) (Suc b) bufs1 \<and> v \<in> bufs1 \<and> same_device ?d d1"
  proof (cases need)
    case True
    obtain d1 v1 where "read_sectors H ops in_process p ?lba (replicate ?sz 0) ?c ?d =
        (d1, Inr (span (img h) (unat ?lba * 512) ?sz))" "idle (fst (hw d1))" "img (fst (hw d1)) = img h"
        "room (kmemory d1) (Suc b) (insert v1 (insert v bufs))" "same_device ?d d1"
      using send_read_ok [OF ok(1) d(1-3) c(1,2) fit] by (elim exE conjE)
    then show ?thesis using True
      by (intro exI [of _ d1] exI [of _ "span (img h) (unat ?lba * 512) ?sz"] exI [of _ "insert v1 (insert v bufs)"])
        simp
  next
    case False
    have "room k (Suc b) (insert v bufs)" by (rule room_mono [OF k(3)]) simp
    then show ?thesis using False d(2) hw
      by (intro exI [of _ ?d] exI [of _ "replicate ?sz 0"] exI [of _ "insert v bufs"]) (simp add: same_device_def)
  qed
  then obtain d1 content bufs1 where r: "(if need then read_sectors H ops in_process p ?lba (replicate ?sz 0) ?c ?d else (?d, Inr (replicate ?sz 0)))
      = (d1, Inr content)" "length content = ?sz" "need \<longrightarrow> content = span (img h) (unat ?lba * 512) ?sz"
      "idle (fst (hw d1))" "img (fst (hw d1)) = img h" "room (kmemory d1) (Suc b) bufs1" "v \<in> bufs1" "same_device ?d d1"
    by (elim exE conjE)
  obtain h1 m1 where hw1: "hw d1 = (h1, m1)" by (cases "hw d1")
  have d1: "hw d1 = (h1, m1)" "idle h1" "img h1 = img h" using hw1 r(4,5) by simp_all
  let ?buf = "splice ?off src content"
  have bl: "length ?buf = ?sz" using c(3) r(2) by simp
  obtain d2 v2 where w: "write_sectors H ops in_process p ?lba ?buf ?c d1 = (d2, Inr ?buf)"
      "idle (fst (hw d2))" "img (fst (hw d2)) = overwrite (img h1) (unat ?lba * 512) ?buf"
      "room (kmemory d2) b (insert v2 bufs1)" "same_device d1 d2"
    using send_write_ok [OF ok(1) d1(1,2) r(6) c(1,2) fit bl] d1(3) by (elim exE conjE)
  from free_room [OF w(4) _ sz, of v] r(7) obtain k2 where f: "dma_free ops (kmemory d2) (v, ?sz) = (k2, Inr ())"
      "room k2 b (insert v2 bufs1 - {v})" by auto
  let ?e = "d2\<lparr>kmemory := k2\<rparr>"
  have "write_chunk H ops in_process cur src d = (?e, Inr ())"
    using k(1) d(4) r(1) w(1) dma_give_ok [OF f(1), of WriteError]
    unfolding write_chunk_def Let_def need_def [symmetric] by (simp add: dma_take_def)
  moreover have "overwrite (img h) (unat ?lba * 512) ?buf = overwrite (img h) (unat cur) src"
  proof (cases need)
    case True
    then show ?thesis using r(3) c(3) cursor_parts [of cur] by (simp add: overwrite_splice)
  next
    case False
    then have "?off = 0" "length src = ?sz" unfolding need_def by blast+
    then have "?off = 0" "length src = length content" using r(2) by (simp_all only:)
    then have "?buf = src" by (simp add: splice_def)
    then show ?thesis using False cursor_parts [of cur] by (simp add: need_def)
  qed
  moreover have "same_device d ?e" using r(8) w(5) by (simp add: same_device_def)
  ultimately show ?thesis using w(2,3) d1(3) f(2) ok(1,2) hw find_port_same [of d ?e]
    by (intro exI [of _ ?e]) (auto simp: ahci_ready_def ahci_image_def)
qed

end

lemma cost_chunk:
  assumes "0 < n"
  shows "Suc (Suc (Suc (ahci_cost (n - chunk_len cur n)))) \<le> ahci_cost n"
proof (cases "chunk_len cur n = n")
  case True
  have "1 \<le> (n + 511) div 512" using assms by (simp add: div_greater_zero_iff Suc_le_eq)
  then show ?thesis using True by (simp add: ahci_cost_def)
next
  case False
  then have c: "512 \<le> chunk_len cur n" "chunk_len cur n \<le> n"
    using sector_offset_lt [of cur] by (auto simp: chunk_len_def min_def split: if_splits)
  then have "(n - chunk_len cur n + 511) div 512 \<le> (n - 512 + 511) div 512" by (intro div_le_mono) simp
  also have "Suc \<dots> \<le> (n + 511) div 512"
  proof -
    have "n + 511 = (n - 512 + 511) + 512" using c by simp
    then show ?thesis by (simp only: div_add_self2)
  qed
  finally show ?thesis by (simp add: ahci_cost_def)
qed

lemma unat_add_small:
  fixes cur :: u64
  assumes "unat cur + n \<le> capacity" "capacity \<le> 2 ^ 57"
  shows "unat (cur + of_nat n) = unat cur + n"
  using assms by (intro trans [OF unat_add64]) (simp_all add: unat_of_nat)

context dma_pool
begin

lemma ahci_ready_mono:
  "ahci_ready room H ip p img idle capacity b d \<Longrightarrow> b' \<le> b \<Longrightarrow> ahci_ready room H ip p img idle capacity b' d"
  unfolding ahci_ready_def by (elim conjE exE, intro conjI, assumption+) (rule exI, erule room_mono)

lemma ahci_ready_cursor [simp]:
  "ahci_ready room H ip p img idle capacity b (d\<lparr>cursor := c\<rparr>) = ahci_ready room H ip p img idle capacity b d"
  by (simp add: ahci_ready_def find_port_def)

lemma read_loop_ok:
  assumes "ahci_ready room H ip p img idle capacity (b + ahci_cost n) d" "unat cur + n \<le> capacity"
  shows "\<exists>d'. read_loop H ops ip cur n d = (d', Inr (span (ahci_image img d) (unat cur) n))
    \<and> ahci_ready room H ip p img idle capacity b d' \<and> ahci_image img d' = ahci_image img d \<and> same_device d d'"
  using assms
proof (induction n arbitrary: cur d rule: less_induct)
  case (less n)
  show ?case
  proof (cases "n = 0")
    case True
    then show ?thesis using less.prems by (simp add: read_loop.simps span_def same_device_def ahci_cost_def)
  next
    case False
    let ?l = "chunk_len cur n"
    have l: "0 < n" "0 < ?l" "?l \<le> n" using False chunk_len_pos [of n cur] chunk_len_le [of cur n] by simp_all
    have cap: "capacity \<le> 2 ^ 57" using less.prems(1) by (simp add: ahci_ready_def drive_ok_def)
    have "ahci_ready room H ip p img idle capacity (Suc (Suc (b + ahci_cost (n - ?l)))) d"
      by (rule ahci_ready_mono [OF less.prems(1)]) (use cost_chunk [OF l(1), of cur] in simp)
    from read_chunk_ok [OF this l(1) less.prems(2)] obtain d1 where
      d1: "read_chunk H ops ip cur n d = (d1, Inr (span (ahci_image img d) (unat cur) ?l))"
        "ahci_ready room H ip p img idle capacity (b + ahci_cost (n - ?l)) d1" "ahci_image img d1 = ahci_image img d"
        "same_device d d1" by (elim exE conjE)
    have u: "unat (cur + of_nat ?l) = unat cur + ?l" using less.prems(2) l cap by (intro unat_add_small) auto
    have "n - ?l < n" "unat (cur + of_nat ?l) + (n - ?l) \<le> capacity" using l u less.prems(2) by simp_all
    from less.IH [OF this(1) d1(2) this(2)] obtain d2 where
      d2: "read_loop H ops ip (cur + of_nat ?l) (n - ?l) d1 = (d2, Inr (span (ahci_image img d) (unat cur + ?l) (n - ?l)))"
        "ahci_ready room H ip p img idle capacity b d2" "ahci_image img d2 = ahci_image img d" "same_device d1 d2"
      unfolding u d1(3) by (elim exE conjE)
    have "span (ahci_image img d) (unat cur) n = span (ahci_image img d) (unat cur) ?l @ span (ahci_image img d) (unat cur + ?l) (n - ?l)"
      using span_add [of "ahci_image img d" "unat cur" ?l "n - ?l"] l by simp
    then show ?thesis using l d1(1) d2 same_device_trans [OF d1(4) d2(4)] by (subst read_loop.simps) simp
  qed
qed

lemma write_loop_ok:
  assumes "ahci_ready room H ip p img idle capacity (b + ahci_cost (length bs)) d" "unat cur + length bs \<le> capacity"
  shows "\<exists>d'. write_loop H ops ip cur bs d = (d', Inr ()) \<and> ahci_ready room H ip p img idle capacity b d'
    \<and> ahci_image img d' = overwrite (ahci_image img d) (unat cur) bs \<and> same_device d d'"
  using assms
proof (induction "length bs" arbitrary: bs cur d rule: less_induct)
  case less
  show ?case
  proof (cases "bs = []")
    case True
    then show ?thesis using less.prems by (simp add: write_loop.simps same_device_def ahci_cost_def)
  next
    case False
    let ?n = "length bs" and ?l = "chunk_len cur (length bs)"
    have l: "0 < ?n" "0 < ?l" "?l \<le> ?n" using False chunk_len_pos [of ?n cur] chunk_len_le [of cur ?n] by simp_all
    have cap: "capacity \<le> 2 ^ 57" using less.prems(1) by (simp add: ahci_ready_def drive_ok_def)
    let ?src = "take ?l bs"
    have src: "length ?src = ?l" "?src \<noteq> []" using l False by auto
    have "ahci_ready room H ip p img idle capacity (Suc (Suc (Suc (b + ahci_cost (?n - ?l))))) d"
      by (rule ahci_ready_mono [OF less.prems(1)]) (use cost_chunk [OF l(1), of cur] in simp)
    moreover have "unat cur + length ?src \<le> capacity" "sector_offset cur + length ?src \<le> 4096"
      using src(1) l less.prems(2) chunk_bound by simp_all
    ultimately obtain d1 where
      d1: "write_chunk H ops ip cur ?src d = (d1, Inr ())"
        "ahci_ready room H ip p img idle capacity (b + ahci_cost (?n - ?l)) d1"
        "ahci_image img d1 = overwrite (ahci_image img d) (unat cur) ?src" "same_device d d1"
      using write_chunk_ok [OF _ src(2)] by blast
    have u: "unat (cur + of_nat ?l) = unat cur + ?l" using less.prems(2) l cap by (intro unat_add_small) auto
    have rest: "length (drop ?l bs) = ?n - ?l" "length (drop ?l bs) < ?n" using l by simp_all
    then have "unat (cur + of_nat ?l) + length (drop ?l bs) \<le> capacity" using l u less.prems(2) by simp
    from less.hyps [OF rest(2) _ this] d1(2) rest(1) obtain d2 where
      d2: "write_loop H ops ip (cur + of_nat ?l) (drop ?l bs) d1 = (d2, Inr ())"
        "ahci_ready room H ip p img idle capacity b d2"
        "ahci_image img d2 = overwrite (ahci_image img d1) (unat cur + ?l) (drop ?l bs)" "same_device d1 d2"
      unfolding u by auto
    have "ahci_image img d2 = overwrite (ahci_image img d) (unat cur) bs"
      unfolding d2(3) d1(3) using overwrite_append [of "ahci_image img d" "unat cur" ?src "drop ?l bs"] src(1) by simp
    then show ?thesis using False d1(1) d2 same_device_trans [OF d1(4) d2(4)]
      by (subst write_loop.simps) (simp add: Let_def)
  qed
qed

end

text \<open>
  The driver refines the contract of a block device: with kernel memory that keeps the contract of
  the DMA buffers and a drive that keeps its promises, the device is the sequence of the bytes on
  the drive.
\<close>

sublocale dma_pool \<subseteq> dev: block_device "ahci_ops H ops ip" "ahci_ready room H ip p img idle capacity" ahci_cost
  "ahci_image img" "\<lambda>d. unat (cursor d)" capacity for H ip p img idle capacity
proof
  fix b b' n d pos and bs :: bytes
  let ?ready = "ahci_ready room H ip p img idle capacity"
  show "?ready b d \<Longrightarrow> b' \<le> b \<Longrightarrow> ?ready b' d" by (rule ahci_ready_mono)
  show "?ready b d \<Longrightarrow> block_size (ahci_ops H ops ip) d = 512" by (simp add: ahci_ops_def)
  show "?ready b d \<Longrightarrow> capacity < 2 ^ 64" by (simp add: ahci_ready_def drive_ok_def)
  show "?ready b d \<Longrightarrow> \<exists>d'. bd_seek (ahci_ops H ops ip) d (Start pos) = (d', Inr pos) \<and> ?ready b d'
      \<and> ahci_image img d' = ahci_image img d \<and> unat (cursor d') = unat pos"
    by (simp add: ahci_ops_def ahci_seek_def ahci_image_def)
  {
    assume R: "?ready (b + ahci_cost n) d" and fit: "unat (cursor d) + n \<le> capacity"
    have cap: "capacity \<le> 2 ^ 57" using R by (simp add: ahci_ready_def drive_ok_def)
    from read_loop_ok [OF R fit] obtain d' where
      d': "read_loop H ops ip (cursor d) n d = (d', Inr (span (ahci_image img d) (unat (cursor d)) n))"
        "?ready b d'" "ahci_image img d' = ahci_image img d" "same_device d d'" by (elim exE conjE)
    then show "\<exists>d'. bd_read (ahci_ops H ops ip) d n = (d', Inr (span (ahci_image img d) (unat (cursor d)) n)) \<and> ?ready b d'
        \<and> ahci_image img d' = ahci_image img d \<and> unat (cursor d') = unat (cursor d) + n"
      using unat_add_small [OF fit cap]
      by (intro exI [of _ "d'\<lparr>cursor := cursor d' + of_nat n\<rparr>"])
        (simp add: ahci_ops_def ahci_read_def ahci_image_def same_device_def)
  }
  {
    assume R: "?ready (b + ahci_cost (length bs)) d" and fit: "unat (cursor d) + length bs \<le> capacity"
    have cap: "capacity \<le> 2 ^ 57" using R by (simp add: ahci_ready_def drive_ok_def)
    from write_loop_ok [OF R fit] obtain d' where
      d': "write_loop H ops ip (cursor d) bs d = (d', Inr ())" "?ready b d'"
        "ahci_image img d' = overwrite (ahci_image img d) (unat (cursor d)) bs" "same_device d d'" by (elim exE conjE)
    then show "\<exists>d'. bd_write (ahci_ops H ops ip) d bs = (d', Inr (length bs)) \<and> ?ready b d'
        \<and> ahci_image img d' = overwrite (ahci_image img d) (unat (cursor d)) bs \<and> unat (cursor d') = unat (cursor d) + length bs"
      using unat_add_small [OF fit cap]
      by (intro exI [of _ "d'\<lparr>cursor := cursor d' + of_nat (length bs)\<rparr>"])
        (simp add: ahci_ops_def ahci_write_def ahci_image_def same_device_def)
  }
qed

section \<open>A concrete machine\<close>

text \<open>
  A drive that executes a command at once, a kernel with a memory map of 4 GiB, and the driver bound
  to its only port: every promise above can be kept together.
\<close>

definition ideal_hba :: "port_info \<Rightarrow> (nat \<Rightarrow> u8) hba" where
  "ideal_hba p =
    \<lparr>reg_read = (\<lambda>s a. (s, if a = port_base p + CMD then 1 else 0)),
     reg_write = (\<lambda>(h, m) a v.
       if a = port_base p + CI then
         (case List.find (\<lambda>slot. bit v slot) [0..<32] of
            None \<Rightarrow> (h, m)
          | Some slot \<Rightarrow>
              (case decode_command (cmd_headers m (header_addr p slot)) (cmd_tables m (table_addr p slot)) of
                 None \<Rightarrow> (h, m)
               | Some (wr, lba, n, phys) \<Rightarrow>
                   if wr then (overwrite h (lba * 512) (take (n * 512) (dma_mem m phys)), m)
                   else (h, set_page phys (splice 0 (span h (lba * 512) (n * 512)) (dma_mem m phys)) m)))
       else (h, m)),
     time_passes = (\<lambda>s. s)\<rparr>"

lemma find_single_bit: "slot < 32 \<Longrightarrow> List.find (\<lambda>i. bit (push_bit slot (1 :: u32)) i) [0..<32] = Some slot"
  unfolding find_Some_iff by (intro exI [of _ slot]) (auto simp: bit_exp_iff)

lemma ideal_drive_ok:
  assumes "512 dvd capacity" "capacity \<le> 2 ^ 57"
  shows "drive_ok (ideal_hba p) ip p (\<lambda>h. h) (\<lambda>_. True) capacity"
proof -
  have "transfers (ideal_hba p) ip p (\<lambda>h. h) (\<lambda>_. True) capacity"
    unfolding transfers_def
  proof (intro allI impI)
    fix h slot wr lba n phys and m :: cmd_mem
    assume slot: "slot < 32" and dec: "decode_command (cmd_headers m (header_addr p slot)) (cmd_tables m (table_addr p slot)) = Some (wr, lba, n, phys)"
    define s where "s = reg_write (ideal_hba p) (h, m) (port_base p + CI) (push_bit slot 1)"
    have s: "s = (if wr then (overwrite h (lba * 512) (take (n * 512) (dma_mem m phys)), m)
        else (h, set_page phys (splice 0 (span h (lba * 512) (n * 512)) (dma_mem m phys)) m))"
      unfolding s_def using dec find_single_bit [OF slot] by (simp add: ideal_hba_def)
    have "completes (ideal_hba p) ip p slot 0 s s"
      by (rule completes.now [where ci = 0]) (simp_all add: ideal_hba_def CI_def CMD_def)
    then have "completes (ideal_hba p) ip p slot 0 s (fst s, snd s)" by simp
    moreover have "if wr then fst s = overwrite h (lba * 512) (take (n * 512) (dma_mem m phys))
        else fst s = h \<and> take (n * 512) (dma_mem (snd s) phys) = span h (lba * 512) (n * 512)"
      by (simp add: s set_page_def splice_def)
    ultimately show "\<exists>k h' m'. k < TIMEOUT_MAX \<and> True
        \<and> completes (ideal_hba p) ip p slot k (reg_write (ideal_hba p) (h, m) (port_base p + CI) (push_bit slot 1)) (h', m')
        \<and> (if wr then h' = overwrite h (lba * 512) (take (n * 512) (dma_mem m phys))
           else h' = h \<and> take (n * 512) (dma_mem m' phys) = span h (lba * 512) (n * 512))"
      unfolding s_def [symmetric] by (intro exI [of _ 0] exI [of _ "fst s"] exI [of _ "snd s"]) (simp add: TIMEOUT_MAX_def)
  qed
  then show ?thesis using assms
    by (simp add: drive_ok_def steady_read_def steady_write_def ideal_hba_def CI_def CMD_def TFD_def IS_def SERR_def
        CMD_ST_def TFD_ERR_def)
qed

definition boot_kmem :: "(u64 \<Rightarrow> u64 option) kmem" where
  "boot_kmem = init_memory \<lparr>allocator = None, tables = (\<lambda>_. None), dma_base = 0xFFFFFF0010000000\<rparr> [(0x1000, 0x100000000)]"

lemma boot_kmem_room:
  assumes "n \<le> 2 ^ 20"
  shows "dma_room flat_mapper UNIV boot_kmem n {}"
proof -
  let ?R = "[(0x1000, 0x100000000)] :: (u64 \<times> usize) list"
  have m: "memory_map_ok ?R" by (simp add: region_ok_def)
  note sets = initialize_sets [OF m]
  let ?f = "\<lambda>i::nat. of_nat ((i + 1) * 4096) :: u64"
  have u: "unat (?f i) = (i + 1) * 4096" if "i < 2 ^ 20" for i using that by (intro unat_of_nat64) simp
  have "?f ` {..<2 ^ 20} \<subseteq> region_frames (0x1000, 0x100000000)"
  proof
    fix f assume "f \<in> ?f ` {..<2 ^ 20}"
    then obtain i where i: "i < 2 ^ 20" "f = ?f i" by auto
    have "unat f = (i + 1) * 4096" unfolding i(2) by (rule u [OF i(1)])
    then show "f \<in> region_frames (0x1000, 0x100000000)" using i(1) by (simp add: region_frames_def)
  qed
  then have "?f ` {..<2 ^ 20} \<subseteq> pa_free (initialize ?R)" unfolding sets(3) by simp
  then have "card (?f ` {..<2 ^ 20}) \<le> card (pa_free (initialize ?R))"
    by (rule card_mono [OF pages.finite_free [OF sets(1)]])
  moreover have "inj_on ?f {..<2 ^ 20}"
  proof (rule inj_onI)
    fix i j :: nat assume ij: "i \<in> {..<2 ^ 20}" "j \<in> {..<2 ^ 20}" "?f i = ?f j"
    have "unat (?f i) = unat (?f j)" by (rule arg_cong [OF ij(3)])
    then have "(i + 1) * 4096 = (j + 1) * 4096" unfolding u [OF ij(1) [unfolded lessThan_iff]] u [OF ij(2) [unfolded lessThan_iff]] .
    then show "i = j" by simp
  qed
  then have "card (?f ` {..<2 ^ 20}) = 2 ^ 20" by (simp only: card_image card_lessThan)
  ultimately have "2 ^ 20 \<le> card (pa_free (initialize ?R))" by (simp only:)
  then have "n \<le> card (pa_free (initialize ?R))" using assms by (rule le_trans [rotated])
  then show ?thesis using assms sets(1) flat_mapper_ok(2) flat_mapper_unmaps
    by (simp add: dma_room_def boot_kmem_def init_memory_def flat_mapper_def bufs_mapped_def)
qed

definition sample_port :: port_info where
  "sample_port = port_at 0xFFFF8000FEBD5000 0xFEBD5000 0 (cmd_list_virt 0) (cmd_table_base_virt 0)"

definition sample_ahci :: "(nat \<Rightarrow> u8) \<Rightarrow> (nat \<Rightarrow> u8, (u64 \<Rightarrow> u64 option) kmem) ahci" where
  "sample_ahci img =
    \<lparr>hw = (img, \<lparr>cmd_headers = (\<lambda>_. zero_header), cmd_tables = (\<lambda>_. \<lparr>cfis = new_dma_command 0 0 False,
              prdt0 = \<lparr>dba = 0, dbau = 0, dbc = 0\<rparr>\<rparr>), dma_mem = (\<lambda>_. [])\<rparr>),
     kmemory = boot_kmem, ahci_blocked = False, ports = Some [sample_port], dev_port = port_base sample_port, cursor = 0\<rparr>"

lemma sample_ahci_ready:
  assumes "b \<le> 2 ^ 20"
  shows "ahci_ready (dma_room flat_mapper UNIV) (ideal_hba sample_port) ip sample_port (\<lambda>h. h) (\<lambda>_. True) (2 ^ 40) b (sample_ahci img)"
proof -
  have "drive_ok (ideal_hba sample_port) ip sample_port (\<lambda>h. h) (\<lambda>_. True) (2 ^ 40)"
    by (rule ideal_drive_ok) simp_all
  then show ?thesis using boot_kmem_room [OF assms]
    by (auto simp: ahci_ready_def sample_ahci_def find_port_def)
qed

section \<open>Properties\<close>

text \<open>
  C19: Reading the bytes back that were written through the AHCI driver, over the kernel's own DMA
  buffers.  On a working drive and with enough memory, seek, write, seek and read all succeed, the
  read returns the bytes written, whatever their alignment and length, and every other byte of the
  drive is unchanged.
\<close>

theorem ahci_write_read:
  assumes "ahci_ready (dma_room m A) H ip p img idle capacity (b + (ahci_cost (length bs) + ahci_cost (length bs))) d"
    and "unat pos + length bs \<le> capacity"
  shows "\<exists>d1 d2 d3 d4. ahci_seek d (Start pos) = (d1, Inr pos)
    \<and> ahci_write H (kernel_dma m) ip d1 bs = (d2, Inr (length bs))
    \<and> ahci_seek d2 (Start pos) = (d3, Inr pos) \<and> ahci_read H (kernel_dma m) ip d3 (length bs) = (d4, Inr bs)
    \<and> ahci_image img d4 = overwrite (ahci_image img d) (unat pos) bs
    \<and> ahci_ready (dma_room m A) H ip p img idle capacity b d4"
proof -
  have "ahci_ready (dma_room m A) H ip p img idle capacity ((b + ahci_cost (length bs)) + ahci_cost (length bs)) d"
    using assms(1) by (simp add: add.assoc)
  from kdma.dev.seek_write [OF this assms(2)] obtain d1 d2 where w:
    "bd_seek (ahci_ops H (kernel_dma m) ip) d (Start pos) = (d1, Inr pos)"
    "bd_write (ahci_ops H (kernel_dma m) ip) d1 bs = (d2, Inr (length bs))"
    "ahci_ready (dma_room m A) H ip p img idle capacity (b + ahci_cost (length bs)) d2"
    "ahci_image img d2 = overwrite (ahci_image img d) (unat pos) bs" .
  from kdma.dev.seek_read [OF w(3) assms(2)] obtain d3 d4 where
    "bd_seek (ahci_ops H (kernel_dma m) ip) d2 (Start pos) = (d3, Inr pos)"
    "bd_read (ahci_ops H (kernel_dma m) ip) d3 (length bs) = (d4, Inr (span (ahci_image img d2) (unat pos) (length bs)))"
    "ahci_ready (dma_room m A) H ip p img idle capacity b d4" "ahci_image img d4 = ahci_image img d2" .
  with w show ?thesis by (simp add: ahci_ops_def)
qed

theorem ahci_write_read_witness:
  "\<exists>d1 d2 d3 d4. ahci_seek (sample_ahci (\<lambda>_. 0)) (Start 1000) = (d1, Inr 1000)
    \<and> ahci_write (ideal_hba sample_port) (kernel_dma flat_mapper) False d1 (replicate 9000 7) = (d2, Inr 9000)
    \<and> ahci_seek d2 (Start 1000) = (d3, Inr 1000)
    \<and> ahci_read (ideal_hba sample_port) (kernel_dma flat_mapper) False d3 9000 = (d4, Inr (replicate 9000 7))"
proof -
  have R: "ahci_ready (dma_room flat_mapper UNIV) (ideal_hba sample_port) False sample_port (\<lambda>h. h) (\<lambda>_. True) (2 ^ 40)
      (0 + (ahci_cost (length (replicate 9000 7 :: bytes)) + ahci_cost (length (replicate 9000 7 :: bytes)))) (sample_ahci (\<lambda>_. 0))"
    by (rule sample_ahci_ready) (simp add: ahci_cost_def)
  have fit: "unat (1000 :: u64) + length (replicate 9000 7 :: bytes) \<le> 2 ^ 40" by simp
  from ahci_write_read [OF R fit] show ?thesis by (simp only: length_replicate) blast
qed

text \<open>
  C20: The structures the driver builds describe the command it was asked for.  For an LBA of at most
  48 bits and 1 to 8 sectors, the header, the FIS and the region descriptor, read as the controller
  reads them, give back the direction, the LBA, the sector count and the address of the DMA page.
\<close>

theorem command_decodes:
  assumes "0 < unat count" "unat count \<le> 8" "unat lba < 2 ^ 48"
  shows "decode_command (h\<lparr>hdr_flags := command_flags wr, prdtl := 1\<rparr>)
      (fill_prdt phys (unat count * 512) (t\<lparr>cfis := new_dma_command lba count wr\<rparr>)) = Some (wr, unat lba, unat count, phys)"
  using assms by (intro decode_built) simp_all

theorem command_decodes_witness:
  "decode_command (zero_header\<lparr>hdr_flags := command_flags True, prdtl := 1\<rparr>)
      (fill_prdt 0x123456789000 (unat (8 :: u16) * 512)
        (cmd_tables (snd (hw (sample_ahci (\<lambda>_. 0)))) 0\<lparr>cfis := new_dma_command 0xABCDEF012345 8 True\<rparr>))
     = Some (True, 0xABCDEF012345, 8, 0x123456789000)"
  using command_decodes [where count = 8 and lba = "0xABCDEF012345" and h = zero_header and wr = True and phys = "0x123456789000"
      and t = "cmd_tables (snd (hw (sample_ahci (\<lambda>_. 0)))) 0"] by simp

text \<open>
  Relative seeks never wrap.  A seek by a signed offset moves the cursor to the exact sum when it
  is an unsigned 64-bit number; otherwise it fails and the device is unchanged.
\<close>

theorem ahci_seek_exact:
  "ahci_seek d (Current off) =
    (let target = int (unat (cursor d)) + sint off
     in if 0 \<le> target \<and> target < 2 ^ 64 then (d\<lparr>cursor := of_int target\<rparr>, Inr (of_int target)) else (d, Inl (Fail SeekError)))"
proof -
  have m: "uint (word_of_int z :: u64) = z mod 2 ^ 64" for z by (simp add: uint_word_of_int)
  have b: "- (2 ^ 63) \<le> sint off" "sint off < 2 ^ 63" using sint_ge [of off] sint_lt [of off] by simp_all
  have c: "0 \<le> uint (cursor d)" "uint (cursor d) < 2 ^ 64" using unsigned_less [of "cursor d", where 'a = int] by simp_all
  have sum: "word_of_int (int (unat (cursor d)) + sint off) = cursor d + off" by simp
  show ?thesis
  proof (cases "sint off < 0")
    case True
    have "- off = word_of_int (- sint off)" by simp
    then have "uint (- off) = (- sint off) mod 2 ^ 64" using m by metis
    then have "uint (- off) = - sint off" using True b by simp
    then have "cursor d < - off \<longleftrightarrow> int (unat (cursor d)) + sint off < 0" by (simp add: word_less_def less_diff_eq [symmetric, of _ "sint off" 0])
    moreover have "int (unat (cursor d)) + sint off < 2 ^ 64" using True c by simp
    ultimately show ?thesis using True sum by (simp add: ahci_seek_def Let_def not_le)
  next
    case False
    have "off = word_of_int (sint off)" by simp
    then have "uint off = sint off mod 2 ^ 64" using m by metis
    then have off: "uint off = sint off" using False b by simp
    have "cursor d + off < cursor d \<longleftrightarrow> 2 ^ 64 \<le> uint (cursor d) + sint off"
    proof (cases "uint (cursor d) + sint off < 2 ^ 64")
      case True
      then have "uint (cursor d + off) = uint (cursor d) + sint off" using off False c by (simp add: uint_word_ariths)
      then show ?thesis using True False by (simp add: word_less_def)
    next
      case big: False
      then have "(uint (cursor d) + sint off - 2 ^ 64) mod 2 ^ 64 = uint (cursor d) + sint off - 2 ^ 64"
        using c b by (intro mod_pos_pos_trivial) (simp_all add: not_less)
      then have "uint (cursor d + off) = uint (cursor d) + sint off - 2 ^ 64"
        unfolding minus_mod_self2 using off by (simp add: uint_word_ariths)
      then show ?thesis using big b by (simp add: word_less_def)
    qed
    then show ?thesis using False sum c by (auto simp: ahci_seek_def Let_def)
  qed
qed

end
