(* ===== verification/Disk.thy ===== *)
theory Disk
  imports Ahci
begin

text \<open>
  What the filesystems share: the error types of \<open>zenos-kernel/src/disk/mod.rs\<close>, and the disk they are
  mounted on, a \<open>BlockDeviceDriver\<close> around the AHCI device that takes its DMA buffers from the kernel.
  The interpretation \<open>disk\<close> gives it the contract of a block device.
\<close>

datatype file_error =
    UnsupportedOperation
  | ReadError
  | WriteError
  | SeekError
  | InvalidFileDescriptor
  | NotFound
  | AlreadyExists
  | NotADirectory
  | IsADirectory
  | PermissionDenied
  | ReadOnlyFilesystem
  | Other string

datatype fs_mount_error =
    InvalidSuperblock
  | ParseError
  | MountReadError
  | Corrupted
  | Unsupported
  | MountOther string

type_synonym ('h, 'pt) disk = "('h, 'pt kmem) ahci driver"

definition disk_ops :: "'h hba \<Rightarrow> 'pt mapper \<Rightarrow> bool \<Rightarrow> ('h, 'pt) disk block_ops" where
  "disk_ops H m ip = driver_ops (ahci_ops H (kernel_dma m) ip)"

definition disk_ready ::
  "'pt mapper \<Rightarrow> u64 set \<Rightarrow> 'h hba \<Rightarrow> bool \<Rightarrow> port_info \<Rightarrow> ('h \<Rightarrow> nat \<Rightarrow> u8) \<Rightarrow> ('h \<Rightarrow> bool) \<Rightarrow> nat \<Rightarrow> nat \<Rightarrow> ('h, 'pt) disk \<Rightarrow> bool" where
  "disk_ready m A H ip p img idle capacity b d = ahci_ready (dma_room m A) H ip p img idle capacity b (device d)"

definition disk_content :: "('h \<Rightarrow> nat \<Rightarrow> u8) \<Rightarrow> ('h, 'pt) disk \<Rightarrow> nat \<Rightarrow> u8" where
  "disk_content img d = ahci_image img (device d)"

interpretation disk: block_device "disk_ops H m ip" "disk_ready m A H ip p img idle capacity" ahci_cost
  "disk_content img" "\<lambda>d. unat (cursor (device d))" capacity for H m ip A p img idle capacity
  unfolding disk_ops_def disk_ready_def [abs_def] disk_content_def [abs_def]
  by (rule block_device_driver) (rule kdma.dev.block_device_axioms)

text \<open>A concrete disk with the given contents.\<close>

definition sample_disk :: "(nat \<Rightarrow> u8) \<Rightarrow> (nat \<Rightarrow> u8, u64 \<Rightarrow> u64 option) disk" where
  "sample_disk c = Driver (sample_ahci c)"

lemma sample_disk_ready:
  "b \<le> 2 ^ 20 \<Longrightarrow> disk_ready flat_mapper UNIV (ideal_hba sample_port) ip sample_port (\<lambda>h. h) (\<lambda>_. True) (2 ^ 40) b (sample_disk c)"
  unfolding disk_ready_def sample_disk_def driver.sel by (rule sample_ahci_ready)

lemma sample_disk_content: "disk_content (\<lambda>h. h) (sample_disk c) = c"
  by (simp add: disk_content_def sample_disk_def ahci_image_def sample_ahci_def)

end
