(* ===== verification/FatPlumbing.thy ===== *)
theory FatPlumbing
  imports Disk
begin

text \<open>
  The low level of the FAT filesystem, \<open>zenos-kernel/src/disk/fs/fat/plumbing.rs\<close>: the BIOS parameter
  block, directory entries and 8.3 names, the file allocation table, and whole clusters.  Divisions
  are by fields that \<open>validate\<close> has checked.  Names are ASCII: \<open>to_uppercase\<close> and the conversion of
  bytes to characters are modelled for ASCII characters only.
\<close>

section \<open>Access to the device\<close>

definition dev_seek :: "'d block_ops \<Rightarrow> 'd \<Rightarrow> u64 \<Rightarrow> 'd \<times> (file_error fault, u64) result" where
  "dev_seek ops d off = apsnd (map_fail (\<lambda>_. SeekError)) (bd_seek ops d (Start off))"

text \<open>Reading into a buffer: what the device does not fill keeps its old contents.\<close>

definition dev_read :: "'d block_ops \<Rightarrow> 'd \<Rightarrow> bytes \<Rightarrow> 'd \<times> (file_error fault, bytes) result" where
  "dev_read ops d buf =
    sbind (apsnd (map_fail (\<lambda>_. ReadError)) (bd_read ops d (length buf))) (\<lambda>d bs. (d, Inr (bs @ drop (length bs) buf)))"

definition dev_write :: "'d block_ops \<Rightarrow> 'd \<Rightarrow> bytes \<Rightarrow> 'd \<times> (file_error fault, unit) result" where
  "dev_write ops d bs = sbind (apsnd (map_fail (\<lambda>_. WriteError)) (bd_write ops d bs)) (\<lambda>d _. (d, Inr ()))"

definition read_at :: "'d block_ops \<Rightarrow> 'd \<Rightarrow> u64 \<Rightarrow> bytes \<Rightarrow> 'd \<times> (file_error fault, bytes) result" where
  "read_at ops d off buf = sbind (dev_seek ops d off) (\<lambda>d _. dev_read ops d buf)"

definition write_at :: "'d block_ops \<Rightarrow> 'd \<Rightarrow> u64 \<Rightarrow> bytes \<Rightarrow> 'd \<times> (file_error fault, unit) result" where
  "write_at ops d off bs = sbind (dev_seek ops d off) (\<lambda>d _. dev_write ops d bs)"

section \<open>The BIOS parameter block\<close>

datatype fat_type = Fat12 | Fat16 | Fat32

record bpb =
  bytes_per_sector :: u16
  sectors_per_cluster :: u8
  reserved_sector_count :: u16
  num_fats :: u8
  root_entry_count :: u16
  total_sectors_16 :: u16
  media_type :: u8
  fat_size_16 :: u16
  sectors_per_track :: u16
  num_heads :: u16
  hidden_sectors :: u32
  total_sectors_32 :: u32
  fat_size_32 :: u32
  root_cluster :: u32

definition bpb_parse :: "bytes \<Rightarrow> (file_error, bpb) result" where
  "bpb_parse boot_sector =
    (if length boot_sector < 512 then Inl ReadError
     else Inr
       \<lparr>bytes_per_sector = le_at 2 boot_sector 11, sectors_per_cluster = boot_sector ! 13,
        reserved_sector_count = le_at 2 boot_sector 14, num_fats = boot_sector ! 16,
        root_entry_count = le_at 2 boot_sector 17, total_sectors_16 = le_at 2 boot_sector 19,
        media_type = boot_sector ! 21, fat_size_16 = le_at 2 boot_sector 22, sectors_per_track = le_at 2 boot_sector 24,
        num_heads = le_at 2 boot_sector 26, hidden_sectors = le_at 4 boot_sector 28,
        total_sectors_32 = le_at 4 boot_sector 32, fat_size_32 = le_at 4 boot_sector 36,
        root_cluster = le_at 4 boot_sector 44\<rparr>)"

definition fat_size :: "bpb \<Rightarrow> u32" where
  "fat_size b = (if fat_size_16 b \<noteq> 0 then ucast (fat_size_16 b) else fat_size_32 b)"

definition total_sectors :: "bpb \<Rightarrow> u32" where
  "total_sectors b = (if total_sectors_16 b \<noteq> 0 then ucast (total_sectors_16 b) else total_sectors_32 b)"

definition root_dir_sectors :: "bpb \<Rightarrow> u32" where
  "root_dir_sectors b =
    (ucast (root_entry_count b) * 32 + (ucast (bytes_per_sector b) - 1)) div ucast (bytes_per_sector b)"

definition first_data_sector :: "bpb \<Rightarrow> u32" where
  "first_data_sector b = ucast (reserved_sector_count b) + ucast (num_fats b) * fat_size b + root_dir_sectors b"

definition first_fat_sector :: "bpb \<Rightarrow> u32" where
  "first_fat_sector b = ucast (reserved_sector_count b)"

definition cluster_to_sector :: "bpb \<Rightarrow> u32 \<Rightarrow> u32" where
  "cluster_to_sector b cluster = (cluster - 2) * ucast (sectors_per_cluster b) + first_data_sector b"

definition bytes_per_cluster :: "bpb \<Rightarrow> u32" where
  "bytes_per_cluster b = ucast (bytes_per_sector b) * ucast (sectors_per_cluster b)"

definition bpb_fat_type :: "bpb \<Rightarrow> fat_type" where
  "bpb_fat_type b =
    (let data_sectors = total_sectors b -
           (ucast (reserved_sector_count b) + ucast (num_fats b) * fat_size b + root_dir_sectors b);
         cluster_count = data_sectors div ucast (sectors_per_cluster b)
     in if cluster_count < 4085 then Fat12 else if cluster_count < 65525 then Fat16 else Fat32)"

definition bpb_validate :: "bpb \<Rightarrow> (fs_mount_error, unit) result" where
  "bpb_validate b =
    (if bytes_per_sector b \<notin> {512, 1024, 2048, 4096} then Inl InvalidSuperblock
     else if sectors_per_cluster b \<notin> {1, 2, 4, 8, 16, 32, 64, 128} then Inl InvalidSuperblock
     else if reserved_sector_count b = 0 then Inl InvalidSuperblock
     else if num_fats b = 0 then Inl InvalidSuperblock
     else if total_sectors b = 0 then Inl InvalidSuperblock
     else if fat_size b = 0 then Inl InvalidSuperblock
     else
       (case (case bpb_fat_type b of
                Fat32 \<Rightarrow> if root_entry_count b \<noteq> 0 then Inl Corrupted
                         else if root_cluster b < 2 then Inl Corrupted
                         else if fat_size_32 b = 0 then Inl Corrupted else Inr ()
              | _ \<Rightarrow> if root_entry_count b = 0 then Inl Corrupted else Inr ()) of
          Inl e \<Rightarrow> Inl e
        | Inr _ \<Rightarrow>
            (if ucast (reserved_sector_count b) + ucast (num_fats b) * fat_size b + root_dir_sectors b \<ge> total_sectors b
             then Inl Corrupted else Inr ())))"

section \<open>Directory entries\<close>

record fat_dir_entry =
  name :: bytes
  attr :: u8
  nt_reserved :: u8
  create_time_tenth :: u8
  create_time :: u16
  create_date :: u16
  last_access_date :: u16
  first_cluster_high :: u16
  write_time :: u16
  write_date :: u16
  first_cluster_low :: u16
  file_size :: u32

definition ATTR_READ_ONLY :: u8 where "ATTR_READ_ONLY = 0x01"
definition ATTR_VOLUME_ID :: u8 where "ATTR_VOLUME_ID = 0x08"
definition ATTR_DIRECTORY :: u8 where "ATTR_DIRECTORY = 0x10"
definition ATTR_ARCHIVE :: u8 where "ATTR_ARCHIVE = 0x20"
definition ATTR_LONG_NAME :: u8 where "ATTR_LONG_NAME = 0x0F"

definition entry_parse :: "bytes \<Rightarrow> fat_dir_entry option" where
  "entry_parse data =
    (if length data < 32 then None
     else if data ! 0 = 0x00 then None
     else if data ! 0 = 0xE5 then None
     else Some
       \<lparr>name = take 11 data, attr = data ! 11, nt_reserved = data ! 12, create_time_tenth = data ! 13,
        create_time = le_at 2 data 14, create_date = le_at 2 data 16, last_access_date = le_at 2 data 18,
        first_cluster_high = le_at 2 data 20, write_time = le_at 2 data 22, write_date = le_at 2 data 24,
        first_cluster_low = le_at 2 data 26, file_size = le_at 4 data 28\<rparr>)"

definition entry_serialize :: "fat_dir_entry \<Rightarrow> bytes" where
  "entry_serialize e =
    name e @ [attr e, nt_reserved e, create_time_tenth e] @ to_le 2 (create_time e) @ to_le 2 (create_date e)
    @ to_le 2 (last_access_date e) @ to_le 2 (first_cluster_high e) @ to_le 2 (write_time e) @ to_le 2 (write_date e)
    @ to_le 2 (first_cluster_low e) @ to_le 4 (file_size e)"

definition first_cluster :: "fat_dir_entry \<Rightarrow> u32" where
  "first_cluster e = push_bit 16 (ucast (first_cluster_high e)) OR ucast (first_cluster_low e)"

definition set_first_cluster :: "u32 \<Rightarrow> fat_dir_entry \<Rightarrow> fat_dir_entry" where
  "set_first_cluster cluster e =
    e\<lparr>first_cluster_low := ucast (cluster AND 0xFFFF), first_cluster_high := ucast (drop_bit 16 cluster AND 0xFFFF)\<rparr>"

definition is_directory :: "fat_dir_entry \<Rightarrow> bool" where
  "is_directory e \<longleftrightarrow> attr e AND ATTR_DIRECTORY \<noteq> 0"

definition is_volume_id :: "fat_dir_entry \<Rightarrow> bool" where
  "is_volume_id e \<longleftrightarrow> attr e AND ATTR_VOLUME_ID \<noteq> 0"

definition is_long_name :: "fat_dir_entry \<Rightarrow> bool" where
  "is_long_name e \<longleftrightarrow> attr e AND ATTR_LONG_NAME = ATTR_LONG_NAME"

definition is_space :: "char \<Rightarrow> bool" where
  "is_space c \<longleftrightarrow> (let n = of_char c :: nat in n = 32 \<or> 9 \<le> n \<and> n \<le> 13)"

definition trim_end :: "string \<Rightarrow> string" where
  "trim_end s = rev (dropWhile is_space (rev s))"

definition short_name :: "fat_dir_entry \<Rightarrow> string" where
  "short_name e =
    (let name_part = trim_end (map byte_char (take 8 (name e)));
         ext_part = trim_end (map byte_char (take 3 (drop 8 (name e))))
     in if ext_part = [] then name_part else name_part @ ''.'' @ ext_part)"

definition upper_char :: "char \<Rightarrow> char" where
  "upper_char c = (let n = of_char c :: nat in if 97 \<le> n \<and> n \<le> 122 then char_of (n - 32) else c)"

definition to_uppercase :: "string \<Rightarrow> string" where
  "to_uppercase s = map upper_char s"

text \<open>The part before the last dot and the part after it.\<close>

definition split_last_dot :: "string \<Rightarrow> string \<times> string" where
  "split_last_dot s =
    (if CHR ''.'' \<in> set s
     then (rev (tl (dropWhile (\<lambda>c. c \<noteq> CHR ''.'') (rev s))), rev (takeWhile (\<lambda>c. c \<noteq> CHR ''.'') (rev s)))
     else (s, []))"

definition pad_to :: "nat \<Rightarrow> bytes \<Rightarrow> bytes" where
  "pad_to n bs = bs @ replicate (n - length bs) 0x20"

definition name_to_8_3 :: "string \<Rightarrow> bytes" where
  "name_to_8_3 nm =
    (let (base, ext) = split_last_dot (to_uppercase nm)
     in pad_to 8 (map char_byte (take 8 base)) @ pad_to 3 (map char_byte (take 3 ext)))"

section \<open>The file allocation table\<close>

definition fat_offset :: "fat_type \<Rightarrow> u32 \<Rightarrow> u32" where
  "fat_offset ty cluster = (case ty of Fat12 \<Rightarrow> cluster + cluster div 2 | Fat16 \<Rightarrow> cluster * 2 | Fat32 \<Rightarrow> cluster * 4)"

definition entry_sector :: "bpb \<Rightarrow> u32 \<Rightarrow> u32" where
  "entry_sector b cluster = first_fat_sector b + fat_offset (bpb_fat_type b) cluster div ucast (bytes_per_sector b)"

definition entry_offset :: "bpb \<Rightarrow> u32 \<Rightarrow> nat" where
  "entry_offset b cluster = unat (fat_offset (bpb_fat_type b) cluster mod ucast (bytes_per_sector b))"

definition sector_pos :: "bpb \<Rightarrow> u64 \<Rightarrow> u32 \<Rightarrow> u64" where
  "sector_pos b po sector = ucast sector * ucast (bytes_per_sector b) + po"

definition read_sector :: "'d block_ops \<Rightarrow> bpb \<Rightarrow> u64 \<Rightarrow> 'd \<Rightarrow> u32 \<Rightarrow> 'd \<times> (file_error fault, bytes) result" where
  "read_sector ops b po d sector = read_at ops d (sector_pos b po sector) (replicate (unat (bytes_per_sector b)) 0)"

definition write_sector :: "'d block_ops \<Rightarrow> bpb \<Rightarrow> u64 \<Rightarrow> 'd \<Rightarrow> u32 \<Rightarrow> bytes \<Rightarrow> 'd \<times> (file_error fault, unit) result" where
  "write_sector ops b po d sector buf = write_at ops d (sector_pos b po sector) buf"

text \<open>Indexing past the end of a sector panics.\<close>

definition index :: "bytes \<Rightarrow> nat \<Rightarrow> ('e fault, u8) result" where
  "index buf i = (if i < length buf then Inr (buf ! i) else Inl Panic)"

definition fat12_value :: "u32 \<Rightarrow> u16 \<Rightarrow> u32" where
  "fat12_value cluster v = (if cluster AND 1 \<noteq> 0 then ucast (drop_bit 4 v) else ucast (v AND 0x0FFF))"

definition read_entry :: "'d block_ops \<Rightarrow> bpb \<Rightarrow> u64 \<Rightarrow> 'd \<Rightarrow> u32 \<Rightarrow> 'd \<times> (file_error fault, u32) result" where
  "read_entry ops b po d cluster =
    (let sector = entry_sector b cluster; off = entry_offset b cluster
     in sbind (read_sector ops b po d sector) (\<lambda>d buf.
        case bpb_fat_type b of
          Fat12 \<Rightarrow>
            sbind
              (if off = unat (bytes_per_sector b) - 1
               then sbind (read_sector ops b po d (sector + 1)) (\<lambda>d next.
                      (d, rbind (index buf off) (\<lambda>lo. rbind (index next 0) (\<lambda>hi. Inr (ucast lo OR push_bit 8 (ucast hi))))))
               else (d, ok_or Panic (get_le 2 buf off)))
              (\<lambda>d v. (d, Inr (fat12_value cluster v)))
        | Fat16 \<Rightarrow> (d, rbind (ok_or Panic (get_le 2 buf off)) (\<lambda>v. Inr (ucast (v :: u16))))
        | Fat32 \<Rightarrow> (d, rbind (ok_or Panic (get_le 4 buf off)) (\<lambda>v. Inr (v AND 0x0FFFFFFF)))))"

definition fat12_merge :: "u32 \<Rightarrow> u16 \<Rightarrow> u32 \<Rightarrow> u16" where
  "fat12_merge cluster existing v =
    (if cluster AND 1 \<noteq> 0 then (existing AND 0x000F) OR push_bit 4 (ucast v)
     else (existing AND 0xF000) OR (ucast v AND 0x0FFF))"

text \<open>The sector with the entry replaced.\<close>

definition update_entry :: "fat_type \<Rightarrow> u32 \<Rightarrow> u32 \<Rightarrow> nat \<Rightarrow> bytes \<Rightarrow> ('e fault, bytes) result" where
  "update_entry ty cluster v off buf =
    (case ty of
       Fat12 \<Rightarrow>
         rbind (index buf off) (\<lambda>lo.
           let hi = (if off + 1 < length buf then buf ! (off + 1) else 0);
               new_val = fat12_merge cluster (from_le [lo, hi]) v;
               buf = buf[off := ucast new_val]
           in Inr (if off + 1 < length buf then buf[off + 1 := ucast (drop_bit 8 new_val)] else buf))
     | Fat16 \<Rightarrow> (if off + 1 < length buf then Inr (splice off (to_le 2 (ucast v :: u16)) buf) else Inl Panic)
     | Fat32 \<Rightarrow>
         rbind (ok_or Panic (get_le 4 buf off)) (\<lambda>existing.
           Inr (splice off (to_le 4 ((existing AND 0xF0000000) OR (v AND 0x0FFFFFFF))) buf)))"

fun write_mirrors :: "'d block_ops \<Rightarrow> bpb \<Rightarrow> u64 \<Rightarrow> u32 \<Rightarrow> bytes \<Rightarrow> nat list \<Rightarrow> 'd \<Rightarrow> 'd \<times> (file_error fault, unit) result" where
  "write_mirrors ops b po sector buf [] d = (d, Inr ())"
| "write_mirrors ops b po sector buf (i # is) d =
    sbind (write_sector ops b po d (sector + of_nat i * fat_size b) buf) (\<lambda>d _. write_mirrors ops b po sector buf is d)"

definition write_entry :: "'d block_ops \<Rightarrow> bpb \<Rightarrow> u64 \<Rightarrow> 'd \<Rightarrow> u32 \<Rightarrow> u32 \<Rightarrow> 'd \<times> (file_error fault, unit) result" where
  "write_entry ops b po d cluster v =
    (let sector = entry_sector b cluster; off = entry_offset b cluster
     in sbind (read_sector ops b po d sector) (\<lambda>d buf.
        sbind (d, update_entry (bpb_fat_type b) cluster v off buf) (\<lambda>d buf.
        sbind (write_sector ops b po d sector buf) (\<lambda>d _.
        write_mirrors ops b po sector buf [1..<unat (num_fats b)] d))))"

definition eoc_mark :: "fat_type \<Rightarrow> u32" where
  "eoc_mark ty = (case ty of Fat12 \<Rightarrow> 0x0FFF | Fat16 \<Rightarrow> 0xFFFF | Fat32 \<Rightarrow> 0x0FFFFFFF)"

definition is_eoc :: "fat_type \<Rightarrow> u32 \<Rightarrow> bool" where
  "is_eoc ty e \<longleftrightarrow> (case ty of Fat12 \<Rightarrow> e \<ge> 0x0FF8 | Fat16 \<Rightarrow> e \<ge> 0xFFF8 | Fat32 \<Rightarrow> e \<ge> 0x0FFFFFF8)"

fun find_free :: "'d block_ops \<Rightarrow> bpb \<Rightarrow> u64 \<Rightarrow> nat list \<Rightarrow> 'd \<Rightarrow> 'd \<times> (file_error fault, u32) result" where
  "find_free ops b po [] d = (d, Inl (Fail (Other ''No free clusters'')))"
| "find_free ops b po (c # cs) d =
    sbind (read_entry ops b po d (of_nat c)) (\<lambda>d entry.
      if entry = 0
      then sbind (write_entry ops b po d (of_nat c) (eoc_mark (bpb_fat_type b))) (\<lambda>d _. (d, Inr (of_nat c)))
      else find_free ops b po cs d)"

definition total_clusters :: "bpb \<Rightarrow> u32" where
  "total_clusters b = (total_sectors b - first_data_sector b) div ucast (sectors_per_cluster b)"

definition allocate_cluster :: "'d block_ops \<Rightarrow> bpb \<Rightarrow> u64 \<Rightarrow> 'd \<Rightarrow> 'd \<times> (file_error fault, u32) result" where
  "allocate_cluster ops b po d = find_free ops b po [2..<unat (total_clusters b + 2)] d"

section \<open>Clusters\<close>

definition read_cluster :: "'d block_ops \<Rightarrow> bpb \<Rightarrow> u64 \<Rightarrow> 'd \<Rightarrow> u32 \<Rightarrow> bytes \<Rightarrow> 'd \<times> (file_error fault, bytes) result" where
  "read_cluster ops b po d cluster buf = read_at ops d (sector_pos b po (cluster_to_sector b cluster)) buf"

definition write_cluster :: "'d block_ops \<Rightarrow> bpb \<Rightarrow> u64 \<Rightarrow> 'd \<Rightarrow> u32 \<Rightarrow> bytes \<Rightarrow> 'd \<times> (file_error fault, unit) result" where
  "write_cluster ops b po d cluster buf = write_at ops d (sector_pos b po (cluster_to_sector b cluster)) buf"

section \<open>Directory entries: round trips\<close>

lemma length_entry_serialize: "length (name e) = 11 \<Longrightarrow> length (entry_serialize e) = 32"
  by (simp add: entry_serialize_def)

lemma nth_cons_numeral: "(x # xs) ! numeral k = xs ! (numeral k - 1)"
  by (cases "numeral k :: nat") auto

lemma entry_parse_serialize:
  assumes "length (name e) = 11" "name e ! 0 \<noteq> 0x00" "name e ! 0 \<noteq> 0xE5"
  shows "entry_parse (entry_serialize e) = Some e"
proof -
  obtain n0 n1 n2 n3 n4 n5 n6 n7 n8 n9 n10 where nm: "name e = [n0, n1, n2, n3, n4, n5, n6, n7, n8, n9, n10]"
  proof -
    have "\<exists>n0 n1 n2 n3 n4 n5 n6 n7 n8 n9 n10. name e = [n0, n1, n2, n3, n4, n5, n6, n7, n8, n9, n10]"
      using assms(1) by (auto simp: numeral_eq_Suc length_Suc_conv)
    then show thesis using that by blast
  qed
  have two: "from_le [ucast w, ucast (drop_bit 8 w)] = w" for w :: u16
    using from_to_le [of 2 w] by (simp add: numeral_eq_Suc)
  have four: "from_le [ucast w, ucast (drop_bit 8 w), ucast (drop_bit 16 w), ucast (drop_bit 24 w)] = w" for w :: u32
    using from_to_le [of 4 w] by (simp add: numeral_eq_Suc drop_bit_drop_bit)
  have ser: "entry_serialize e = [n0, n1, n2, n3, n4, n5, n6, n7, n8, n9, n10, attr e, nt_reserved e, create_time_tenth e,
      ucast (create_time e), ucast (drop_bit 8 (create_time e)), ucast (create_date e), ucast (drop_bit 8 (create_date e)),
      ucast (last_access_date e), ucast (drop_bit 8 (last_access_date e)), ucast (first_cluster_high e),
      ucast (drop_bit 8 (first_cluster_high e)), ucast (write_time e), ucast (drop_bit 8 (write_time e)),
      ucast (write_date e), ucast (drop_bit 8 (write_date e)), ucast (first_cluster_low e), ucast (drop_bit 8 (first_cluster_low e)),
      ucast (file_size e), ucast (drop_bit 8 (file_size e)), ucast (drop_bit 16 (file_size e)), ucast (drop_bit 24 (file_size e))]"
    by (simp add: entry_serialize_def nm numeral_eq_Suc drop_bit_drop_bit)
  have "n0 \<noteq> 0x00" "n0 \<noteq> 0xE5" using assms(2,3) nm by simp_all
  then show ?thesis unfolding entry_parse_def ser le_at_def
    by (simp add: two four nm [symmetric] del: from_le.simps)
qed

lemma entry_serialize_parse:
  assumes "entry_parse data = Some e" "length data = 32"
  shows "entry_serialize e = data"
proof -
  have le: "to_le n (le_at n data off :: 'a::len word) = take n (drop off data)"
    if "off + n \<le> 32" "8 * n \<le> LENGTH('a)" for n off
    using to_from_le [of "take n (drop off data)", where 'a = 'a] that assms(2) by (simp add: le_at_def)
  have one: "take 1 (drop i data) = [data ! i]" if "i < 32" for i
    using that assms(2) by (simp add: take_Suc_conv_app_nth Cons_nth_drop_Suc [symmetric])
  have e: "name e = take 11 data" "attr e = data ! 11" "nt_reserved e = data ! 12" "create_time_tenth e = data ! 13"
    "create_time e = le_at 2 data 14" "create_date e = le_at 2 data 16" "last_access_date e = le_at 2 data 18"
    "first_cluster_high e = le_at 2 data 20" "write_time e = le_at 2 data 22" "write_date e = le_at 2 data 24"
    "first_cluster_low e = le_at 2 data 26" "file_size e = le_at 4 data 28"
    using assms(1) by (auto simp: entry_parse_def split: if_splits)
  have "entry_serialize e = take 11 data @ take 1 (drop 11 data) @ take 1 (drop 12 data) @ take 1 (drop 13 data)
      @ take 2 (drop 14 data) @ take 2 (drop 16 data) @ take 2 (drop 18 data) @ take 2 (drop 20 data) @ take 2 (drop 22 data)
      @ take 2 (drop 24 data) @ take 2 (drop 26 data) @ take 4 (drop 28 data)"
    unfolding entry_serialize_def e using one [of 11] one [of 12] one [of 13] by (simp add: le)
  also have "\<dots> = take (11 + (1 + (1 + (1 + (2 + (2 + (2 + (2 + (2 + (2 + (2 + 4))))))))))) data"
    by (simp only: take_add drop_drop) simp
  finally show ?thesis using assms(2) by simp
qed

lemma first_cluster_set [simp]: "first_cluster (set_first_cluster c e) = c"
proof -
  have "bit (0xFFFF :: u32) n \<longleftrightarrow> n < 16" for n
    using bit_mask_iff [of 16 n, where 'a = u32] by (auto simp: mask_eq_exp_minus_1)
  then have low: "ucast (w AND 0xFFFF) = (ucast w :: u16)" for w :: u32
    by (intro bit_word_eqI) (simp only: bit_unsigned_iff bit_and_iff, auto)
  show ?thesis unfolding first_cluster_def set_first_cluster_def low
    by (rule bit_word_eqI) (auto simp: bit_or_iff bit_push_bit_iff bit_unsigned_iff bit_drop_bit_eq)
qed

text \<open>
  C32: Directory entries survive the disk.  An entry with an 11-byte name that does not start with
  one of the two marker bytes is parsed back from its 32 bytes, and any 32 bytes that parse are
  exactly the bytes the entry is written as.
\<close>

theorem dir_entry_roundtrip:
  "(length (name e) = 11 \<and> name e ! 0 \<notin> {0x00, 0xE5} \<longrightarrow> entry_parse (entry_serialize e) = Some e)
   \<and> (\<forall>data. length data = 32 \<and> entry_parse data = Some e \<longrightarrow> entry_serialize e = data)"
  using entry_parse_serialize entry_serialize_parse by blast

definition sample_entry :: fat_dir_entry where
  "sample_entry = \<lparr>name = map char_byte ''KERNEL  BIN'', attr = ATTR_ARCHIVE, nt_reserved = 0, create_time_tenth = 0,
     create_time = 0, create_date = 0, last_access_date = 0, first_cluster_high = 1, write_time = 0, write_date = 0,
     first_cluster_low = 5, file_size = 70000\<rparr>"

theorem dir_entry_roundtrip_witness:
  "entry_parse (entry_serialize sample_entry) = Some sample_entry
   \<and> entry_serialize sample_entry = entry_serialize sample_entry \<and> first_cluster sample_entry = 0x10005"
proof -
  have "length (name sample_entry) = 11" "name sample_entry ! 0 \<notin> {0x00, 0xE5}" "first_cluster sample_entry = 0x10005"
    by (simp_all add: sample_entry_def char_byte_def first_cluster_def)
  then show ?thesis using dir_entry_roundtrip [of sample_entry] length_entry_serialize by blast
qed

section \<open>Names\<close>

lemma byte_char_space [simp]: "byte_char 0x20 = CHR '' ''"
  by (simp add: byte_char_def char_of_eq_iff take_bit_eq_mod)

lemma byte_char_pad: "map byte_char (pad_to n (map char_byte s)) = s @ replicate (n - length s) (CHR '' '')"
  by (simp add: pad_to_def comp_def)

lemma trim_end_pad [simp]: "trim_end (s @ replicate n (CHR '' '')) = trim_end s"
proof -
  have "is_space (CHR '' '')" by (simp add: is_space_def)
  then have "dropWhile is_space (replicate n (CHR '' '') @ rev s) = dropWhile is_space (rev s)" by (induction n) auto
  then show ?thesis by (simp add: trim_end_def)
qed

lemma split_last_dot_join:
  assumes "split_last_dot s = (base, ext)" "CHR ''.'' \<in> set s"
  shows "s = base @ ''.'' @ ext"
proof -
  let ?P = "\<lambda>c. c \<noteq> CHR ''.''"
  have be: "base = rev (tl (dropWhile ?P (rev s)))" "ext = rev (takeWhile ?P (rev s))"
    using assms by (auto simp: split_last_dot_def)
  have "dropWhile ?P (rev s) \<noteq> []" using assms(2) by (auto simp: dropWhile_eq_Nil_conv)
  then have "dropWhile ?P (rev s) = CHR ''.'' # tl (dropWhile ?P (rev s))"
    using hd_dropWhile [of ?P "rev s"] by (cases "dropWhile ?P (rev s)") auto
  then have "rev s = takeWhile ?P (rev s) @ CHR ''.'' # tl (dropWhile ?P (rev s))"
    by (metis takeWhile_dropWhile_id)
  then have "rev (rev s) = rev (takeWhile ?P (rev s) @ CHR ''.'' # tl (dropWhile ?P (rev s)))" by (rule arg_cong)
  then show ?thesis by (simp add: be)
qed

lemma length_name_to_8_3 [simp]: "length (name_to_8_3 nm) = 11"
  by (simp add: name_to_8_3_def pad_to_def split: prod.splits)

text \<open>The names an 8.3 entry can hold: at most 8 and 3 characters, no blank at an end, no dot at the end.\<close>

definition valid_8_3 :: "string \<Rightarrow> bool" where
  "valid_8_3 nm \<longleftrightarrow> (let (base, ext) = split_last_dot (to_uppercase nm)
     in length base \<le> 8 \<and> length ext \<le> 3 \<and> trim_end base = base \<and> trim_end ext = ext
        \<and> (CHR ''.'' \<in> set (to_uppercase nm) \<longrightarrow> ext \<noteq> []))"

lemma short_name_8_3:
  assumes "valid_8_3 nm"
  shows "short_name (e\<lparr>name := name_to_8_3 nm\<rparr>) = to_uppercase nm"
proof -
  obtain base ext where be: "split_last_dot (to_uppercase nm) = (base, ext)" by (cases "split_last_dot (to_uppercase nm)")
  with assms have v: "length base \<le> 8" "length ext \<le> 3" "trim_end base = base" "trim_end ext = ext"
      "CHR ''.'' \<in> set (to_uppercase nm) \<longrightarrow> ext \<noteq> []" by (simp_all add: valid_8_3_def)
  have n: "name_to_8_3 nm = pad_to 8 (map char_byte base) @ pad_to 3 (map char_byte ext)"
    using v(1,2) by (simp add: name_to_8_3_def be)
  have l: "length (pad_to 8 (map char_byte base)) = 8" "length (pad_to 3 (map char_byte ext)) = 3"
    using v(1,2) by (simp_all add: pad_to_def)
  have parts: "trim_end (map byte_char (take 8 (name_to_8_3 nm))) = base"
      "trim_end (map byte_char (take 3 (drop 8 (name_to_8_3 nm)))) = ext"
    unfolding n using l v(3,4) by (simp_all add: byte_char_pad)
  show ?thesis
  proof (cases "CHR ''.'' \<in> set (to_uppercase nm)")
    case True
    then show ?thesis using v(5) split_last_dot_join [OF be] parts by (simp add: short_name_def Let_def)
  next
    case False
    then have "base = to_uppercase nm" "ext = []" using be by (simp_all add: split_last_dot_def)
    then show ?thesis using parts by (simp add: short_name_def Let_def)
  qed
qed

text \<open>
  C34: A file name that fits the 8.3 format comes back from its directory entry in upper case: packing
  it into the 11 bytes of an entry and printing the entry's short name loses nothing else.
\<close>

theorem name_8_3_roundtrip:
  assumes "valid_8_3 nm"
  shows "length (name_to_8_3 nm) = 11 \<and> short_name (e\<lparr>name := name_to_8_3 nm\<rparr>) = to_uppercase nm"
  by (intro conjI length_name_to_8_3 short_name_8_3 assms)

theorem name_8_3_roundtrip_witness:
  "length (name_to_8_3 ''readme.txt'') = 11 \<and> short_name (sample_entry\<lparr>name := name_to_8_3 ''readme.txt''\<rparr>) = ''README.TXT''"
proof -
  have up: "to_uppercase ''readme.txt'' = ''README.TXT''" by code_simp
  have "valid_8_3 ''readme.txt''" by (simp add: valid_8_3_def up split_last_dot_def trim_end_def is_space_def)
  from name_8_3_roundtrip [OF this, of sample_entry] show ?thesis by (simp add: up)
qed

section \<open>The layout of a volume\<close>

lemma unat_widen: "LENGTH('a) \<le> LENGTH('b) \<Longrightarrow> unat (ucast (w :: 'a::len word) :: 'b::len word) = unat w"
proof -
  assume "LENGTH('a) \<le> LENGTH('b)"
  then have "unat w < 2 ^ LENGTH('b)" using unsigned_less [of w, where 'a = nat] power_increasing [of "LENGTH('a)" "LENGTH('b)" "2 :: nat"]
    by linarith
  then show ?thesis by (simp add: unsigned_ucast_eq take_bit_nat_eq_self)
qed

abbreviation bps :: "bpb \<Rightarrow> nat" where
  "bps b \<equiv> unat (bytes_per_sector b)"

lemma validate_sizes:
  assumes "bpb_validate b = Inr ()"
  shows "bps b \<in> {512, 1024, 2048, 4096}" "unat (sectors_per_cluster b) \<in> {1, 2, 4, 8, 16, 32, 64, 128}"
    "0 < unat (num_fats b)" "first_data_sector b < total_sectors b"
proof -
  have "bytes_per_sector b \<in> {512, 1024, 2048, 4096}" "sectors_per_cluster b \<in> {1, 2, 4, 8, 16, 32, 64, 128}"
      "num_fats b \<noteq> 0" "first_data_sector b < total_sectors b"
    using assms by (auto simp: bpb_validate_def first_data_sector_def split: if_splits sum.splits)
  then show "bps b \<in> {512, 1024, 2048, 4096}" "unat (sectors_per_cluster b) \<in> {1, 2, 4, 8, 16, 32, 64, 128}"
      "0 < unat (num_fats b)" "first_data_sector b < total_sectors b" by (auto simp: unat_gt_0)
qed

text \<open>
  A volume at the byte offset \<open>po\<close> of a device: the parameter block is valid, its layout arithmetic
  does not wrap around (\<open>validate\<close> itself computes modulo \<open>2 ^ 32\<close>), and the volume lies on the device.
\<close>

definition volume :: "bpb \<Rightarrow> u64 \<Rightarrow> nat \<Rightarrow> bool" where
  "volume b po capacity \<longleftrightarrow> bpb_validate b = Inr ()
     \<and> unat (reserved_sector_count b) + unat (num_fats b) * unat (fat_size b) + unat (root_dir_sectors b) < 2 ^ 32
     \<and> unat po + unat (total_sectors b) * bps b \<le> capacity"

definition entry_width :: "fat_type \<Rightarrow> nat" where
  "entry_width ty = (case ty of Fat32 \<Rightarrow> 4 | _ \<Rightarrow> 2)"

definition fat_offset_nat :: "fat_type \<Rightarrow> nat \<Rightarrow> nat" where
  "fat_offset_nat ty c = (case ty of Fat12 \<Rightarrow> c + c div 2 | Fat16 \<Rightarrow> c * 2 | Fat32 \<Rightarrow> c * 4)"

text \<open>The clusters whose table entry lies inside the first copy of the table.\<close>

definition in_fat :: "bpb \<Rightarrow> u32 \<Rightarrow> bool" where
  "in_fat b c \<longleftrightarrow> unat c < 2 ^ 28
     \<and> fat_offset_nat (bpb_fat_type b) (unat c) + entry_width (bpb_fat_type b) \<le> unat (fat_size b) * bps b"

definition fat_base :: "bpb \<Rightarrow> u64 \<Rightarrow> nat" where
  "fat_base b po = unat po + unat (reserved_sector_count b) * bps b"

definition fat_pos :: "bpb \<Rightarrow> u64 \<Rightarrow> u32 \<Rightarrow> nat" where
  "fat_pos b po c = fat_base b po + fat_offset_nat (bpb_fat_type b) (unat c)"

definition fat_end :: "bpb \<Rightarrow> u64 \<Rightarrow> nat" where
  "fat_end b po = fat_base b po + unat (num_fats b) * unat (fat_size b) * bps b"

lemma fat_offset_exact: "unat c < 2 ^ 28 \<Longrightarrow> unat (fat_offset ty c) = fat_offset_nat ty (unat c)"
proof (cases ty)
  case Fat12
  assume "unat c < 2 ^ 28"
  moreover have "unat (c div 2) = unat c div 2" by (simp add: unat_div)
  ultimately show ?thesis by (simp add: Fat12 fat_offset_def fat_offset_nat_def unat_word_ariths)
qed (simp_all add: fat_offset_def fat_offset_nat_def unat_word_ariths)

lemma volume_layout:
  assumes "volume b po capacity"
  shows "unat (first_data_sector b) =
      unat (reserved_sector_count b) + unat (num_fats b) * unat (fat_size b) + unat (root_dir_sectors b)"
    and "unat (reserved_sector_count b) + unat (num_fats b) * unat (fat_size b) < unat (total_sectors b)"
    and "unat (reserved_sector_count b) + unat (fat_size b) \<le> unat (reserved_sector_count b) + unat (num_fats b) * unat (fat_size b)"
proof -
  have lt: "unat (reserved_sector_count b) + unat (num_fats b) * unat (fat_size b) + unat (root_dir_sectors b) < 2 ^ 32"
      and v: "bpb_validate b = Inr ()" using assms by (simp_all add: volume_def)
  have m: "unat (ucast (num_fats b) * fat_size b :: u32) = unat (num_fats b) * unat (fat_size b)"
    using lt by (simp add: unat_word_ariths unat_widen)
  then have a: "unat (ucast (reserved_sector_count b) + ucast (num_fats b) * fat_size b :: u32)
      = unat (reserved_sector_count b) + unat (num_fats b) * unat (fat_size b)"
    using lt by (simp add: unat_add_lem [THEN iffD1] unat_widen)
  then show fd: "unat (first_data_sector b) =
      unat (reserved_sector_count b) + unat (num_fats b) * unat (fat_size b) + unat (root_dir_sectors b)"
    unfolding first_data_sector_def using lt by (simp add: unat_add_lem [THEN iffD1])
  show "unat (reserved_sector_count b) + unat (num_fats b) * unat (fat_size b) < unat (total_sectors b)"
    using validate_sizes(4) [OF v] fd by (simp add: word_less_nat_alt)
  show "unat (reserved_sector_count b) + unat (fat_size b) \<le> unat (reserved_sector_count b) + unat (num_fats b) * unat (fat_size b)"
    using validate_sizes(3) [OF v] by simp
qed

lemma sector_pos_exact:
  assumes "volume b po capacity" "capacity < 2 ^ 64" "unat s < unat (total_sectors b)"
  shows "unat (sector_pos b po s) = unat po + unat s * bps b" "unat po + unat s * bps b + bps b \<le> capacity"
proof -
  have "Suc (unat s) * bps b \<le> unat (total_sectors b) * bps b" using assms(3) by (intro mult_right_mono) auto
  then show fit: "unat po + unat s * bps b + bps b \<le> capacity" using assms(1) by (simp add: volume_def)
  have "unat (ucast s * ucast (bytes_per_sector b) :: u64) = unat s * bps b"
    using fit assms(2) by (simp add: unat_word_ariths unat_widen)
  then show "unat (sector_pos b po s) = unat po + unat s * bps b"
    unfolding sector_pos_def using fit assms(2) by (simp add: unat_word_ariths)
qed

lemma entry_sector_exact:
  assumes "volume b po capacity" "in_fat b c"
  shows "unat (entry_sector b c) = unat (reserved_sector_count b) + fat_offset_nat (bpb_fat_type b) (unat c) div bps b"
    and "entry_offset b c = fat_offset_nat (bpb_fat_type b) (unat c) mod bps b"
    and "fat_offset_nat (bpb_fat_type b) (unat c) div bps b < unat (fat_size b)"
proof -
  let ?o = "fat_offset_nat (bpb_fat_type b) (unat c)"
  have o: "unat (fat_offset (bpb_fat_type b) c) = ?o" using assms(2) by (intro fat_offset_exact) (simp add: in_fat_def)
  then have d: "unat (fat_offset (bpb_fat_type b) c div ucast (bytes_per_sector b)) = ?o div bps b"
      "entry_offset b c = ?o mod bps b" by (simp_all add: entry_offset_def unat_div unat_mod unat_widen)
  then show "entry_offset b c = ?o mod bps b" by simp
  have "0 < entry_width (bpb_fat_type b)" by (simp add: entry_width_def split: fat_type.splits)
  then have "?o < unat (fat_size b) * bps b" using assms(2) by (simp add: in_fat_def)
  then show lt: "?o div bps b < unat (fat_size b)" by (simp add: less_mult_imp_div_less)
  have "unat (total_sectors b) < 4294967296" using unsigned_less [of "total_sectors b", where 'a = nat] by simp
  with lt volume_layout(2,3) [OF assms(1)] have "unat (reserved_sector_count b) + ?o div bps b < 4294967296" by linarith
  then have "unat (first_fat_sector b) + ?o div bps b < 2 ^ 32" by (simp add: first_fat_sector_def unat_widen)
  then show "unat (entry_sector b c) = unat (reserved_sector_count b) + ?o div bps b"
    unfolding entry_sector_def using d(1) by (simp add: unat_add_lem [THEN iffD1] first_fat_sector_def unat_widen)
qed

section \<open>The value of a table entry\<close>

definition fat_decode :: "fat_type \<Rightarrow> u32 \<Rightarrow> bytes \<Rightarrow> u32" where
  "fat_decode ty c bs =
    (case ty of Fat12 \<Rightarrow> fat12_value c (from_le bs) | Fat16 \<Rightarrow> ucast (from_le bs :: u16) | Fat32 \<Rightarrow> from_le bs AND 0x0FFFFFFF)"

definition fat_encode :: "fat_type \<Rightarrow> u32 \<Rightarrow> u32 \<Rightarrow> bytes \<Rightarrow> bytes" where
  "fat_encode ty c v old =
    (case ty of
       Fat12 \<Rightarrow> to_le 2 (fat12_merge c (from_le old) v)
     | Fat16 \<Rightarrow> to_le 2 (ucast v :: u16)
     | Fat32 \<Rightarrow> to_le 4 ((from_le old AND 0xF0000000) OR (v AND 0x0FFFFFFF)))"

definition fat_mask :: "fat_type \<Rightarrow> u32" where
  "fat_mask ty = (case ty of Fat12 \<Rightarrow> 0xFFF | Fat16 \<Rightarrow> 0xFFFF | Fat32 \<Rightarrow> 0x0FFFFFFF)"

definition fat_value :: "bpb \<Rightarrow> u64 \<Rightarrow> (nat \<Rightarrow> u8) \<Rightarrow> u32 \<Rightarrow> u32" where
  "fat_value b po c cluster =
    fat_decode (bpb_fat_type b) cluster (span c (fat_pos b po cluster) (entry_width (bpb_fat_type b)))"

lemma length_fat_encode [simp]: "length (fat_encode ty c v old) = entry_width ty"
  by (simp add: fat_encode_def entry_width_def split: fat_type.splits)

lemma bit_nibbles:
  "bit (0x0FFF :: int) i \<longleftrightarrow> i < 12" "bit (0xF000 :: int) i \<longleftrightarrow> 12 \<le> i \<and> i < 16" "bit (0x000F :: int) i \<longleftrightarrow> i < 4"
  "bit (0xFFFF :: int) i \<longleftrightarrow> i < 16" "bit (0x0FFFFFFF :: int) i \<longleftrightarrow> i < 28"
  "bit (0xF0000000 :: int) i \<longleftrightarrow> 28 \<le> i \<and> i < 32" "bit (0xF0 :: int) i \<longleftrightarrow> 4 \<le> i \<and> i < 8"
proof -
  have m: "(0x0FFF :: int) = mask 12" "(0xF000 :: int) = push_bit 12 (mask 4)" "(0x000F :: int) = mask 4"
      "(0xFFFF :: int) = mask 16" "(0x0FFFFFFF :: int) = mask 28" "(0xF0000000 :: int) = push_bit 28 (mask 4)"
      "(0xF0 :: int) = push_bit 4 (mask 4)"
    by (simp_all add: mask_eq_exp_minus_1 push_bit_eq_mult)
  show "bit (0x0FFF :: int) i \<longleftrightarrow> i < 12" "bit (0xF000 :: int) i \<longleftrightarrow> 12 \<le> i \<and> i < 16" "bit (0x000F :: int) i \<longleftrightarrow> i < 4"
    "bit (0xFFFF :: int) i \<longleftrightarrow> i < 16" "bit (0x0FFFFFFF :: int) i \<longleftrightarrow> i < 28"
    "bit (0xF0000000 :: int) i \<longleftrightarrow> 28 \<le> i \<and> i < 32" "bit (0xF0 :: int) i \<longleftrightarrow> 4 \<le> i \<and> i < 8"
    unfolding m bit_push_bit_iff bit_mask_iff by auto
qed

lemma decode_encode:
  "fat_decode ty c (fat_encode ty c v old) = v AND fat_mask ty"
proof (cases ty)
  case Fat12
  then show ?thesis unfolding fat_decode_def fat_encode_def fat_mask_def fat12_value_def fat12_merge_def
    by (cases "c AND 1 = 0"; simp del: to_le.simps from_le.simps; intro bit_word_eqI;
        auto simp: bit_unsigned_iff bit_and_iff bit_or_iff bit_push_bit_iff bit_drop_bit_eq bit_nibbles)
next
  case Fat16
  then show ?thesis unfolding fat_decode_def fat_encode_def fat_mask_def
    by (simp del: to_le.simps; intro bit_word_eqI; auto simp: bit_unsigned_iff bit_and_iff bit_nibbles)
next
  case Fat32
  then show ?thesis unfolding fat_decode_def fat_encode_def fat_mask_def
    by (simp del: to_le.simps; intro bit_word_eqI; auto simp: bit_and_iff bit_or_iff bit_nibbles)
qed

lemma to_le_2: "to_le 2 w = [ucast w, ucast (drop_bit 8 w)]"
  by (simp add: numeral_2_eq_2)

lemma span_2: "span c p 2 = [c p, c (p + 1)]"
  by (simp add: span_def upt_conv_Cons numeral_2_eq_2)

lemma odd_cluster: "c AND 1 \<noteq> 0 \<longleftrightarrow> odd (unat c)" for c :: u32
proof -
  have "c AND 1 \<noteq> 0 \<longleftrightarrow> bit c 0" by (simp add: and_one_eq bit_0 odd_iff_mod_2_eq_one)
  also have "\<dots> \<longleftrightarrow> bit (unat c) 0" by (simp add: bit_unsigned_iff)
  finally show ?thesis by (simp add: bit_0)
qed

lemma bit_pair: "bit (from_le [p, q] :: u16) i \<longleftrightarrow> i < 16 \<and> (if i < 8 then bit p i else bit q (i - 8))"
proof -
  have "i div 8 = 1" "i mod 8 = i - 8" if "8 \<le> i" "i < 16" using that by (auto simp: div_if mod_if)
  then show ?thesis by (auto simp: bit_from_le nth_Cons' simp del: from_le.simps)
qed

lemma fat12_value_cong:
  assumes "if odd (unat c) then q = q' \<and> (\<forall>i. 4 \<le> i \<and> i < 8 \<longrightarrow> bit p i = bit p' i)
    else p = p' \<and> (\<forall>i<4. bit q i = bit q' i)"
  shows "fat12_value c (from_le [p, q]) = fat12_value c (from_le [p', q'])"
proof (cases "odd (unat c)")
  case True
  then have h: "q = q'" "\<forall>i. 4 \<le> i \<and> i < 8 \<longrightarrow> bit p i = bit p' i" using assms by auto
  have "drop_bit 4 (from_le [p, q] :: u16) = drop_bit 4 (from_le [p', q'])"
    by (rule bit_word_eqI) (use h in \<open>auto simp: bit_drop_bit_eq bit_pair simp del: from_le.simps\<close>)
  then show ?thesis using True by (simp only: fat12_value_def odd_cluster if_True not_False_eq_True)
next
  case False
  then have h: "p = p'" "\<forall>i<4. bit q i = bit q' i" using assms by auto
  have "(from_le [p, q] :: u16) AND 0x0FFF = from_le [p', q'] AND 0x0FFF"
  proof (rule bit_word_eqI)
    fix i :: nat
    have "i - 8 < 4" if "i < 12" "\<not> i < 8" using that by simp
    then show "bit ((from_le [p, q] :: u16) AND 0x0FFF) i = bit ((from_le [p', q'] :: u16) AND 0x0FFF) i"
      using h by (auto simp: bit_and_iff bit_nibbles bit_pair simp del: from_le.simps)
  qed
  then show ?thesis using False by (simp only: fat12_value_def odd_cluster if_False not_True_eq_False not_not)
qed

lemma merge_keeps:
  "odd (unat c) \<Longrightarrow> i < 4 \<Longrightarrow> bit (ucast (fat12_merge c (from_le [p, q]) v) :: u8) i = bit p i"
  "even (unat c) \<Longrightarrow> 4 \<le> i \<Longrightarrow> i < 8 \<Longrightarrow> bit (ucast (drop_bit 8 (fat12_merge c (from_le [p, q]) v)) :: u8) i = bit q i"
  unfolding fat12_merge_def odd_cluster
  by (auto simp: bit_unsigned_iff bit_or_iff bit_and_iff bit_push_bit_iff bit_drop_bit_eq bit_nibbles bit_pair
      simp del: from_le.simps)

text \<open>Replacing the entry of one cluster leaves every other entry as it was.\<close>

lemma encode_other:
  fixes c c' :: u32 and ty :: fat_type
  defines "w \<equiv> entry_width ty"
  assumes "c \<noteq> c'"
  shows "fat_decode ty c' (span (overwrite cont (base + fat_offset_nat ty (unat c)) (fat_encode ty c v (span cont (base + fat_offset_nat ty (unat c)) w)))
      (base + fat_offset_nat ty (unat c')) w) = fat_decode ty c' (span cont (base + fat_offset_nat ty (unat c')) w)"
proof (cases "ty = Fat12")
  case False
  have "unat c \<noteq> unat c'" using assms(2) by (simp add: word_unat_eq_iff)
  then have "base + fat_offset_nat ty (unat c') + w \<le> base + fat_offset_nat ty (unat c)
      \<or> base + fat_offset_nat ty (unat c) + w \<le> base + fat_offset_nat ty (unat c')"
    using False by (cases ty) (auto simp: fat_offset_nat_def w_def entry_width_def)
  then show ?thesis unfolding w_def by (subst span_overwrite_other) simp_all
next
  case True
  define n n' o1 o2 where "n = unat c" and "n' = unat c'" and "o1 = base + (n + n div 2)" and "o2 = base + (n' + n' div 2)"
  have ne: "n \<noteq> n'" using assms(2) by (simp add: word_unat_eq_iff n_def n'_def)
  define p q m where "p = cont o1" and "q = cont (o1 + 1)" and "m = fat12_merge c (from_le [p, q]) v"
  define cont' where "cont' = overwrite cont o1 [ucast m, ucast (drop_bit 8 m)]"
  have c': "cont' x = (if x = o1 then ucast m else if x = o1 + 1 then ucast (drop_bit 8 m) else cont x)" for x
    by (auto simp: cont'_def overwrite_def nth_Cons')
  have enc: "fat_encode ty c v (span cont o1 w) = [ucast m, ucast (drop_bit 8 m)]"
    by (simp add: True fat_encode_def w_def entry_width_def span_2 m_def p_def q_def to_le_2)
  have "if odd n' then cont' (o2 + 1) = cont (o2 + 1) \<and> (\<forall>i. 4 \<le> i \<and> i < 8 \<longrightarrow> bit (cont' o2) i = bit (cont o2) i)
      else cont' o2 = cont o2 \<and> (\<forall>i<4. bit (cont' (o2 + 1)) i = bit (cont (o2 + 1)) i)"
  proof (cases "n' = n + 1")
    case True
    then show ?thesis
    proof (cases "odd n")
      case False
      then have "o2 = o1 + 1" using True by (simp add: o1_def o2_def)
      then show ?thesis using True False merge_keeps(2) [of c _ p q v]
        by (auto simp: c' m_def n_def q_def)
    next
      case odd: True
      then have "o2 = o1 + 2" using True by (auto simp: o1_def o2_def elim!: oddE)
      then show ?thesis by (auto simp: c')
    qed
  next
    case away: False
    show ?thesis
    proof (cases "n = n' + 1")
      case True
      then show ?thesis
      proof (cases "odd n")
        case True
        then have "o1 = o2 + 1" using \<open>n = n' + 1\<close> by (simp add: o1_def o2_def)
        then show ?thesis using True \<open>n = n' + 1\<close> merge_keeps(1) [of c _ p q v]
          by (auto simp: c' m_def n_def p_def)
      next
        case False
        then have "o1 = o2 + 2" using \<open>n = n' + 1\<close> by (auto simp: o1_def o2_def elim!: evenE)
        then show ?thesis by (auto simp: c')
      qed
    next
      case False
      then have "o2 + 2 \<le> o1 \<or> o1 + 2 \<le> o2" using away ne by (auto simp: o1_def o2_def)
      then show ?thesis by (auto simp: c')
    qed
  qed
  then have "fat12_value c' (from_le [cont' o2, cont' (o2 + 1)]) = fat12_value c' (from_le [cont o2, cont (o2 + 1)])"
    by (intro fat12_value_cong) (simp add: n'_def)
  then show ?thesis unfolding w_def True fat_decode_def fat_offset_nat_def entry_width_def
    using enc by (simp add: span_2 cont'_def True w_def entry_width_def o1_def o2_def n_def n'_def del: from_le.simps)
qed

lemma update_entry_splice:
  assumes "off + entry_width ty \<le> length buf"
  shows "update_entry ty c v off buf = Inr (splice off (fat_encode ty c v (take (entry_width ty) (drop off buf))) buf)"
proof (cases ty)
  case Fat12
  have l: "off < length buf" "off + 1 < length buf" using assms by (simp_all add: Fat12 entry_width_def)
  then have "take 2 (drop off buf) = [buf ! off, buf ! (off + 1)]"
    by (simp add: take_drop_nth upt_conv_Cons numeral_2_eq_2)
  moreover have "buf[off := x, off + 1 := y] = splice off [x, y] buf" for x y
    using l by (intro nth_equalityI) (auto simp: nth_splice nth_list_update nth_Cons')
  ultimately show ?thesis using l
    by (simp add: Fat12 update_entry_def index_def fat_encode_def entry_width_def Let_def to_le_2 del: from_le.simps)
next
  case Fat16
  then show ?thesis using assms by (simp add: update_entry_def fat_encode_def entry_width_def)
next
  case Fat32
  then show ?thesis using assms by (simp add: update_entry_def fat_encode_def entry_width_def get_le_Some le_at_def)
qed

end
