(* ===== verification/FatTable.thy ===== *)
theory FatTable
  imports FatPlumbing
begin

text \<open>
  The allocation table on a block device: what \<open>FatTable::read_entry\<close>, \<open>write_entry\<close> and
  \<open>allocate_cluster\<close> (\<open>zenos-kernel/src/disk/fs/fat/plumbing.rs\<close>) do to the bytes of a volume, proved
  against the contract \<open>block_device\<close>, and the properties this gives for the kernel's AHCI disk.
\<close>

section \<open>Where an entry lies\<close>

text \<open>An entry lies inside one sector, except every 1024th or so of a FAT12 table.\<close>

definition straddles :: "bpb \<Rightarrow> u32 \<Rightarrow> bool" where
  "straddles b c \<longleftrightarrow> bps b < entry_offset b c + entry_width (bpb_fat_type b)"

definition entry_bytes :: "bpb \<Rightarrow> u32 \<Rightarrow> nat" where
  "entry_bytes b c = fat_offset_nat (bpb_fat_type b) (unat c)"

definition sector_byte :: "bpb \<Rightarrow> u64 \<Rightarrow> nat \<Rightarrow> nat" where
  "sector_byte b po s = unat po + s * bps b"

lemma bps_pos: "volume b po cap \<Longrightarrow> 0 < bps b" and bps_4: "volume b po cap \<Longrightarrow> 4 dvd bps b"
  and bps_512: "volume b po cap \<Longrightarrow> 512 \<le> bps b"
  using validate_sizes(1) [of b] by (auto simp: volume_def)

lemma straddles_cases:
  assumes "volume b po cap" "in_fat b c" "straddles b c"
  shows "bpb_fat_type b = Fat12" "entry_offset b c = bps b - 1"
proof -
  let ?o = "fat_offset_nat (bpb_fat_type b) (unat c)"
  have off: "entry_offset b c = ?o mod bps b" using assms by (intro entry_sector_exact(2))
  then have lt: "entry_offset b c < bps b" using bps_pos [OF assms(1)] by simp
  have no: False if "w dvd bps b" "w dvd ?o" "entry_width (bpb_fat_type b) = w" "0 < w" for w
  proof -
    from that have "w dvd entry_offset b c" unfolding off by (simp add: dvd_mod)
    with \<open>w dvd bps b\<close> have "w dvd bps b - entry_offset b c" by (rule dvd_diff_nat)
    then have "w \<le> bps b - entry_offset b c" using lt by (intro dvd_imp_le) simp_all
    then show False using assms(3) that(3) lt by (simp add: straddles_def)
  qed
  show ty: "bpb_fat_type b = Fat12"
  proof (cases "bpb_fat_type b")
    case Fat16
    have "2 dvd bps b" by (rule dvd_trans [OF _ bps_4 [OF assms(1)]]) simp
    then show ?thesis using no [of 2] Fat16 by (simp add: fat_offset_nat_def entry_width_def)
  next
    case Fat32
    then show ?thesis using no [of 4] bps_4 [OF assms(1)] by (simp add: fat_offset_nat_def entry_width_def)
  qed
  show "entry_offset b c = bps b - 1" using assms(3) lt by (simp add: straddles_def ty entry_width_def)
qed

lemma fat_pos_sector:
  assumes "volume b po cap" "in_fat b c"
  shows "sector_byte b po (unat (entry_sector b c)) + entry_offset b c = fat_pos b po c"
  using entry_sector_exact(1,2) [OF assms] by (simp add: sector_byte_def fat_pos_def fat_base_def algebra_simps)

lemma entry_sector_lt:
  assumes "volume b po cap" "in_fat b c"
  shows "unat (entry_sector b c) < unat (total_sectors b)"
    and "unat (entry_sector b c) < unat (reserved_sector_count b) + unat (fat_size b)"
    and "unat (reserved_sector_count b) \<le> unat (entry_sector b c)"
  using entry_sector_exact(1,3) [OF assms] volume_layout(2,3) [OF assms(1)] by linarith+

lemma straddle_next:
  assumes "volume b po cap" "in_fat b c" "straddles b c"
  shows "unat (entry_sector b c + 1) = unat (entry_sector b c) + 1" "unat (entry_sector b c) + 1 < unat (total_sectors b)"
    "sector_byte b po (unat (entry_sector b c) + 1) = fat_pos b po c + 1"
proof -
  let ?o = "fat_offset_nat (bpb_fat_type b) (unat c)" and ?s = "unat (entry_sector b c)"
  note st = straddles_cases [OF assms] and ex = entry_sector_exact [OF assms(1,2)] and pos = bps_pos [OF assms(1)]
  have "?o + 2 \<le> unat (fat_size b) * bps b" using assms(2) st(1) by (simp add: in_fat_def entry_width_def)
  moreover have "?o + 1 = (?o div bps b + 1) * bps b"
    using st(2) ex(2) pos div_mult_mod_eq [of ?o "bps b"] by (simp add: algebra_simps)
  ultimately have "(?o div bps b + 1) * bps b < unat (fat_size b) * bps b" by simp
  then have "?o div bps b + 1 < unat (fat_size b)" by (simp only: mult_less_cancel2)
  then show lt: "?s + 1 < unat (total_sectors b)" using ex(1) volume_layout(2,3) [OF assms(1)] by linarith
  show "unat (entry_sector b c + 1) = ?s + 1"
  proof -
    have "?s + 1 < 2 ^ 32" using lt unsigned_less [of "total_sectors b", where 'a = nat] by simp
    then show ?thesis by (simp add: unat_word_ariths)
  qed
  show "sector_byte b po (?s + 1) = fat_pos b po c + 1"
    using fat_pos_sector [OF assms(1,2)] st(2) pos by (simp add: sector_byte_def)
qed

lemma not_straddles: "\<not> straddles b c \<longleftrightarrow> entry_offset b c + entry_width (bpb_fat_type b) \<le> bps b"
  by (auto simp: straddles_def)

text \<open>The bytes of a copy of the sector an entry lies in; copy 0 is the table that is read.\<close>

definition copy_pos :: "bpb \<Rightarrow> u64 \<Rightarrow> u32 \<Rightarrow> nat \<Rightarrow> nat" where
  "copy_pos b po c i = sector_byte b po (unat (entry_sector b c) + i * unat (fat_size b))"

lemma mirror_sector:
  assumes "volume b po cap" "in_fat b c" "i < unat (num_fats b)"
  shows "unat (entry_sector b c + of_nat i * fat_size b) = unat (entry_sector b c) + i * unat (fat_size b)"
    and "unat (entry_sector b c) + i * unat (fat_size b) < unat (total_sectors b)"
proof -
  have "Suc i * unat (fat_size b) \<le> unat (num_fats b) * unat (fat_size b)" using assms(3) by (intro mult_right_mono) auto
  then show lt: "unat (entry_sector b c) + i * unat (fat_size b) < unat (total_sectors b)"
    using entry_sector_lt(2) [OF assms(1,2)] volume_layout(2) [OF assms(1)] by simp
  have tot: "unat (total_sectors b) < 4294967296" using unsigned_less [of "total_sectors b", where 'a = nat] by simp
  have "i < 4294967296" using assms(3) unsigned_less [of "num_fats b", where 'a = nat] by simp
  then have "unat (of_nat i :: u32) = i" by (simp add: unat_of_nat)
  moreover have "i * unat (fat_size b) < 4294967296" using lt tot by linarith
  ultimately have "unat (of_nat i * fat_size b :: u32) = i * unat (fat_size b)" by (simp add: unat_word_ariths)
  then show "unat (entry_sector b c + of_nat i * fat_size b) = unat (entry_sector b c) + i * unat (fat_size b)"
    using lt tot by (simp add: unat_word_ariths)
qed

lemma copies_apart:
  assumes "volume b po cap" "in_fat b c" "i < j"
  shows "copy_pos b po c i + bps b \<le> copy_pos b po c j"
proof -
  have "0 < unat (fat_size b)" using entry_sector_exact(3) [OF assms(1,2)] by simp
  then have "i * unat (fat_size b) < j * unat (fat_size b)" using assms(3) by simp
  then have "unat (entry_sector b c) + i * unat (fat_size b) + 1 \<le> unat (entry_sector b c) + j * unat (fat_size b)" by linarith
  then have "(unat (entry_sector b c) + i * unat (fat_size b) + 1) * bps b \<le> (unat (entry_sector b c) + j * unat (fat_size b)) * bps b"
    by (rule mult_right_mono) simp
  then show ?thesis by (simp add: copy_pos_def sector_byte_def algebra_simps)
qed

lemma copy_bounds:
  assumes "volume b po cap" "in_fat b c" "i < unat (num_fats b)"
  shows "fat_base b po \<le> copy_pos b po c i" "copy_pos b po c i + bps b \<le> fat_end b po"
proof -
  let ?s = "unat (entry_sector b c) + i * unat (fat_size b)"
  have "Suc i * unat (fat_size b) \<le> unat (num_fats b) * unat (fat_size b)" using assms(3) by (intro mult_right_mono) auto
  then have "unat (reserved_sector_count b) \<le> ?s" "?s + 1 \<le> unat (reserved_sector_count b) + unat (num_fats b) * unat (fat_size b)"
    using entry_sector_lt(2,3) [OF assms(1,2)] by simp_all
  then have "unat (reserved_sector_count b) * bps b \<le> ?s * bps b"
      "(?s + 1) * bps b \<le> (unat (reserved_sector_count b) + unat (num_fats b) * unat (fat_size b)) * bps b"
    by (intro mult_right_mono; simp)+
  then show "fat_base b po \<le> copy_pos b po c i" "copy_pos b po c i + bps b \<le> fat_end b po"
    by (simp_all add: copy_pos_def sector_byte_def fat_base_def fat_end_def algebra_simps)
qed

section \<open>Sectors and entries on a block device\<close>

lemma span_eq_Nil [simp]: "span c p n = [] \<longleftrightarrow> n = 0"
  using length_span [of c p n] by (metis length_0_conv)

context block_device
begin

lemma read_at_ok:
  assumes "ready (n + cost (length buf)) d" "unat p + length buf \<le> capacity"
  shows "\<exists>d'. read_at ops d p buf = (d', Inr (span (content d) (unat p) (length buf))) \<and> ready n d' \<and> content d' = content d"
proof -
  from seek_read [OF assms] obtain d1 d2 where "bd_seek ops d (Start p) = (d1, Inr p)"
      "bd_read ops d1 (length buf) = (d2, Inr (span (content d) (unat p) (length buf)))" "ready n d2" "content d2 = content d" .
  then show ?thesis by (simp add: read_at_def dev_seek_def dev_read_def)
qed

lemma write_at_ok:
  assumes "ready (n + cost (length buf)) d" "unat p + length buf \<le> capacity"
  shows "\<exists>d'. write_at ops d p buf = (d', Inr ()) \<and> ready n d' \<and> content d' = overwrite (content d) (unat p) buf"
proof -
  from seek_write [OF assms] obtain d1 d2 where "bd_seek ops d (Start p) = (d1, Inr p)"
      "bd_write ops d1 buf = (d2, Inr (length buf))" "ready n d2" "content d2 = overwrite (content d) (unat p) buf" .
  then show ?thesis by (simp add: write_at_def dev_seek_def dev_write_def)
qed

lemma read_sector_ok:
  assumes "volume b po capacity" "unat s < unat (total_sectors b)" "ready (n + cost (bps b)) d"
  shows "\<exists>d'. read_sector ops b po d s = (d', Inr (span (content d) (sector_byte b po (unat s)) (bps b)))
    \<and> ready n d' \<and> content d' = content d"
proof -
  note p = sector_pos_exact [OF assms(1) capacity_lt [OF assms(3)] assms(2)]
  show ?thesis using read_at_ok [of n "replicate (bps b) 0" d "sector_pos b po s"] assms(3) p
    by (simp add: read_sector_def sector_byte_def)
qed

lemma write_sector_ok:
  assumes "volume b po capacity" "unat s < unat (total_sectors b)" "ready (n + cost (bps b)) d" "length buf = bps b"
  shows "\<exists>d'. write_sector ops b po d s buf = (d', Inr ())
    \<and> ready n d' \<and> content d' = overwrite (content d) (sector_byte b po (unat s)) buf"
proof -
  note p = sector_pos_exact [OF assms(1) capacity_lt [OF assms(3)] assms(2)]
  show ?thesis using write_at_ok [of n buf d "sector_pos b po s"] assms(3,4) p
    by (simp add: write_sector_def sector_byte_def)
qed

lemma read_entry_ok:
  assumes v: "volume b po capacity" and c: "in_fat b c" and r: "ready (n + 2 * cost (bps b)) d"
  shows "\<exists>d'. read_entry ops b po d c = (d', Inr (fat_value b po (content d) c)) \<and> ready n d' \<and> content d' = content d"
proof -
  let ?s = "entry_sector b c" and ?off = "entry_offset b c" and ?w = "entry_width (bpb_fat_type b)"
  have "ready ((n + cost (bps b)) + cost (bps b)) d" using r by (simp add: mult_2 add.assoc)
  from read_sector_ok [OF v entry_sector_lt(1) [OF v c] this] obtain d1 where
    d1: "read_sector ops b po d ?s = (d1, Inr (span (content d) (sector_byte b po (unat ?s)) (bps b)))"
      "ready (n + cost (bps b)) d1" "content d1 = content d" by (elim exE conjE)
  show ?thesis
  proof (cases "straddles b c")
    case False
    let ?buf = "span (content d) (sector_byte b po (unat ?s)) (bps b)"
    have fit: "?off + ?w \<le> bps b" using False by (simp add: not_straddles)
    then have "take ?w (drop ?off ?buf) = span (content d) (fat_pos b po c) ?w"
      using fat_pos_sector [OF v c] by (simp add: take_drop_span)
    moreover have "?off \<noteq> bps b - Suc 0" if "bpb_fat_type b = Fat12"
      using fit that bps_pos [OF v] by (simp add: entry_width_def)
    ultimately have "read_entry ops b po d c = (d1, Inr (fat_value b po (content d) c))"
      using d1(1) fit by (cases "bpb_fat_type b")
        (simp_all add: read_entry_def fat_value_def fat_decode_def entry_width_def get_le_Some le_at_def Let_def)
    then show ?thesis using d1 ready_mono [OF d1(2), of n] by simp
  next
    case True
    note st = straddles_cases [OF v c True] and nx = straddle_next [OF v c True]
    from read_sector_ok [OF v _ d1(2), of "?s + 1"] nx obtain d2 where
      d2: "read_sector ops b po d1 (?s + 1) = (d2, Inr (span (content d) (fat_pos b po c + 1) (bps b)))"
        "ready n d2" "content d2 = content d" unfolding d1(3) by auto
    have "span (content d) (sector_byte b po (unat ?s)) (bps b) ! (bps b - Suc 0) = content d (fat_pos b po c)"
      using fat_pos_sector [OF v c] st(2) bps_pos [OF v] by simp
    then have "read_entry ops b po d c = (d2, Inr (fat_value b po (content d) c))"
      using d1(1) d2(1) st bps_pos [OF v]
      by (simp add: read_entry_def fat_value_def fat_decode_def entry_width_def index_def span_2 Let_def)
    then show ?thesis using d2 by simp
  qed
qed

end

text \<open>The contents of the device after the sector \<open>buf\<close> went to the copies \<open>is\<close> of the table.\<close>

definition overwrite_copies :: "bpb \<Rightarrow> u64 \<Rightarrow> u32 \<Rightarrow> bytes \<Rightarrow> nat list \<Rightarrow> (nat \<Rightarrow> u8) \<Rightarrow> nat \<Rightarrow> u8" where
  "overwrite_copies b po c buf is cont = fold (\<lambda>i cont. overwrite cont (copy_pos b po c i) buf) is cont"

lemma overwrite_copies_simps [simp]:
  "overwrite_copies b po c buf [] cont = cont"
  "overwrite_copies b po c buf (i # is) cont = overwrite_copies b po c buf is (overwrite cont (copy_pos b po c i) buf)"
  by (simp_all add: overwrite_copies_def)

lemma overwrite_copies_outside:
  "(\<And>i. i \<in> set is \<Longrightarrow> x < copy_pos b po c i \<or> copy_pos b po c i + length buf \<le> x) \<Longrightarrow>
    overwrite_copies b po c buf is cont x = cont x"
proof (induction "is" arbitrary: cont)
  case (Cons i "is")
  then have "overwrite_copies b po c buf is (overwrite cont (copy_pos b po c i) buf) x = overwrite cont (copy_pos b po c i) buf x"
    by simp
  also have "\<dots> = cont x" using Cons.prems [of i] by (auto simp: overwrite_def)
  finally show ?case by simp
qed simp

lemma overwrite_copies_inside:
  assumes "volume b po cap" "in_fat b c" "length buf = bps b" "distinct is" "i \<in> set is"
    "copy_pos b po c i \<le> x" "x < copy_pos b po c i + bps b"
  shows "overwrite_copies b po c buf is cont x = buf ! (x - copy_pos b po c i)"
  using assms(4,5)
proof (induction "is" arbitrary: cont)
  case (Cons j "is")
  show ?case
  proof (cases "j = i")
    case True
    have "x < copy_pos b po c k \<or> copy_pos b po c k + length buf \<le> x" if "k \<in> set is" for k
    proof -
      have "k \<noteq> i" using that Cons.prems(1) True by auto
      then have "k < i \<or> i < k" by linarith
      then show ?thesis using copies_apart [OF assms(1,2)] assms(3,6,7) by fastforce
    qed
    then have "overwrite_copies b po c buf is (overwrite cont (copy_pos b po c i) buf) x = overwrite cont (copy_pos b po c i) buf x"
      by (rule overwrite_copies_outside)
    then show ?thesis using True assms(3,6,7) by (simp add: overwrite_def)
  qed (use Cons in simp)
qed simp

context block_device
begin

lemma write_mirrors_ok:
  assumes "volume b po capacity" "in_fat b c" "length buf = bps b"
    "\<And>i. i \<in> set is \<Longrightarrow> i < unat (num_fats b)" "ready (n + length is * cost (bps b)) d"
  shows "\<exists>d'. write_mirrors ops b po (entry_sector b c) buf is d = (d', Inr ()) \<and> ready n d'
    \<and> content d' = overwrite_copies b po c buf is (content d)"
  using assms(4,5)
proof (induction "is" arbitrary: d)
  case (Cons i "is")
  note ms = mirror_sector [OF assms(1,2) Cons.prems(1) [OF list.set_intros(1)]]
  have r: "ready ((n + length is * cost (bps b)) + cost (bps b)) d" using Cons.prems(2) by (simp add: algebra_simps)
  have lt: "unat (entry_sector b c + of_nat i * fat_size b) < unat (total_sectors b)" using ms by simp
  from write_sector_ok [OF assms(1) lt r assms(3)] obtain d1 where
    d1: "write_sector ops b po d (entry_sector b c + of_nat i * fat_size b) buf = (d1, Inr ())"
      "ready (n + length is * cost (bps b)) d1" "content d1 = overwrite (content d) (copy_pos b po c i) buf"
    by (auto simp: ms(1) copy_pos_def)
  from Cons.IH [OF _ d1(2)] Cons.prems(1) obtain d2 where
    "write_mirrors ops b po (entry_sector b c) buf is d1 = (d2, Inr ())" "ready n d2"
      "content d2 = overwrite_copies b po c buf is (content d1)" by auto
  then show ?case using d1 by simp
qed simp

lemma write_entry_ok:
  fixes x :: u32
  assumes v: "volume b po capacity" and c: "in_fat b c" and ns: "\<not> straddles b c"
    and r: "ready (n + (1 + unat (num_fats b)) * cost (bps b)) d"
  defines "w \<equiv> entry_width (bpb_fat_type b)"
  defines "bs \<equiv> fat_encode (bpb_fat_type b) c x (span (content d) (fat_pos b po c) w)"
  defines "buf \<equiv> splice (entry_offset b c) bs (span (content d) (copy_pos b po c 0) (bps b))"
  shows "\<exists>d'. write_entry ops b po d c x = (d', Inr ()) \<and> ready n d'
    \<and> content d' = overwrite_copies b po c buf [0..<unat (num_fats b)] (content d)"
proof -
  let ?s = "entry_sector b c" and ?off = "entry_offset b c"
  have nf: "0 < unat (num_fats b)" using v validate_sizes(3) by (simp add: volume_def)
  have fit: "?off + w \<le> bps b" using ns by (simp add: not_straddles w_def)
  have s0: "sector_byte b po (unat ?s) = copy_pos b po c 0" by (simp add: copy_pos_def)
  have "ready ((n + unat (num_fats b) * cost (bps b)) + cost (bps b)) d" using r by (simp add: algebra_simps)
  from read_sector_ok [OF v entry_sector_lt(1) [OF v c] this] obtain d1 where
    d1: "read_sector ops b po d ?s = (d1, Inr (span (content d) (copy_pos b po c 0) (bps b)))"
      "ready (n + unat (num_fats b) * cost (bps b)) d1" "content d1 = content d" unfolding s0 by (elim exE conjE)
  have lenbs: "length bs = w" by (simp add: bs_def w_def)
  then have lenbuf: "length buf = bps b" using fit by (simp add: buf_def)
  have "take w (drop ?off (span (content d) (copy_pos b po c 0) (bps b))) = span (content d) (fat_pos b po c) w"
    using fat_pos_sector [OF v c] fit by (simp add: take_drop_span s0)
  then have up: "update_entry (bpb_fat_type b) c x ?off (span (content d) (copy_pos b po c 0) (bps b))
      = (Inr buf :: (file_error fault, bytes) result)"
    unfolding buf_def bs_def w_def using fit by (subst update_entry_splice) (simp_all add: w_def)
  have "ready ((n + (unat (num_fats b) - 1) * cost (bps b)) + cost (bps b)) d1"
    using d1(2) nf by (cases "unat (num_fats b)") (simp_all add: algebra_simps)
  from write_sector_ok [OF v entry_sector_lt(1) [OF v c] this lenbuf] obtain d2 where
    d2: "write_sector ops b po d1 ?s buf = (d2, Inr ())" "ready (n + (unat (num_fats b) - 1) * cost (bps b)) d2"
      "content d2 = overwrite (content d) (copy_pos b po c 0) buf" unfolding s0 d1(3) by (elim exE conjE)
  have "ready (n + length [1..<unat (num_fats b)] * cost (bps b)) d2" using d2(2) by simp
  from write_mirrors_ok [OF v c lenbuf _ this] obtain d3 where
    d3: "write_mirrors ops b po ?s buf [1..<unat (num_fats b)] d2 = (d3, Inr ())" "ready n d3"
      "content d3 = overwrite_copies b po c buf [1..<unat (num_fats b)] (content d2)" by auto
  have "[0..<unat (num_fats b)] = 0 # [1..<unat (num_fats b)]" using nf by (simp add: upt_conv_Cons)
  then show ?thesis using d1(1) d2 d3 up by (simp add: write_entry_def Let_def)
qed

end

text \<open>What a write of \<open>x\<close> for cluster \<open>c\<close> leaves on the device: only the table changes, entry \<open>c\<close> of it is
  \<open>x\<close> cut to the width of an entry, every other entry is as before, and all copies of the sector agree.\<close>

definition entry_written :: "bpb \<Rightarrow> u64 \<Rightarrow> u32 \<Rightarrow> u32 \<Rightarrow> (nat \<Rightarrow> u8) \<Rightarrow> (nat \<Rightarrow> u8) \<Rightarrow> bool" where
  "entry_written b po c x cont cont' \<longleftrightarrow>
    (\<forall>y. y < fat_base b po \<or> fat_end b po \<le> y \<longrightarrow> cont' y = cont y)
    \<and> (\<forall>c'. in_fat b c' \<longrightarrow> fat_value b po cont' c' = (if c' = c then x AND fat_mask (bpb_fat_type b) else fat_value b po cont c'))
    \<and> (\<forall>i<unat (num_fats b). span cont' (copy_pos b po c i) (bps b) = span cont' (copy_pos b po c 0) (bps b))"

lemma entry_written_copies:
  fixes x :: u32 and cont :: "nat \<Rightarrow> u8"
  assumes v: "volume b po cap" and c: "in_fat b c" and ns: "\<not> straddles b c"
  defines "w \<equiv> entry_width (bpb_fat_type b)"
  defines "bs \<equiv> fat_encode (bpb_fat_type b) c x (span cont (fat_pos b po c) w)"
  defines "buf \<equiv> splice (entry_offset b c) bs (span cont (copy_pos b po c 0) (bps b))"
  defines "cont' \<equiv> overwrite_copies b po c buf [0..<unat (num_fats b)] cont"
  shows "entry_written b po c x cont cont'"
proof -
  let ?ty = "bpb_fat_type b"
  have nf: "0 < unat (num_fats b)" using v validate_sizes(3) by (simp add: volume_def)
  have lenbs: "length bs = w" by (simp add: bs_def w_def)
  have fit: "entry_offset b c + length bs \<le> bps b" using ns by (simp add: lenbs not_straddles w_def)
  then have lenbuf: "length buf = bps b" by (simp add: buf_def)
  have p0: "copy_pos b po c 0 + entry_offset b c = fat_pos b po c"
    using fat_pos_sector [OF v c] by (simp add: copy_pos_def)
  have first: "overwrite cont (copy_pos b po c 0) buf = overwrite cont (fat_pos b po c) bs"
    unfolding buf_def using fit p0 by (simp add: overwrite_splice)
  have cont': "cont' = overwrite_copies b po c buf [1..<unat (num_fats b)] (overwrite cont (fat_pos b po c) bs)"
    using nf by (simp add: cont'_def upt_conv_Cons first [symmetric])
  have primary: "cont' y = overwrite cont (fat_pos b po c) bs y" if y: "y < fat_base b po + unat (fat_size b) * bps b" for y
  proof -
    have "y < copy_pos b po c i" if "1 \<le> i" "i < unat (num_fats b)" for i
    proof -
      have "1 * (unat (fat_size b) * bps b) \<le> i * (unat (fat_size b) * bps b)" using that(1) by (intro mult_right_mono) auto
      moreover have "copy_pos b po c i = copy_pos b po c 0 + i * (unat (fat_size b) * bps b)"
        by (simp add: copy_pos_def sector_byte_def algebra_simps)
      ultimately show ?thesis using y copy_bounds(1) [OF v c nf] by linarith
    qed
    then show ?thesis unfolding cont' by (intro overwrite_copies_outside) simp
  qed
  have outside: "cont' y = cont y" if "y < fat_base b po \<or> fat_end b po \<le> y" for y
    unfolding cont'_def using copy_bounds [OF v c] that lenbuf
    by (intro overwrite_copies_outside) (fastforce dest: order_less_le_trans order_trans)
  have vals: "fat_value b po cont' c' = (if c' = c then x AND fat_mask ?ty else fat_value b po cont c')" if "in_fat b c'" for c'
  proof -
    have "fat_pos b po c' + w \<le> fat_base b po + unat (fat_size b) * bps b"
      using that by (simp add: in_fat_def fat_pos_def w_def)
    then have sp: "span cont' (fat_pos b po c') w = span (overwrite cont (fat_pos b po c) bs) (fat_pos b po c') w"
      by (intro nth_equalityI) (simp_all add: primary)
    show ?thesis
    proof (cases "c' = c")
      case True
      then show ?thesis using sp span_overwrite_same [of cont "fat_pos b po c" bs]
        by (simp add: fat_value_def w_def [symmetric] lenbs) (simp add: bs_def decode_encode)
    next
      case False
      then show ?thesis using sp encode_other [of c c' ?ty cont "fat_base b po" x]
        by (simp add: fat_value_def w_def [symmetric] bs_def fat_pos_def)
    qed
  qed
  have copies: "span cont' (copy_pos b po c i) (bps b) = buf" if "i < unat (num_fats b)" for i
    unfolding cont'_def using that lenbuf
    by (intro nth_equalityI) (simp_all add: overwrite_copies_inside [OF v c lenbuf, where i = i])
  show ?thesis unfolding entry_written_def using outside vals copies nf by blast
qed

context block_device
begin

lemma write_entry_values:
  assumes "volume b po capacity" "in_fat b c" "\<not> straddles b c" "ready (n + (1 + unat (num_fats b)) * cost (bps b)) d"
  shows "\<exists>d'. write_entry ops b po d c x = (d', Inr ()) \<and> ready n d' \<and> entry_written b po c x (content d) (content d')"
proof -
  from write_entry_ok [OF assms, of x] obtain d' where "write_entry ops b po d c x = (d', Inr ())" "ready n d'"
    and d': "content d' = overwrite_copies b po c (splice (entry_offset b c)
      (fat_encode (bpb_fat_type b) c x (span (content d) (fat_pos b po c) (entry_width (bpb_fat_type b))))
      (span (content d) (copy_pos b po c 0) (bps b))) [0..<unat (num_fats b)] (content d)" by (elim exE conjE)
  then show ?thesis using entry_written_copies [OF assms(1-3), of x "content d"] by auto
qed

lemma find_free_first:
  assumes v: "volume b po capacity" and cs: "\<And>c. c \<in> set cs \<Longrightarrow> in_fat b (of_nat c) \<and> \<not> straddles b (of_nat c)"
    and r: "ready (n + (2 * length cs + 1 + unat (num_fats b)) * cost (bps b)) d"
  shows "\<exists>d'. ready n d' \<and> (case List.find (\<lambda>c. fat_value b po (content d) (of_nat c) = 0) cs of
      None \<Rightarrow> find_free ops b po cs d = (d', Inl (Fail (Other ''No free clusters''))) \<and> content d' = content d
    | Some c \<Rightarrow> find_free ops b po cs d = (d', Inr (of_nat c))
        \<and> entry_written b po (of_nat c) (eoc_mark (bpb_fat_type b)) (content d) (content d'))"
  using cs r
proof (induction cs arbitrary: d)
  case Nil
  then show ?case using ready_mono [of _ d n] by auto
next
  case (Cons c cs)
  have c: "in_fat b (of_nat c)" "\<not> straddles b (of_nat c)" using Cons.prems(1) by auto
  have "ready ((n + (2 * length cs + 1 + unat (num_fats b)) * cost (bps b)) + 2 * cost (bps b)) d"
    using Cons.prems(2) by (simp add: algebra_simps)
  from read_entry_ok [OF v c(1) this] obtain d1 where
    d1: "read_entry ops b po d (of_nat c) = (d1, Inr (fat_value b po (content d) (of_nat c)))"
      "ready (n + (2 * length cs + 1 + unat (num_fats b)) * cost (bps b)) d1" "content d1 = content d" by (elim exE conjE)
  show ?case
  proof (cases "fat_value b po (content d) (of_nat c) = 0")
    case True
    have "(1 + unat (num_fats b)) * cost (bps b) \<le> (2 * length cs + 1 + unat (num_fats b)) * cost (bps b)"
      by (rule mult_right_mono) simp_all
    then have "ready (n + (1 + unat (num_fats b)) * cost (bps b)) d1" using ready_mono [OF d1(2)] by simp
    from write_entry_values [OF v c this, of "eoc_mark (bpb_fat_type b)"] obtain d2 where
      "write_entry ops b po d1 (of_nat c) (eoc_mark (bpb_fat_type b)) = (d2, Inr ())" "ready n d2"
      "entry_written b po (of_nat c) (eoc_mark (bpb_fat_type b)) (content d) (content d2)"
      unfolding d1(3) by (elim exE conjE)
    then show ?thesis using True d1(1) by auto
  next
    case False
    from Cons.IH [OF _ d1(2)] Cons.prems(1) have "\<exists>d'. ready n d' \<and> (case List.find (\<lambda>c. fat_value b po (content d1) (of_nat c) = 0) cs of
      None \<Rightarrow> find_free ops b po cs d1 = (d', Inl (Fail (Other ''No free clusters''))) \<and> content d' = content d1
    | Some c \<Rightarrow> find_free ops b po cs d1 = (d', Inr (of_nat c))
        \<and> entry_written b po (of_nat c) (eoc_mark (bpb_fat_type b)) (content d1) (content d'))" by auto
    moreover have step: "find_free ops b po (c # cs) d = find_free ops b po cs d1" using False d1(1) by simp
    ultimately show ?thesis using False unfolding d1(3) step by simp
  qed
qed

end

context block_device
begin

text \<open>A FAT12 entry that crosses a sector boundary: only its first byte is written.\<close>

lemma write_entry_straddle:
  assumes v: "volume b po capacity" and c: "in_fat b c" and st: "straddles b c"
    and r: "ready (n + (1 + unat (num_fats b)) * cost (bps b)) d" and one: "num_fats b = 1"
  shows "\<exists>d'. write_entry ops b po d c x = (d', Inr ()) \<and> content d' (fat_pos b po c + 1) = content d (fat_pos b po c + 1)"
proof -
  let ?s = "entry_sector b c" and ?off = "entry_offset b c"
  note sc = straddles_cases [OF v c st] and pos = bps_pos [OF v]
  have r': "ready ((n + cost (bps b)) + cost (bps b)) d" using r one by (simp add: algebra_simps)
  from read_sector_ok [OF v entry_sector_lt(1) [OF v c] r'] obtain d1 where
    d1: "read_sector ops b po d ?s = (d1, Inr (span (content d) (sector_byte b po (unat ?s)) (bps b)))"
      "ready (n + cost (bps b)) d1" "content d1 = content d" by (elim exE conjE)
  obtain buf where buf: "update_entry Fat12 c x ?off (span (content d) (sector_byte b po (unat ?s)) (bps b)) = (Inr buf :: (file_error fault, bytes) result)"
    and len: "length buf = bps b"
    using sc pos by (simp add: update_entry_def index_def Let_def)
  from write_sector_ok [OF v entry_sector_lt(1) [OF v c] d1(2) len] obtain d2 where
    d2: "write_sector ops b po d1 ?s buf = (d2, Inr ())" "ready n d2"
      "content d2 = overwrite (content d) (sector_byte b po (unat ?s)) buf" unfolding d1(3) by (elim exE conjE)
  have "sector_byte b po (unat ?s) + bps b = fat_pos b po c + 1" using fat_pos_sector [OF v c] sc(2) pos by simp
  then have "content d2 (fat_pos b po c + 1) = content d (fat_pos b po c + 1)"
    unfolding d2(3) using len by (simp add: overwrite_def)
  then show ?thesis using d1(1) d2(1) buf sc(1) one by (simp add: write_entry_def Let_def)
qed

end

section \<open>The table of a volume on the kernel's disk\<close>


definition sample_bpb :: bpb where
  "sample_bpb = \<lparr>bytes_per_sector = 512, sectors_per_cluster = 1, reserved_sector_count = 1, num_fats = 2,
     root_entry_count = 512, total_sectors_16 = 20000, media_type = 0xF8, fat_size_16 = 80, sectors_per_track = 63,
     num_heads = 16, hidden_sectors = 0, total_sectors_32 = 0, fat_size_32 = 0, root_cluster = 0\<rparr>"

lemma sample_bpb_geometry:
  "total_sectors sample_bpb = 20000" "fat_size sample_bpb = 80" "root_dir_sectors sample_bpb = 32"
  "first_data_sector sample_bpb = 193" "bpb_fat_type sample_bpb = Fat16" "total_clusters sample_bpb = 19807"
  "bps sample_bpb = 512" "unat (num_fats sample_bpb) = 2"
  by (simp_all add: sample_bpb_def total_sectors_def fat_size_def root_dir_sectors_def first_data_sector_def
      bpb_fat_type_def total_clusters_def)

lemma sample_bpb_volume: "volume sample_bpb 0 (2 ^ 40)"
proof -
  have "bpb_validate sample_bpb = Inr ()"
    by (simp add: bpb_validate_def sample_bpb_geometry(1-3,5)) (simp add: sample_bpb_def)
  then show ?thesis using sample_bpb_geometry(1-3,7,8)
    by (simp add: volume_def) (simp add: sample_bpb_def)
qed

lemma sample_bpb_in_fat:
  assumes "unat c < 19809" shows "in_fat sample_bpb c \<and> \<not> straddles sample_bpb c"
proof -
  have "in_fat sample_bpb c" using assms by (simp add: in_fat_def sample_bpb_geometry fat_offset_nat_def entry_width_def)
  with straddles_cases(1) [OF sample_bpb_volume this] show ?thesis by (auto simp: sample_bpb_geometry)
qed


text \<open>Every data cluster has an entry, inside one sector of the table.\<close>

definition table_covers :: "bpb \<Rightarrow> bool" where
  "table_covers b \<longleftrightarrow> (\<forall>c. unat c < unat (total_clusters b + 2) \<longrightarrow> in_fat b c \<and> \<not> straddles b c)"

lemma eoc_written: "is_eoc ty (eoc_mark ty AND fat_mask ty)"
  by (cases ty) (simp_all add: is_eoc_def eoc_mark_def fat_mask_def)

lemma find_first_element: "P k \<Longrightarrow> k < n \<Longrightarrow> List.find P [k..<n] = Some k"
  by (simp add: upt_conv_Cons)

lemma range_cluster: "c \<in> set [2..<unat (b :: u32)] \<Longrightarrow> unat (of_nat c :: u32) = c"
  using unsigned_less [of b, where 'a = nat] by (simp add: unat_of_nat)



end
