(* ===== verification/Runs.thy ===== *)
theory Runs
  imports Prelude
begin

text \<open>
  Operations that pass a state, can fail, and may not return: a loop that follows pointers on a disk
  is defined by \<open>partial_function (option)\<close>, and the value \<open>None\<close> stands for a loop that never ends.
\<close>

type_synonym ('s, 'e, 'a) run = "('s \<times> ('e, 'a) result) option"

definition lbind :: "('s, 'e, 'a) run \<Rightarrow> ('s \<Rightarrow> 'a \<Rightarrow> ('s, 'e, 'b) run) \<Rightarrow> ('s, 'e, 'b) run" where
  "lbind m f = (case m of None \<Rightarrow> None | Some (s, Inl e) \<Rightarrow> Some (s, Inl e) | Some (s, Inr a) \<Rightarrow> f s a)"

lemma lbind_simps [simp]:
  "lbind None f = None" "lbind (Some (s, Inl e)) f = Some (s, Inl e)" "lbind (Some (s, Inr a)) f = f s a"
  by (simp_all add: lbind_def)

lemma lbind_mono [partial_function_mono]:
  assumes "mono_option m" "\<And>s a. mono_option (\<lambda>r. f r s a)"
  shows "mono_option (\<lambda>r. lbind (m r) (f r))"
proof (rule monotoneI, goal_cases)
  case (1 x y)
  have m: "option_ord (m x) (m y)" using assms(1) 1 by (rule monotoneD [of _ _ _ x y])
  have f: "option_ord (f x s a) (f y s a)" for s a using assms(2) 1 by (rule monotoneD [of _ _ _ x y])
  show ?case
  proof (cases "m x")
    case None
    then show ?thesis by (simp add: flat_ord_def)
  next
    case (Some sr)
    obtain s r where sr: "sr = (s, r)" by (cases sr)
    have "m y = m x" using m Some by (simp add: flat_ord_def)
    then show ?thesis using f Some sr by (cases r) (simp_all add: flat_ord_def)
  qed
qed

lemma lbind_cong [fundef_cong]:
  "m = m' \<Longrightarrow> (\<And>s a. m' = Some (s, Inr a) \<Longrightarrow> f s a = g s a) \<Longrightarrow> lbind m f = lbind m' g"
  by (auto simp: lbind_def split: option.splits sum.splits)

lemma lbind_assoc: "lbind (lbind m f) g = lbind m (\<lambda>s a. lbind (f s a) g)"
  by (auto simp: lbind_def split: option.splits sum.splits)

lemma lbind_Inr_iff:
  "lbind m f = Some (s', Inr b) \<longleftrightarrow> (\<exists>s a. m = Some (s, Inr a) \<and> f s a = Some (s', Inr b))"
  by (auto simp: lbind_def split: option.splits sum.splits)

text \<open>An operation on a part of the state, run on the whole.\<close>

definition run_on :: "('t \<Rightarrow> 's) \<Rightarrow> ('t, 'e, 'a) run \<Rightarrow> ('s, 'e, 'a) run" where
  "run_on put m = map_option (apfst put) m"

lemma run_on_simps [simp]: "run_on put None = None" "run_on put (Some (t, r)) = Some (put t, r)"
  by (simp_all add: run_on_def)

end
