(* ===== verification/VfsCore.thy ===== *)
theory VfsCore
  imports Disk Runs
begin

text \<open>
  The types of the virtual filesystem every filesystem driver uses (\<open>zenos-kernel/src/disk/vfs.rs\<close>):
  inodes, permissions, directory entries and the result of \<open>stat\<close>.  The driver's part of an inode,
  a trait object in the source, is the type parameter of \<open>inode\<close>.
\<close>

datatype file_type = File | Directory | Symlink | Socket | CharDevice | BlockDevice | Fifo

record 'n inode =
  ino_num :: u64
  ino_kind :: file_type
  ino_size :: u64
  ino_perms :: u16
  ino_links :: u64
  owner_uid :: u64
  owner_gid :: u64
  access_time :: u64
  modified_time :: u64
  change_time :: u64
  ino_data :: 'n

record stat =
  st_dev :: u64
  st_ino :: u64
  st_mode :: u32
  st_nlink :: u64
  st_uid :: u32
  st_gid :: u32
  st_rdev :: u64
  st_size :: u64
  st_blksize :: u64
  st_blocks :: u64
  st_atime :: u64
  st_mtime :: u64
  st_ctime :: u64

text \<open>The flags of the bit set \<open>Permissions\<close>.\<close>

definition SET_UID :: u16 where "SET_UID = 0x800"
definition SET_GID :: u16 where "SET_GID = 0x400"
definition STICKY :: u16 where "STICKY = 0x200"
definition OWNER_READ :: u16 where "OWNER_READ = 0x100"
definition OWNER_WRITE :: u16 where "OWNER_WRITE = 0x80"
definition OWNER_EXEC :: u16 where "OWNER_EXEC = 0x40"
definition GROUP_READ :: u16 where "GROUP_READ = 0x20"
definition GROUP_WRITE :: u16 where "GROUP_WRITE = 0x10"
definition GROUP_EXEC :: u16 where "GROUP_EXEC = 0x8"
definition OTHER_READ :: u16 where "OTHER_READ = 0x4"
definition OTHER_WRITE :: u16 where "OTHER_WRITE = 0x2"
definition OTHER_EXEC :: u16 where "OTHER_EXEC = 0x1"

definition all_permissions :: u16 where "all_permissions = 0xFFF"

definition contains :: "'a::len word \<Rightarrow> 'a word \<Rightarrow> bool" where
  "contains flags other \<longleftrightarrow> flags AND other = other"

text \<open>A directory entry; the inode is a reference, an index into the driver's inodes.\<close>

record 'i dir_entry =
  entry_name :: string
  entry_inode :: 'i
  entry_pos :: u64
  entry_type :: file_type

text \<open>\<open>BlockDevice::get_dev_id\<close>, which no device overrides.\<close>

definition get_dev_id :: u64 where "get_dev_id = 0"

end
