(* ===== verification/FatFs.thy ===== *)
theory FatFs
  imports FatTable VfsCore
begin

text \<open>
  The FAT filesystem, \<open>zenos-kernel/src/disk/fs/fat/mod.rs\<close>: mounting, directories and files as the
  inodes of the virtual filesystem.  A reference to an inode is its index in \<open>inodes\<close>; \<open>live\<close> says
  which of them still have a strong reference (\<open>Weak::upgrade\<close>), and \<open>now\<close> is the clock.  Loops that
  follow a cluster chain may not end on a cyclic chain: their value is then \<open>None\<close>.
\<close>

section \<open>State\<close>

record inode_key =
  dir_cluster :: u32
  entry_index :: nat
  in_root :: bool

record fat_file =
  file_entry :: fat_dir_entry
  file_cursor :: u64
  file_dir_cluster :: u32
  file_entry_index :: nat
  file_in_root :: bool

datatype fat_node = FatDirectory u32 bool | FatFile fat_file

record 'd fat_fs =
  fs_device :: 'd
  fs_bpb :: bpb
  fs_fat_type :: fat_type
  fs_partition_offset :: u64
  ino_cache :: "inode_key \<Rightarrow> nat option"
  inodes :: "fat_node inode list"

type_synonym ('d, 'a) dev_run = "('d, file_error fault, 'a) run"
type_synonym ('d, 'a) fs_run = "('d fat_fs, file_error fault, 'a) run"

definition on_device :: "'d fat_fs \<Rightarrow> ('d \<Rightarrow> ('d, 'a) dev_run) \<Rightarrow> ('d, 'a) fs_run" where
  "on_device fs m = run_on (\<lambda>d. fs\<lparr>fs_device := d\<rparr>) (m (fs_device fs))"

definition fat_mount :: "'d block_ops \<Rightarrow> 'd \<Rightarrow> u64 \<Rightarrow> (fs_mount_error fault, 'd fat_fs) result" where
  "fat_mount ops d po =
    (case sbind (apsnd (map_fail (\<lambda>_. MountReadError)) (bd_seek ops d (Start (0 + po)))) (\<lambda>d _.
            apsnd (map_fail (\<lambda>_. MountReadError)) (bd_read ops d 512)) of
       (d, Inl e) \<Rightarrow> Inl e
     | (d, Inr bs) \<Rightarrow>
         (case bpb_parse (bs @ drop (length bs) (replicate 512 0)) of
            Inl _ \<Rightarrow> Inl (Fail MountReadError)
          | Inr b \<Rightarrow>
              (case bpb_validate b of
                 Inl e \<Rightarrow> Inl (Fail e)
               | Inr _ \<Rightarrow> Inr \<lparr>fs_device = d, fs_bpb = b, fs_fat_type = bpb_fat_type b, fs_partition_offset = po,
                   ino_cache = (\<lambda>_. None), inodes = []\<rparr>)))"

text \<open>A new inode, and its reference.\<close>

definition add_inode :: "'d fat_fs \<Rightarrow> fat_node inode \<Rightarrow> 'd fat_fs \<times> nat" where
  "add_inode fs ino = (fs\<lparr>inodes := inodes fs @ [ino]\<rparr>, length (inodes fs))"

definition fat_root_dir :: "u64 \<Rightarrow> 'd fat_fs \<Rightarrow> 'd fat_fs \<times> nat" where
  "fat_root_dir now fs =
    (let cluster = (if fs_fat_type fs = Fat32 then root_cluster (fs_bpb fs) else 0)
     in add_inode fs
          \<lparr>ino_num = - 1, ino_kind = Directory, ino_size = 0, ino_perms = all_permissions, ino_links = 1, owner_uid = 0,
           owner_gid = 0, access_time = now, modified_time = now, change_time = now, ino_data = FatDirectory cluster True\<rparr>)"

section \<open>Reading directories\<close>

abbreviation cluster_bytes :: "bpb \<Rightarrow> nat" where
  "cluster_bytes b \<equiv> unat (bytes_per_cluster b)"

definition root_dir_sector :: "bpb \<Rightarrow> u32" where
  "root_dir_sector b = ucast (reserved_sector_count b) + ucast (num_fats b) * fat_size b"

definition root_dir_pos :: "bpb \<Rightarrow> u64 \<Rightarrow> u64" where
  "root_dir_pos b po = ucast (root_dir_sector b) * ucast (bytes_per_sector b) + po"

definition root_dir_size :: "bpb \<Rightarrow> nat" where
  "root_dir_size b = unat (root_entry_count b) * 32"

definition chunks :: "nat \<Rightarrow> 'a list \<Rightarrow> 'a list list" where
  "chunks n xs = map (\<lambda>i. take n (drop (i * n) xs)) [0..<(length xs + n - 1) div n]"

text \<open>The entries in a run of slots, and whether the end mark was met.\<close>

fun scan_chunks :: "nat \<Rightarrow> bytes list \<Rightarrow> (fat_dir_entry \<times> nat) list \<times> bool" where
  "scan_chunks i [] = ([], False)"
| "scan_chunks i (c # cs) =
    (if c ! 0 = 0x00 then ([], True)
     else
       let (es, stop) = scan_chunks (i + 1) cs
       in case entry_parse c of
            Some e \<Rightarrow> if \<not> is_long_name e \<and> \<not> is_volume_id e then ((e, i) # es, stop) else (es, stop)
          | None \<Rightarrow> (es, stop))"

partial_function (option) read_dir_loop ::
  "'d block_ops \<Rightarrow> bpb \<Rightarrow> u64 \<Rightarrow> bytes \<Rightarrow> u32 \<Rightarrow> nat \<Rightarrow> (fat_dir_entry \<times> nat) list \<Rightarrow> 'd
    \<Rightarrow> ('d, (fat_dir_entry \<times> nat) list) dev_run" where
  "read_dir_loop ops b po buf cluster idx acc d =
    lbind (Some (read_cluster ops b po d cluster buf)) (\<lambda>d buf.
      let (es, stop) = scan_chunks idx (chunks 32 buf)
      in if stop then Some (d, Inr (acc @ es))
         else lbind (Some (read_entry ops b po d cluster)) (\<lambda>d next.
           if is_eoc (bpb_fat_type b) next then Some (d, Inr (acc @ es))
           else read_dir_loop ops b po buf next (idx + length (chunks 32 buf)) (acc @ es) d))"

definition read_entries :: "'d block_ops \<Rightarrow> u32 \<Rightarrow> bool \<Rightarrow> 'd fat_fs \<Rightarrow> ('d, (fat_dir_entry \<times> nat) list) fs_run" where
  "read_entries ops cluster is_root fs =
    (let b = fs_bpb fs; po = fs_partition_offset fs
     in on_device fs (\<lambda>d.
          if is_root \<and> fs_fat_type fs \<noteq> Fat32
          then lbind (Some (read_at ops d (root_dir_pos b po) (replicate (root_dir_size b) 0))) (\<lambda>d buf.
                 Some (d, Inr (fst (scan_chunks 0 (chunks 32 buf)))))
          else read_dir_loop ops b po (replicate (cluster_bytes b) 0) cluster 0 [] d))"

definition find_entry ::
  "'d block_ops \<Rightarrow> u32 \<Rightarrow> bool \<Rightarrow> string \<Rightarrow> 'd fat_fs \<Rightarrow> ('d, (fat_dir_entry \<times> nat) option) fs_run" where
  "find_entry ops cluster is_root nm fs =
    lbind (read_entries ops cluster is_root fs) (\<lambda>fs es.
      Some (fs, Inr (List.find (\<lambda>(e, i). to_uppercase (short_name e) = to_uppercase nm) es)))"

section \<open>Creating an entry\<close>

definition new_entry :: "string \<Rightarrow> bool \<Rightarrow> u32 \<Rightarrow> fat_dir_entry" where
  "new_entry nm is_dir cluster =
    set_first_cluster cluster
      \<lparr>name = name_to_8_3 nm, attr = (if is_dir then ATTR_DIRECTORY else ATTR_ARCHIVE), nt_reserved = 0,
       create_time_tenth = 0, create_time = 0, create_date = 0, last_access_date = 0, first_cluster_high = 0,
       write_time = 0, write_date = 0, first_cluster_low = 0, file_size = 0\<rparr>"

definition slot_free :: "bytes \<Rightarrow> bool" where
  "slot_free c \<longleftrightarrow> c ! 0 = 0x00 \<or> c ! 0 = 0xE5"

definition free_slot :: "bytes \<Rightarrow> nat option" where
  "free_slot buf = List.find (\<lambda>i. slot_free (chunks 32 buf ! i)) [0..<length (chunks 32 buf)]"

partial_function (option) create_loop ::
  "'d block_ops \<Rightarrow> bpb \<Rightarrow> u64 \<Rightarrow> bytes \<Rightarrow> bytes \<Rightarrow> u32 \<Rightarrow> 'd \<Rightarrow> ('d, unit) dev_run" where
  "create_loop ops b po entry_data buf cluster d =
    lbind (Some (read_cluster ops b po d cluster buf)) (\<lambda>d buf.
      case free_slot buf of
        Some i \<Rightarrow> Some (write_cluster ops b po d cluster (splice (i * 32) entry_data buf))
      | None \<Rightarrow>
          lbind (Some (read_entry ops b po d cluster)) (\<lambda>d next.
            if is_eoc (bpb_fat_type b) next
            then lbind (Some (allocate_cluster ops b po d)) (\<lambda>d new.
                 lbind (Some (write_entry ops b po d cluster new)) (\<lambda>d _.
                 Some (write_cluster ops b po d new (splice 0 entry_data (replicate (cluster_bytes b) 0)))))
            else create_loop ops b po entry_data buf next d))"

definition create_entry ::
  "'d block_ops \<Rightarrow> u32 \<Rightarrow> bool \<Rightarrow> string \<Rightarrow> bool \<Rightarrow> 'd fat_fs \<Rightarrow> ('d, fat_dir_entry) fs_run" where
  "create_entry ops cluster is_root nm is_dir fs =
    (let b = fs_bpb fs; po = fs_partition_offset fs
     in on_device fs (\<lambda>d.
          lbind (if is_dir
                 then lbind (Some (allocate_cluster ops b po d)) (\<lambda>d new.
                      lbind (Some (write_cluster ops b po d new (replicate (cluster_bytes b) 0))) (\<lambda>d _. Some (d, Inr new)))
                 else Some (d, Inr 0)) (\<lambda>d new_cluster.
            let e = new_entry nm is_dir new_cluster
            in if is_root \<and> fs_fat_type fs \<noteq> Fat32
               then lbind (Some (read_at ops d (root_dir_pos b po) (replicate (root_dir_size b) 0))) (\<lambda>d buf.
                      case free_slot buf of
                        Some i \<Rightarrow>
                          lbind (Some (write_at ops d (root_dir_pos b po) (splice (i * 32) (entry_serialize e) buf))) (\<lambda>d _.
                            Some (d, Inr e))
                      | None \<Rightarrow> Some (d, Inl (Fail (Other ''Root directory full''))))
               else lbind (create_loop ops b po (entry_serialize e) (replicate (cluster_bytes b) 0) cluster d) (\<lambda>d _.
                      Some (d, Inr e)))))"

section \<open>Inodes\<close>

definition create_and_cache_inode ::
  "u64 \<Rightarrow> u32 \<Rightarrow> bool \<Rightarrow> inode_key \<Rightarrow> fat_dir_entry \<Rightarrow> nat \<Rightarrow> 'd fat_fs \<Rightarrow> 'd fat_fs \<times> nat" where
  "create_and_cache_inode now cluster is_root key e idx fs =
    (let node = (if is_directory e then FatDirectory (first_cluster e) False
           else FatFile \<lparr>file_entry = e, file_cursor = 0, file_dir_cluster = cluster, file_entry_index = idx, file_in_root = is_root\<rparr>);
         permissions = (if attr e AND ATTR_READ_ONLY \<noteq> 0
           then all_permissions AND NOT (OWNER_WRITE OR GROUP_WRITE OR OTHER_WRITE) else all_permissions);
         (fs, i) = add_inode fs
           \<lparr>ino_num = push_bit 32 (ucast cluster) OR of_nat idx, ino_kind = (if is_directory e then Directory else File),
            ino_size = ucast (file_size e), ino_perms = permissions, ino_links = 1, owner_uid = 0, owner_gid = 0,
            access_time = now, modified_time = now, change_time = now, ino_data = node\<rparr>
     in (fs\<lparr>ino_cache := (ino_cache fs)(key \<mapsto> i)\<rparr>, i))"

text \<open>The inode of an entry: the cached one while it is alive, otherwise a new one.\<close>

definition cached_inode :: "(nat \<Rightarrow> bool) \<Rightarrow> u64 \<Rightarrow> u32 \<Rightarrow> bool \<Rightarrow> fat_dir_entry \<Rightarrow> nat \<Rightarrow> 'd fat_fs \<Rightarrow> 'd fat_fs \<times> nat" where
  "cached_inode live now cluster is_root e idx fs =
    (let key = \<lparr>dir_cluster = cluster, entry_index = idx, in_root = is_root\<rparr>
     in case ino_cache fs key of
          Some i \<Rightarrow>
            if live i then (fs, i)
            else create_and_cache_inode now cluster is_root key e idx (fs\<lparr>ino_cache := (ino_cache fs)(key := None)\<rparr>)
        | None \<Rightarrow> create_and_cache_inode now cluster is_root key e idx fs)"

definition dir_lookup ::
  "'d block_ops \<Rightarrow> (nat \<Rightarrow> bool) \<Rightarrow> u64 \<Rightarrow> u32 \<Rightarrow> bool \<Rightarrow> string \<Rightarrow> 'd fat_fs \<Rightarrow> ('d, nat) fs_run" where
  "dir_lookup ops live now cluster is_root nm fs =
    lbind (find_entry ops cluster is_root nm fs) (\<lambda>fs found.
      case found of
        None \<Rightarrow> Some (fs, Inl (Fail NotFound))
      | Some (e, idx) \<Rightarrow> Some (apsnd Inr (cached_inode live now cluster is_root e idx fs)))"

definition dir_create ::
  "'d block_ops \<Rightarrow> (nat \<Rightarrow> bool) \<Rightarrow> u64 \<Rightarrow> u32 \<Rightarrow> bool \<Rightarrow> string \<Rightarrow> file_type \<Rightarrow> 'd fat_fs \<Rightarrow> ('d, nat) fs_run" where
  "dir_create ops live now cluster is_root nm ft fs =
    lbind (create_entry ops cluster is_root nm (ft = Directory) fs) (\<lambda>fs _. dir_lookup ops live now cluster is_root nm fs)"

fun list_entries ::
  "(nat \<Rightarrow> bool) \<Rightarrow> u64 \<Rightarrow> u32 \<Rightarrow> bool \<Rightarrow> (fat_dir_entry \<times> nat) list \<Rightarrow> 'd fat_fs \<Rightarrow> 'd fat_fs \<times> nat dir_entry list" where
  "list_entries live now cluster is_root [] fs = (fs, [])"
| "list_entries live now cluster is_root ((e, idx) # es) fs =
    (let (fs, i) = cached_inode live now cluster is_root e idx fs;
         (fs, ds) = list_entries live now cluster is_root es fs
     in (fs, \<lparr>entry_name = short_name e, entry_inode = i, entry_pos = of_nat idx,
              entry_type = (if is_directory e then Directory else File)\<rparr> # ds))"

definition dir_read_dir ::
  "'d block_ops \<Rightarrow> (nat \<Rightarrow> bool) \<Rightarrow> u64 \<Rightarrow> u32 \<Rightarrow> bool \<Rightarrow> 'd fat_fs \<Rightarrow> ('d, nat dir_entry list) fs_run" where
  "dir_read_dir ops live now cluster is_root fs =
    lbind (read_entries ops cluster is_root fs) (\<lambda>fs es. Some (apsnd Inr (list_entries live now cluster is_root es fs)))"

definition dir_stat :: "u64 \<Rightarrow> u32 \<Rightarrow> bool \<Rightarrow> 'd fat_fs \<Rightarrow> stat" where
  "dir_stat now cluster is_root fs =
    \<lparr>st_dev = get_dev_id, st_ino = push_bit 32 (ucast cluster) OR (if is_root then 1 else 0), st_mode = 0x41ED, st_nlink = 2,
     st_uid = 0, st_gid = 0, st_rdev = 0, st_size = 0, st_blksize = ucast (bytes_per_cluster (fs_bpb fs)), st_blocks = 0,
     st_atime = now, st_mtime = now, st_ctime = now\<rparr>"

section \<open>Removing a file\<close>

partial_function (option) free_loop :: "'d block_ops \<Rightarrow> bpb \<Rightarrow> u64 \<Rightarrow> u32 \<Rightarrow> 'd \<Rightarrow> ('d, unit) dev_run" where
  "free_loop ops b po cluster d =
    lbind (Some (read_entry ops b po d cluster)) (\<lambda>d next.
    lbind (Some (write_entry ops b po d cluster 0)) (\<lambda>d _.
      if is_eoc (bpb_fat_type b) next then Some (d, Inr ()) else free_loop ops b po next d))"

text \<open>Walking a number of links down a chain, with no check for its end.\<close>

fun follow :: "'d block_ops \<Rightarrow> bpb \<Rightarrow> u64 \<Rightarrow> nat \<Rightarrow> u32 \<Rightarrow> 'd \<Rightarrow> 'd \<times> (file_error fault, u32) result" where
  "follow ops b po 0 cluster d = (d, Inr cluster)"
| "follow ops b po (Suc k) cluster d = sbind (read_entry ops b po d cluster) (\<lambda>d cluster. follow ops b po k cluster d)"

definition entry_slot_pos :: "bpb \<Rightarrow> u64 \<Rightarrow> nat \<Rightarrow> u64" where
  "entry_slot_pos b po idx = ucast (root_dir_sector b) * ucast (bytes_per_sector b) + of_nat (idx * 32) + po"

text \<open>Reading, changing and writing back the cluster of a directory that holds slot \<open>idx\<close>.\<close>

definition update_slot ::
  "'d block_ops \<Rightarrow> bpb \<Rightarrow> u64 \<Rightarrow> u32 \<Rightarrow> nat \<Rightarrow> (nat \<Rightarrow> bytes \<Rightarrow> bytes) \<Rightarrow> 'd \<Rightarrow> 'd \<times> (file_error fault, unit) result" where
  "update_slot ops b po cluster idx change d =
    (let entries_per_cluster = cluster_bytes b div 32
     in sbind (follow ops b po (idx div entries_per_cluster) cluster d) (\<lambda>d cluster.
        sbind (read_cluster ops b po d cluster (replicate (cluster_bytes b) 0)) (\<lambda>d buf.
        write_cluster ops b po d cluster (change ((idx mod entries_per_cluster) * 32) buf))))"

definition mark_deleted :: "'d block_ops \<Rightarrow> u32 \<Rightarrow> bool \<Rightarrow> nat \<Rightarrow> bpb \<Rightarrow> fat_type \<Rightarrow> u64 \<Rightarrow> 'd \<Rightarrow> 'd \<times> (file_error fault, unit) result" where
  "mark_deleted ops cluster is_root idx b ty po d =
    (if is_root \<and> ty \<noteq> Fat32
     then sbind (read_at ops d (entry_slot_pos b po idx) (replicate 32 0)) (\<lambda>d entry_data.
            write_at ops d (entry_slot_pos b po idx) (entry_data[0 := 0xE5]))
     else update_slot ops b po cluster idx (\<lambda>off buf. buf[off := 0xE5]) d)"

definition dir_unlink :: "'d block_ops \<Rightarrow> u32 \<Rightarrow> bool \<Rightarrow> string \<Rightarrow> 'd fat_fs \<Rightarrow> ('d, unit) fs_run" where
  "dir_unlink ops cluster is_root nm fs =
    lbind (find_entry ops cluster is_root nm fs) (\<lambda>fs found.
      case found of
        None \<Rightarrow> Some (fs, Inl (Fail NotFound))
      | Some (e, idx) \<Rightarrow>
          if is_directory e then Some (fs, Inl (Fail IsADirectory))
          else
            let b = fs_bpb fs; po = fs_partition_offset fs
            in lbind (on_device fs (\<lambda>d.
                 lbind (if 2 \<le> first_cluster e then free_loop ops b po (first_cluster e) d else Some (d, Inr ())) (\<lambda>d _.
                 Some (mark_deleted ops cluster is_root idx b (fs_fat_type fs) po d)))) (\<lambda>fs _.
               Some (fs\<lparr>ino_cache := (ino_cache fs)(\<lparr>dir_cluster = cluster, entry_index = idx, in_root = is_root\<rparr> := None)\<rparr>, Inr ())))"

section \<open>Files\<close>

definition sync_entry :: "'d block_ops \<Rightarrow> bpb \<Rightarrow> fat_type \<Rightarrow> u64 \<Rightarrow> fat_file \<Rightarrow> 'd \<Rightarrow> 'd \<times> (file_error fault, unit) result" where
  "sync_entry ops b ty po f d =
    (let entry_data = entry_serialize (file_entry f)
     in if file_in_root f \<and> ty \<noteq> Fat32 then write_at ops d (entry_slot_pos b po (file_entry_index f)) entry_data
        else update_slot ops b po (file_dir_cluster f) (file_entry_index f) (\<lambda>off buf. splice off entry_data buf) d)"

text \<open>Skipping to the cluster under the cursor; \<open>None\<close> when the chain ends before it.\<close>

fun skip_read :: "'d block_ops \<Rightarrow> bpb \<Rightarrow> u64 \<Rightarrow> nat \<Rightarrow> u32 \<Rightarrow> 'd \<Rightarrow> 'd \<times> (file_error fault, u32 option) result" where
  "skip_read ops b po 0 cluster d = (d, Inr (Some cluster))"
| "skip_read ops b po (Suc k) cluster d =
    (if cluster < 2 then (d, Inr None)
     else sbind (read_entry ops b po d cluster) (\<lambda>d next.
       if is_eoc (bpb_fat_type b) next then (d, Inr None) else skip_read ops b po k next d))"

partial_function (option) file_read_loop ::
  "'d block_ops \<Rightarrow> bpb \<Rightarrow> u64 \<Rightarrow> u64 \<Rightarrow> u64 \<Rightarrow> nat \<Rightarrow> u32 \<Rightarrow> nat \<Rightarrow> bytes \<Rightarrow> bytes \<Rightarrow> 'd \<Rightarrow> ('d, bytes) dev_run" where
  "file_read_loop ops b po fsize start n cluster offset_in_cluster cluster_buf acc d =
    (if length acc < n \<and> start + of_nat (length acc) < fsize
     then if cluster < 2 then Some (d, Inr acc)
       else lbind (Some (read_cluster ops b po d cluster cluster_buf)) (\<lambda>d cluster_buf.
         let remaining_in_cluster = cluster_bytes b - offset_in_cluster;
             remaining_in_file = unat (fsize - start - of_nat (length acc));
             remaining_in_buf = n - length acc;
             to_copy = min (min remaining_in_cluster remaining_in_file) remaining_in_buf;
             acc = acc @ take to_copy (drop offset_in_cluster cluster_buf)
         in lbind (Some (read_entry ops b po d cluster)) (\<lambda>d next.
              if is_eoc (bpb_fat_type b) next then Some (d, Inr acc)
              else file_read_loop ops b po fsize start n next 0 cluster_buf acc d))
     else Some (d, Inr acc))"

definition file_read ::
  "'d block_ops \<Rightarrow> bpb \<Rightarrow> u64 \<Rightarrow> u64 \<Rightarrow> nat \<Rightarrow> 'd \<times> fat_file \<Rightarrow> ('d \<times> fat_file, bytes) dev_run" where
  "file_read ops b po offset n = (\<lambda>(d, f).
    let f = f\<lparr>file_cursor := offset\<rparr>; fsize = ucast (file_size (file_entry f)) :: u64; cluster_size = ucast (bytes_per_cluster b) :: u64
    in if offset \<ge> fsize then Some ((d, f), Inr [])
       else
         lbind (run_on (\<lambda>d. (d, f)) (Some (skip_read ops b po (unat (offset div cluster_size)) (first_cluster (file_entry f)) d)))
           (\<lambda>(d, f) found.
             case found of
               None \<Rightarrow> Some ((d, f), Inr [])
             | Some cluster \<Rightarrow>
                 lbind (run_on (\<lambda>d. (d, f)) (file_read_loop ops b po fsize offset n cluster (unat (offset mod cluster_size))
                         (replicate (unat cluster_size) 0) [] d))
                   (\<lambda>(d, f) bs. Some ((d, f\<lparr>file_cursor := file_cursor f + of_nat (length bs)\<rparr>), Inr bs))))"

text \<open>The next cluster of a file that is written: the chain is extended at its end.\<close>

definition next_cluster :: "'d block_ops \<Rightarrow> bpb \<Rightarrow> u64 \<Rightarrow> u32 \<Rightarrow> 'd \<Rightarrow> 'd \<times> (file_error fault, u32) result" where
  "next_cluster ops b po cluster d =
    sbind (read_entry ops b po d cluster) (\<lambda>d next.
      if is_eoc (bpb_fat_type b) next
      then sbind (allocate_cluster ops b po d) (\<lambda>d new. sbind (write_entry ops b po d cluster new) (\<lambda>d _. (d, Inr new)))
      else (d, Inr next))"

fun skip_write :: "'d block_ops \<Rightarrow> bpb \<Rightarrow> u64 \<Rightarrow> nat \<Rightarrow> u32 \<Rightarrow> 'd \<Rightarrow> 'd \<times> (file_error fault, u32) result" where
  "skip_write ops b po 0 cluster d = (d, Inr cluster)"
| "skip_write ops b po (Suc k) cluster d =
    sbind (next_cluster ops b po cluster d) (\<lambda>d cluster. skip_write ops b po k cluster d)"

partial_function (option) file_write_loop ::
  "'d block_ops \<Rightarrow> bpb \<Rightarrow> u64 \<Rightarrow> bytes \<Rightarrow> u32 \<Rightarrow> nat \<Rightarrow> bytes \<Rightarrow> nat \<Rightarrow> 'd \<Rightarrow> ('d, nat) dev_run" where
  "file_write_loop ops b po buf cluster offset_in_cluster cluster_buf bytes_written d =
    (if bytes_written < length buf
     then
       lbind (if offset_in_cluster \<noteq> 0 \<or> length buf - bytes_written < cluster_bytes b
              then Some (read_cluster ops b po d cluster cluster_buf) else Some (d, Inr cluster_buf)) (\<lambda>d cluster_buf.
         let to_copy = min (cluster_bytes b - offset_in_cluster) (length buf - bytes_written);
             cluster_buf = splice offset_in_cluster (take to_copy (drop bytes_written buf)) cluster_buf
         in lbind (Some (write_cluster ops b po d cluster cluster_buf)) (\<lambda>d _.
              let bytes_written = bytes_written + to_copy
              in if bytes_written < length buf
                 then lbind (Some (next_cluster ops b po cluster d)) (\<lambda>d cluster.
                        file_write_loop ops b po buf cluster 0 cluster_buf bytes_written d)
                 else Some (d, Inr bytes_written)))
     else Some (d, Inr bytes_written))"

definition file_write ::
  "'d block_ops \<Rightarrow> bpb \<Rightarrow> fat_type \<Rightarrow> u64 \<Rightarrow> u64 \<Rightarrow> bytes \<Rightarrow> 'd \<times> fat_file \<Rightarrow> ('d \<times> fat_file, nat) dev_run" where
  "file_write ops b ty po offset buf = (\<lambda>(d, f).
    let f = f\<lparr>file_cursor := offset\<rparr>; cluster_size = ucast (bytes_per_cluster b) :: u64
    in if buf = [] then Some ((d, f), Inr 0)
       else
         lbind (if first_cluster (file_entry f) < 2
                then lbind (run_on (\<lambda>d. (d, f)) (Some (allocate_cluster ops b po d))) (\<lambda>(d, f) new.
                       Some ((d, f\<lparr>file_entry := set_first_cluster new (file_entry f)\<rparr>), Inr ()))
                else Some ((d, f), Inr ())) (\<lambda>(d, f) _.
         lbind (run_on (\<lambda>d. (d, f)) (Some (skip_write ops b po (unat (offset div cluster_size)) (first_cluster (file_entry f)) d)))
           (\<lambda>(d, f) cluster.
         lbind (run_on (\<lambda>d. (d, f)) (file_write_loop ops b po buf cluster (unat (offset mod cluster_size))
                 (replicate (unat cluster_size) 0) 0 d)) (\<lambda>(d, f) written.
           let f = f\<lparr>file_cursor := file_cursor f + of_nat written\<rparr>
           in if file_cursor f > ucast (file_size (file_entry f))
              then let f = f\<lparr>file_entry := (file_entry f)\<lparr>file_size := ucast (file_cursor f)\<rparr>\<rparr>
                   in lbind (run_on (\<lambda>d. (d, f)) (Some (sync_entry ops b ty po f d))) (\<lambda>(d, f) _. Some ((d, f), Inr written))
              else Some ((d, f), Inr written)))))"

definition file_truncate ::
  "'d block_ops \<Rightarrow> bpb \<Rightarrow> fat_type \<Rightarrow> u64 \<Rightarrow> u64 \<Rightarrow> 'd \<times> fat_file \<Rightarrow> ('d \<times> fat_file, unit) dev_run" where
  "file_truncate ops b ty po sz s =
    lbind (file_read ops b po 0 (unat sz) s) (\<lambda>(d, f) bs.
    lbind (file_write ops b ty po 0 (bs @ replicate (unat sz - length bs) 0) (d, f\<lparr>file_cursor := 0\<rparr>)) (\<lambda>(d, f) _.
      let f = f\<lparr>file_entry := (file_entry f)\<lparr>file_size := ucast sz\<rparr>\<rparr>
      in run_on (\<lambda>d. (d, f)) (Some (sync_entry ops b ty po f d))))"

definition file_stat :: "u64 \<Rightarrow> fat_file \<Rightarrow> 'd fat_fs \<Rightarrow> stat" where
  "file_stat now f fs =
    \<lparr>st_dev = get_dev_id, st_ino = push_bit 32 (ucast (file_dir_cluster f)) OR of_nat (file_entry_index f),
     st_mode = (if attr (file_entry f) AND ATTR_READ_ONLY \<noteq> 0 then 0x8124 else 0x81B6), st_nlink = 1, st_uid = 0, st_gid = 0,
     st_rdev = 0, st_size = ucast (file_size (file_entry f)), st_blksize = ucast (bytes_per_cluster (fs_bpb fs)),
     st_blocks = (ucast (file_size (file_entry f)) + 511) div 512, st_atime = now, st_mtime = now, st_ctime = now\<rparr>"

section \<open>The operations of an inode\<close>

definition put_file :: "nat \<Rightarrow> 'd fat_fs \<Rightarrow> 'd \<times> fat_file \<Rightarrow> 'd fat_fs" where
  "put_file i fs = (\<lambda>(d, f). fs\<lparr>fs_device := d, inodes := (inodes fs)[i := (inodes fs ! i)\<lparr>ino_data := FatFile f\<rparr>]\<rparr>)"

definition ino_read :: "'d block_ops \<Rightarrow> nat \<Rightarrow> u64 \<Rightarrow> nat \<Rightarrow> 'd fat_fs \<Rightarrow> ('d, bytes) fs_run" where
  "ino_read ops i offset n fs =
    (case ino_data (inodes fs ! i) of
       FatDirectory _ _ \<Rightarrow> Some (fs, Inl (Fail IsADirectory))
     | FatFile f \<Rightarrow> run_on (put_file i fs) (file_read ops (fs_bpb fs) (fs_partition_offset fs) offset n (fs_device fs, f)))"

definition ino_write :: "'d block_ops \<Rightarrow> nat \<Rightarrow> u64 \<Rightarrow> bytes \<Rightarrow> 'd fat_fs \<Rightarrow> ('d, nat) fs_run" where
  "ino_write ops i offset buf fs =
    (case ino_data (inodes fs ! i) of
       FatDirectory _ _ \<Rightarrow> Some (fs, Inl (Fail IsADirectory))
     | FatFile f \<Rightarrow> run_on (put_file i fs)
         (file_write ops (fs_bpb fs) (fs_fat_type fs) (fs_partition_offset fs) offset buf (fs_device fs, f)))"

definition ino_truncate :: "'d block_ops \<Rightarrow> nat \<Rightarrow> u64 \<Rightarrow> 'd fat_fs \<Rightarrow> ('d, unit) fs_run" where
  "ino_truncate ops i sz fs =
    (case ino_data (inodes fs ! i) of
       FatDirectory _ _ \<Rightarrow> Some (fs, Inl (Fail IsADirectory))
     | FatFile f \<Rightarrow> run_on (put_file i fs)
         (file_truncate ops (fs_bpb fs) (fs_fat_type fs) (fs_partition_offset fs) sz (fs_device fs, f)))"

definition ino_sync :: "'d block_ops \<Rightarrow> nat \<Rightarrow> 'd fat_fs \<Rightarrow> ('d, unit) fs_run" where
  "ino_sync ops i fs =
    (case ino_data (inodes fs ! i) of
       FatDirectory _ _ \<Rightarrow> Some (fs, Inr ())
     | FatFile f \<Rightarrow> on_device fs (\<lambda>d. Some (sync_entry ops (fs_bpb fs) (fs_fat_type fs) (fs_partition_offset fs) f d)))"

definition ino_unlink :: "'d block_ops \<Rightarrow> nat \<Rightarrow> string \<Rightarrow> 'd fat_fs \<Rightarrow> ('d, unit) fs_run" where
  "ino_unlink ops i nm fs =
    (case ino_data (inodes fs ! i) of
       FatDirectory cluster is_root \<Rightarrow> dir_unlink ops cluster is_root nm fs
     | FatFile _ \<Rightarrow> Some (fs, Inl (Fail NotADirectory)))"

definition ino_lookup :: "'d block_ops \<Rightarrow> (nat \<Rightarrow> bool) \<Rightarrow> u64 \<Rightarrow> nat \<Rightarrow> string \<Rightarrow> 'd fat_fs \<Rightarrow> ('d, nat) fs_run" where
  "ino_lookup ops live now i nm fs =
    (case ino_data (inodes fs ! i) of
       FatDirectory cluster is_root \<Rightarrow> dir_lookup ops live now cluster is_root nm fs
     | FatFile _ \<Rightarrow> Some (fs, Inl (Fail NotADirectory)))"

definition ino_create ::
  "'d block_ops \<Rightarrow> (nat \<Rightarrow> bool) \<Rightarrow> u64 \<Rightarrow> nat \<Rightarrow> string \<Rightarrow> file_type \<Rightarrow> u16 \<Rightarrow> 'd fat_fs \<Rightarrow> ('d, nat) fs_run" where
  "ino_create ops live now i nm ft permissions fs =
    (case ino_data (inodes fs ! i) of
       FatDirectory cluster is_root \<Rightarrow> dir_create ops live now cluster is_root nm ft fs
     | FatFile _ \<Rightarrow> Some (fs, Inl (Fail NotADirectory)))"

definition ino_read_dir :: "'d block_ops \<Rightarrow> (nat \<Rightarrow> bool) \<Rightarrow> u64 \<Rightarrow> nat \<Rightarrow> 'd fat_fs \<Rightarrow> ('d, nat dir_entry list) fs_run" where
  "ino_read_dir ops live now i fs =
    (case ino_data (inodes fs ! i) of
       FatDirectory cluster is_root \<Rightarrow> dir_read_dir ops live now cluster is_root fs
     | FatFile _ \<Rightarrow> Some (fs, Inl (Fail NotADirectory)))"

definition ino_stat :: "u64 \<Rightarrow> nat \<Rightarrow> 'd fat_fs \<Rightarrow> ('d, stat) fs_run" where
  "ino_stat now i fs =
    (case ino_data (inodes fs ! i) of
       FatDirectory cluster is_root \<Rightarrow> Some (fs, Inr (dir_stat now cluster is_root fs))
     | FatFile f \<Rightarrow> Some (fs, Inr (file_stat now f fs)))"

end
