(* ===== verification/FatFiles.thy ===== *)
theory FatFiles
  imports FatFs
begin

text \<open>
  What the FAT filesystem keeps of a file: the clusters of its chain, and the bytes they hold.  Reading,
  writing in place and removing a file (\<open>zenos-kernel/src/disk/fs/fat/mod.rs\<close>) are proved
  against the contract \<open>block_device\<close> and stated for the kernel's AHCI disk.
\<close>

section \<open>The data region\<close>

definition cluster_pos :: "bpb \<Rightarrow> u64 \<Rightarrow> u32 \<Rightarrow> nat" where
  "cluster_pos b po c =
    sector_byte b po (unat (first_data_sector b) + (unat c - 2) * unat (sectors_per_cluster b))"

definition data_cluster :: "bpb \<Rightarrow> u32 \<Rightarrow> bool" where
  "data_cluster b c \<longleftrightarrow> 2 \<le> unat c \<and> unat c < unat (total_clusters b) + 2"

lemma cluster_bytes_exact:
  assumes "volume b po cap"
  shows "cluster_bytes b = bps b * unat (sectors_per_cluster b)" "0 < cluster_bytes b"
    "unat (ucast (bytes_per_cluster b) :: u64) = cluster_bytes b" "32 dvd cluster_bytes b"
proof -
  have v: "bpb_validate b = Inr ()" using assms by (simp add: volume_def)
  have "bps b * unat (sectors_per_cluster b) \<le> 4096 * 128" using validate_sizes(1,2) [OF v] by (intro mult_le_mono) auto
  then show e: "cluster_bytes b = bps b * unat (sectors_per_cluster b)"
    by (simp add: bytes_per_cluster_def unat_word_ariths unat_widen)
  show "0 < cluster_bytes b" unfolding e using validate_sizes(1,2) [OF v] by auto
  show "unat (ucast (bytes_per_cluster b) :: u64) = cluster_bytes b" by (simp add: unat_widen)
  have "32 dvd bps b" using validate_sizes(1) [OF v] by auto
  then show "32 dvd cluster_bytes b" unfolding e by simp
qed

lemma cluster_sector:
  assumes "volume b po cap" "data_cluster b c"
  shows "unat (cluster_to_sector b c) = unat (first_data_sector b) + (unat c - 2) * unat (sectors_per_cluster b)"
    and "unat (first_data_sector b) + (unat c - 1) * unat (sectors_per_cluster b) \<le> unat (total_sectors b)"
proof -
  let ?s = "unat (sectors_per_cluster b)" and ?f = "unat (first_data_sector b)" and ?t = "unat (total_sectors b)"
  have v: "bpb_validate b = Inr ()" using assms by (simp add: volume_def)
  have lt: "?f < ?t" using validate_sizes(4) [OF v] by (simp add: word_less_nat_alt)
  have "unat (total_sectors b - first_data_sector b) = ?t - ?f" using lt by (simp add: unat_sub word_le_nat_alt)
  then have tc: "unat (total_clusters b) = (?t - ?f) div ?s" by (simp add: total_clusters_def unat_div unat_widen)
  have "unat c - 1 \<le> unat (total_clusters b)" using assms(2) by (auto simp: data_cluster_def)
  then have "(unat c - 1) * ?s \<le> (?t - ?f) div ?s * ?s" unfolding tc by (rule mult_le_mono1)
  then have "(unat c - 1) * ?s \<le> ?t - ?f" using div_times_less_eq_dividend order_trans by blast
  then show fit: "?f + (unat c - 1) * ?s \<le> ?t" using lt by linarith
  have t: "?t < 4294967296" using unsigned_less [of "total_sectors b", where 'a = nat] by simp
  have c2: "unat (c - 2) = unat c - 2" using assms(2) by (simp add: unat_sub word_le_nat_alt data_cluster_def)
  have "(unat c - 2) * ?s \<le> (unat c - 1) * ?s" by (rule mult_le_mono1) simp
  then have "?f + (unat c - 2) * ?s < 4294967296" using fit t by linarith
  then show "unat (cluster_to_sector b c) = ?f + (unat c - 2) * ?s"
    by (simp add: cluster_to_sector_def unat_word_ariths unat_widen c2)
qed

lemma cluster_region:
  assumes "volume b po cap" "data_cluster b c" "cap < 2 ^ 64"
  shows "unat (sector_pos b po (cluster_to_sector b c)) = cluster_pos b po c"
    "cluster_pos b po c + cluster_bytes b \<le> cap" "fat_end b po \<le> cluster_pos b po c"
proof -
  let ?s = "unat (sectors_per_cluster b)" and ?f = "unat (first_data_sector b)"
  have v: "bpb_validate b = Inr ()" using assms by (simp add: volume_def)
  have s1: "1 \<le> ?s" using validate_sizes(2) [OF v] by auto
  have "2 \<le> unat c" using assms(2) by (simp add: data_cluster_def)
  then obtain k where "unat c = 2 + k" using le_iff_add [of 2 "unat c"] by auto
  then have Suc: "(unat c - 1) * ?s = (unat c - 2) * ?s + ?s" by simp
  then have "unat (cluster_to_sector b c) < unat (total_sectors b)"
    using cluster_sector [OF assms(1,2)] s1 by linarith
  from sector_pos_exact(1) [OF assms(1,3) this] show "unat (sector_pos b po (cluster_to_sector b c)) = cluster_pos b po c"
    by (simp add: cluster_pos_def sector_byte_def cluster_sector(1) [OF assms(1,2)])
  have "(?f + (unat c - 2) * ?s + ?s) * bps b \<le> unat (total_sectors b) * bps b"
    using cluster_sector(2) [OF assms(1,2)] Suc by (intro mult_le_mono1) simp
  then show "cluster_pos b po c + cluster_bytes b \<le> cap"
    using assms(1) cluster_bytes_exact(1) [OF assms(1)] by (simp add: volume_def cluster_pos_def sector_byte_def algebra_simps)
  have "(unat (reserved_sector_count b) + unat (num_fats b) * unat (fat_size b)) * bps b \<le> (?f + (unat c - 2) * ?s) * bps b"
    using volume_layout(1) [OF assms(1)] by (intro mult_le_mono1) simp
  then show "fat_end b po \<le> cluster_pos b po c"
    by (simp add: fat_end_def fat_base_def cluster_pos_def sector_byte_def algebra_simps)
qed

lemma clusters_apart:
  assumes "volume b po cap" "data_cluster b c" "data_cluster b c'" "c \<noteq> c'"
  shows "cluster_pos b po c + cluster_bytes b \<le> cluster_pos b po c' \<or> cluster_pos b po c' + cluster_bytes b \<le> cluster_pos b po c"
proof -
  let ?s = "unat (sectors_per_cluster b)"
  have step: "cluster_pos b po x + cluster_bytes b \<le> cluster_pos b po y" if "unat x < unat y" "2 \<le> unat x" for x y
  proof -
    have "(unat x - 2 + 1) * ?s \<le> (unat y - 2) * ?s" using that by (intro mult_le_mono1) simp
    then have "((unat x - 2) * ?s + ?s) * bps b \<le> (unat y - 2) * ?s * bps b" by (intro mult_le_mono1) simp
    then show ?thesis using cluster_bytes_exact(1) [OF assms(1)] by (simp add: cluster_pos_def sector_byte_def algebra_simps)
  qed
  have "unat c \<noteq> unat c'" using assms(4) by (simp add: word_unat_eq_iff)
  then have "unat c < unat c' \<or> unat c' < unat c" by linarith
  then show ?thesis using step [of c c'] step [of c' c] assms(2,3) by (auto simp: data_cluster_def)
qed

section \<open>Chains\<close>

fun chain :: "bpb \<Rightarrow> u64 \<Rightarrow> (nat \<Rightarrow> u8) \<Rightarrow> u32 list \<Rightarrow> bool" where
  "chain b po cont [] \<longleftrightarrow> False"
| "chain b po cont [c] \<longleftrightarrow> data_cluster b c \<and> in_fat b c \<and> is_eoc (bpb_fat_type b) (fat_value b po cont c)"
| "chain b po cont (c # c' # cs) \<longleftrightarrow> data_cluster b c \<and> in_fat b c \<and> \<not> is_eoc (bpb_fat_type b) (fat_value b po cont c)
     \<and> fat_value b po cont c = c' \<and> chain b po cont (c' # cs)"

lemma chain_next:
  "chain b po cont (c # c' # cs) \<Longrightarrow> \<not> is_eoc (bpb_fat_type b) c' \<and> fat_value b po cont c = c' \<and> chain b po cont (c' # cs)"
  by auto

definition chain_bytes :: "bpb \<Rightarrow> u64 \<Rightarrow> (nat \<Rightarrow> u8) \<Rightarrow> u32 list \<Rightarrow> bytes" where
  "chain_bytes b po cont cs = concat (map (\<lambda>c. span cont (cluster_pos b po c) (cluster_bytes b)) cs)"

lemma chain_bytes_simps [simp]:
  "chain_bytes b po cont [] = []"
  "chain_bytes b po cont (c # cs) = span cont (cluster_pos b po c) (cluster_bytes b) @ chain_bytes b po cont cs"
  by (simp_all add: chain_bytes_def)

lemma length_chain_bytes [simp]: "length (chain_bytes b po cont cs) = length cs * cluster_bytes b"
  by (induction cs) (simp_all add: chain_bytes_def)

lemma drop_chain_bytes: "drop (k * cluster_bytes b) (chain_bytes b po cont cs) = chain_bytes b po cont (drop k cs)"
proof (induction k arbitrary: cs)
  case (Suc k)
  show ?case
  proof (cases cs)
    case (Cons c cs')
    then show ?thesis using Suc by (simp add: add.commute)
  qed simp
qed simp

lemma chain_drop: "chain b po cont cs \<Longrightarrow> k < length cs \<Longrightarrow> chain b po cont (drop k cs)"
proof (induction k arbitrary: cs)
  case (Suc k)
  then obtain c c' cs' where cs: "cs = c # c' # cs'" by (cases cs; cases "tl cs") auto
  then show ?case using Suc.IH [of "c' # cs'"] Suc.prems by simp
qed simp

lemma chain_set: "chain b po cont cs \<Longrightarrow> c \<in> set cs \<Longrightarrow> data_cluster b c \<and> in_fat b c"
  by (induction b po cont cs rule: chain.induct) auto

lemma chain_unique: "chain b po cont (c # cs) \<Longrightarrow> chain b po cont (c # cs') \<Longrightarrow> cs = cs'"
proof (induction cs arbitrary: c cs')
  case Nil
  then show ?case by (cases cs') auto
next
  case (Cons d ds)
  then obtain ds' where "cs' = d # ds'" by (cases cs') auto
  with Cons show ?case by auto
qed

text \<open>A chain that ends does not meet a cluster twice.\<close>

lemma chain_distinct: "chain b po cont cs \<Longrightarrow> distinct cs"
proof -
  assume ch: "chain b po cont cs"
  have "cs ! i \<noteq> cs ! j" if "i < j" "j < length cs" for i j
  proof
    assume eq: "cs ! i = cs ! j"
    have "drop i cs = cs ! i # drop (Suc i) cs" "drop j cs = cs ! j # drop (Suc j) cs"
      using that by (simp_all add: Cons_nth_drop_Suc)
    then have "drop (Suc i) cs = drop (Suc j) cs"
      using chain_drop [OF ch, of i] chain_drop [OF ch, of j] that eq chain_unique by (metis order_less_trans)
    then have "length (drop (Suc i) cs) = length (drop (Suc j) cs)" by simp
    then show False using that by simp
  qed
  then show ?thesis by (metis distinct_conv_nth linorder_less_linear)
qed

lemma chain_cong:
  assumes "\<And>c. c \<in> set cs \<Longrightarrow> fat_value b po cont' c = fat_value b po cont c"
  shows "chain b po cont' cs = chain b po cont cs"
  using assms by (induction b po cont cs rule: chain.induct) auto

section \<open>Reading a file\<close>

lemma file_read_loop_done:
  "\<not> (length acc < n \<and> start + of_nat (length acc) < fsize) \<Longrightarrow>
    file_read_loop ops b po fsize start n c oic buf acc d = Some (d, Inr acc)"
  by (subst file_read_loop.simps) (rule if_not_P)

lemma word_offset:
  assumes "unat (start :: u64) + k \<le> unat (fsize :: u64)"
  shows "start + of_nat k < fsize \<longleftrightarrow> unat start + k < unat fsize" "unat (fsize - start - of_nat k) = unat fsize - unat start - k"
proof -
  have "unat fsize < 2 ^ 64" using unsigned_less [of fsize, where 'a = nat] by simp
  then have k: "k < 2 ^ 64" "unat start + k < 2 ^ 64" using assms by linarith+
  then have e: "unat (start + of_nat k) = unat start + k" by (simp add: unat_word_ariths unat_of_nat)
  then show "start + of_nat k < fsize \<longleftrightarrow> unat start + k < unat fsize" by (simp add: word_less_nat_alt)
  have "unat (fsize - (start + of_nat k)) = unat fsize - (unat start + k)"
    using assms e by (simp add: unat_sub word_le_nat_alt)
  then show "unat (fsize - start - of_nat k) = unat fsize - unat start - k" by (simp add: diff_diff_add)
qed

text \<open>The device time to read or write a cluster and look up the next one.\<close>

definition hop :: "(nat \<Rightarrow> nat) \<Rightarrow> bpb \<Rightarrow> nat" where
  "hop cost b = cost (cluster_bytes b) + 2 * cost (bps b)"

text \<open>The clusters of a file, and its contents.\<close>

definition file_chain :: "bpb \<Rightarrow> u64 \<Rightarrow> (nat \<Rightarrow> u8) \<Rightarrow> fat_dir_entry \<Rightarrow> u32 list \<Rightarrow> bool" where
  "file_chain b po cont e cs \<longleftrightarrow> cs = [] \<and> first_cluster e < 2 \<or> chain b po cont cs \<and> hd cs = first_cluster e"

definition file_bytes :: "bpb \<Rightarrow> u64 \<Rightarrow> (nat \<Rightarrow> u8) \<Rightarrow> fat_dir_entry \<Rightarrow> u32 list \<Rightarrow> bytes" where
  "file_bytes b po cont e cs = take (unat (file_size e)) (chain_bytes b po cont cs)"

context block_device
begin

lemma read_cluster_ok:
  assumes "volume b po capacity" "data_cluster b c" "length buf = cluster_bytes b" "ready (n + cost (cluster_bytes b)) d"
  shows "\<exists>d'. read_cluster ops b po d c buf = (d', Inr (span (content d) (cluster_pos b po c) (cluster_bytes b)))
    \<and> ready n d' \<and> content d' = content d"
proof -
  note r = cluster_region [OF assms(1,2) capacity_lt [OF assms(4)]]
  from read_at_ok [of n buf d "sector_pos b po (cluster_to_sector b c)"] assms(3,4) r(1,2) show ?thesis
    by (simp add: read_cluster_def)
qed

lemma write_cluster_ok:
  assumes "volume b po capacity" "data_cluster b c" "length buf = cluster_bytes b" "ready (n + cost (cluster_bytes b)) d"
  shows "\<exists>d'. write_cluster ops b po d c buf = (d', Inr ())
    \<and> ready n d' \<and> content d' = overwrite (content d) (cluster_pos b po c) buf"
proof -
  note r = cluster_region [OF assms(1,2) capacity_lt [OF assms(4)]]
  from write_at_ok [of n buf d "sector_pos b po (cluster_to_sector b c)"] assms(3,4) r(1,2) show ?thesis
    by (simp add: write_cluster_def)
qed

lemma skip_read_chain:
  assumes "volume b po capacity" "chain b po (content d) cs" "ready (n + length cs * (2 * cost (bps b))) d"
  shows "\<exists>d'. skip_read ops b po k (hd cs) d = (d', Inr (if k < length cs then Some (cs ! k) else None))
    \<and> ready (n + (length cs - k) * (2 * cost (bps b))) d' \<and> content d' = content d"
  using assms(2,3)
proof (induction k arbitrary: cs d)
  case 0
  then show ?case by (cases cs) auto
next
  case (Suc k)
  obtain c cs' where cs: "cs = c # cs'" using Suc.prems(1) by (cases cs) auto
  have c: "data_cluster b c" "in_fat b c" using chain_set [OF Suc.prems(1)] cs by auto
  then have c2: "\<not> c < 2" by (simp add: data_cluster_def word_less_nat_alt)
  have "ready ((n + length cs' * (2 * cost (bps b))) + 2 * cost (bps b)) d" using Suc.prems(2) cs by (simp add: algebra_simps)
  from read_entry_ok [OF assms(1) c(2) this] obtain d1 where
    d1: "read_entry ops b po d c = (d1, Inr (fat_value b po (content d) c))" "ready (n + length cs' * (2 * cost (bps b))) d1"
      "content d1 = content d" by (elim exE conjE)
  show ?case
  proof (cases cs')
    case Nil
    then have "is_eoc (bpb_fat_type b) (fat_value b po (content d) c)" using Suc.prems(1) cs by simp
    then show ?thesis using d1 c2 cs Nil by simp
  next
    case (Cons c' cs'')
    then have nx: "\<not> is_eoc (bpb_fat_type b) (fat_value b po (content d) c)" "fat_value b po (content d) c = c'"
        "chain b po (content d1) cs'" using chain_next [OF Suc.prems(1) [unfolded cs Cons]] d1(3) Cons by simp_all
    from Suc.IH [OF nx(3) d1(2)] obtain d2 where
      "skip_read ops b po k (hd cs') d1 = (d2, Inr (if k < length cs' then Some (cs' ! k) else None))"
      "ready (n + (length cs' - k) * (2 * cost (bps b))) d2" "content d2 = content d1" by (elim exE conjE)
    then show ?thesis using d1 c2 cs nx Cons by simp
  qed
qed

lemma file_read_loop_chain:
  assumes "volume b po capacity" "chain b po (content d) cs" "ready (n0 + length cs * hop cost b) d"
    "length buf = cluster_bytes b" "oic < cluster_bytes b" "unat start + length acc \<le> unat fsize"
  shows "\<exists>d'. file_read_loop ops b po fsize start n (hd cs) oic buf acc d =
      Some (d', Inr (acc @ take (min (n - length acc) (unat fsize - unat start - length acc)) (drop oic (chain_bytes b po (content d) cs))))
    \<and> ready n0 d' \<and> content d' = content d"
  using assms(2-)
proof (induction cs arbitrary: d oic buf acc)
  case (Cons c cs)
  let ?m = "min (n - length acc) (unat fsize - unat start - length acc)" and ?C = "cluster_bytes b"
  note wo = word_offset [OF Cons.prems(5)]
  show ?case
  proof (cases "length acc < n \<and> start + of_nat (length acc) < fsize")
    case False
    then have "?m = 0" using wo(1) by auto
    then show ?thesis using file_read_loop_done [OF False] ready_mono [OF Cons.prems(2), of n0] by (intro exI [of _ d]) simp
  next
    case True
    have c: "data_cluster b c" "in_fat b c" using chain_set [OF Cons.prems(1)] by auto
    then have c2: "\<not> c < 2" by (simp add: data_cluster_def word_less_nat_alt)
    have "ready ((n0 + length cs * hop cost b + 2 * cost (bps b)) + cost ?C) d" using Cons.prems(2) by (simp add: hop_def algebra_simps)
    from read_cluster_ok [OF assms(1) c(1) Cons.prems(3) this] obtain d1 where
      d1: "read_cluster ops b po d c buf = (d1, Inr (span (content d) (cluster_pos b po c) ?C))"
        "ready (n0 + length cs * hop cost b + 2 * cost (bps b)) d1" "content d1 = content d" by (elim exE conjE)
    from read_entry_ok [OF assms(1) c(2) d1(2)] obtain d2 where
      d2: "read_entry ops b po d1 c = (d2, Inr (fat_value b po (content d) c))" "ready (n0 + length cs * hop cost b) d2"
        "content d2 = content d" unfolding d1(3) by (elim exE conjE)
    let ?buf = "span (content d) (cluster_pos b po c) ?C"
    define t where "t = min (min (?C - oic) (unat fsize - unat start - length acc)) (n - length acc)"
    let ?acc = "acc @ take t (drop oic ?buf)"
    have t: "t = min (?C - oic) ?m" by (simp add: t_def min.assoc min.commute min.left_commute)
    have step: "file_read_loop ops b po fsize start n (hd (c # cs)) oic buf acc d =
        (if is_eoc (bpb_fat_type b) (fat_value b po (content d) c) then Some (d2, Inr ?acc)
         else file_read_loop ops b po fsize start n (fat_value b po (content d) c) 0 ?buf ?acc d2)"
      using True c2 d1(1) d2(1) by (subst file_read_loop.simps) (simp add: Let_def wo(2) t_def)
    have whole: "take ?m (drop oic (?buf @ rest)) = take t (drop oic ?buf) @ take (?m - t) rest" for rest
      using Cons.prems(4) unfolding t by (simp add: min_def)
    show ?thesis
    proof (cases cs)
      case Nil
      then have "is_eoc (bpb_fat_type b) (fat_value b po (content d) c)" using Cons.prems(1) by simp
      then show ?thesis using step d2 Nil whole [of "[]"] by simp
    next
      case next': (Cons c' cs')
      then have nx: "\<not> is_eoc (bpb_fat_type b) (fat_value b po (content d) c)" "fat_value b po (content d) c = hd cs"
        "chain b po (content d2) cs" using chain_next [OF Cons.prems(1) [unfolded next']] d2(3) next' by simp_all
      have len: "length ?acc = length acc + t" using t by simp
      then have "unat start + length ?acc \<le> unat fsize" using Cons.prems(5) by (simp add: t_def)
      from Cons.IH [OF nx(3) d2(2) length_span cluster_bytes_exact(2) [OF assms(1)] this] obtain d3 where
        d3: "file_read_loop ops b po fsize start n (hd cs) 0 ?buf ?acc d2 = Some (d3, Inr (?acc @ take (min (n - length ?acc)
          (unat fsize - unat start - length ?acc)) (drop 0 (chain_bytes b po (content d2) cs))))" "ready n0 d3" "content d3 = content d2"
        by blast
      have eq: "min (n - length ?acc) (unat fsize - unat start - length ?acc) = ?m - t"
        unfolding len by (simp only: diff_diff_add [symmetric] min_diff)
      have "file_read_loop ops b po fsize start n (hd (c # cs)) oic buf acc d = file_read_loop ops b po fsize start n (hd cs) 0 ?buf ?acc d2"
        unfolding step nx(2) [symmetric] using nx(1) by (simp only: if_False)
      also have "\<dots> = Some (d3, Inr (acc @ take ?m (drop oic (chain_bytes b po (content d) (c # cs)))))"
        unfolding d3(1) eq drop_0 d2(3) chain_bytes_simps whole append_assoc ..
      finally show ?thesis using d2(3) d3(2,3) by (intro exI [of _ d3] conjI) simp_all
    qed
  qed
qed simp

end

context block_device
begin

lemma file_read_bytes:
  fixes n :: nat and offset :: u64
  assumes v: "volume b po capacity" and ch: "file_chain b po (content d) (file_entry f) cs"
    and r: "ready (n0 + length cs * (hop cost b + 2 * cost (bps b))) d"
  defines "bs \<equiv> take n (drop (unat offset) (file_bytes b po (content d) (file_entry f) cs))"
  shows "\<exists>d'. file_read ops b po offset n (d, f) = Some ((d', f\<lparr>file_cursor := offset + of_nat (length bs)\<rparr>), Inr bs)
    \<and> ready n0 d' \<and> content d' = content d"
proof -
  let ?e = "file_entry f" and ?C = "cluster_bytes b" and ?B = "chain_bytes b po (content d) cs"
  let ?fs = "ucast (file_size ?e) :: u64" and ?f = "f\<lparr>file_cursor := offset\<rparr>"
  define k oic where "k = unat offset div ?C" and "oic = unat offset mod ?C"
  note C = cluster_bytes_exact [OF v]
  have fs: "unat ?fs = unat (file_size ?e)" by (simp add: unat_widen)
  have w: "unat (offset div ucast (bytes_per_cluster b)) = k" "unat (offset mod ucast (bytes_per_cluster b)) = oic"
    using C(3) by (simp_all add: k_def oic_def unat_div unat_mod)
  have bs: "bs = take (min n (unat ?fs - unat offset)) (drop (unat offset) ?B)"
    by (simp add: bs_def file_bytes_def fs drop_take min.commute)
  have off: "unat offset = k * ?C + oic" by (simp add: k_def oic_def)
  have ready0: "ready n0 d" using ready_mono [OF r, of n0] by simp
  have unchanged: "f\<lparr>file_cursor := offset + of_nat (length ([] :: bytes))\<rparr> = ?f" by simp
  show ?thesis
  proof (cases "offset \<ge> ?fs")
    case True
    then have "bs = []" using fs by (simp add: bs word_le_nat_alt)
    then show ?thesis using True ready0 by (intro exI [of _ d]) (simp add: file_read_def Let_def)
  next
    case False
    then have lt: "unat offset + length ([] :: bytes) \<le> unat ?fs" by (simp add: word_le_nat_alt)
    show ?thesis
    proof (cases "cs = []")
      case True
      then have c2: "first_cluster ?e < 2" using ch by (auto simp: file_chain_def)
      have "file_read_loop ops b po ?fs offset n (first_cluster ?e) oic buf [] d = Some (d, Inr [])" for buf
        using c2 by (subst file_read_loop.simps) simp
      moreover have "skip_read ops b po k (first_cluster ?e) d = (d, Inr (if k = 0 then Some (first_cluster ?e) else None))"
        using c2 by (cases k) simp_all
      moreover have "bs = []" using True by (simp add: bs)
      ultimately show ?thesis using False ready0 by (intro exI [of _ d]) (simp add: file_read_def Let_def w)
    next
      case cs: False
      then have ch': "chain b po (content d) cs" "hd cs = first_cluster ?e" using ch by (auto simp: file_chain_def)
      have "ready ((n0 + length cs * hop cost b) + length cs * (2 * cost (bps b))) d" using r by (simp add: algebra_simps)
      from skip_read_chain [OF v ch'(1) this, of k] obtain d1 where
        d1: "skip_read ops b po k (first_cluster ?e) d = (d1, Inr (if k < length cs then Some (cs ! k) else None))"
          "ready (n0 + length cs * hop cost b + (length cs - k) * (2 * cost (bps b))) d1" "content d1 = content d"
        unfolding ch'(2) by (elim exE conjE)
      show ?thesis
      proof (cases "k < length cs")
        case False
        then have "length cs * ?C \<le> k * ?C" by (intro mult_le_mono1) simp
        then have "length ?B \<le> unat offset" unfolding length_chain_bytes off by linarith
        then have "bs = []" by (simp add: bs del: length_chain_bytes)
        then show ?thesis using d1 False \<open>\<not> offset \<ge> ?fs\<close> ready_mono [OF d1(2), of n0]
          by (intro exI [of _ d1]) (simp add: file_read_def Let_def w)
      next
        case True
        have "length (drop k cs) * hop cost b \<le> length cs * hop cost b" by (rule mult_le_mono1) simp
        then have "n0 + length (drop k cs) * hop cost b \<le> n0 + length cs * hop cost b + (length cs - k) * (2 * cost (bps b))"
          by linarith
        from ready_mono [OF d1(2) this] have r1: "ready (n0 + length (drop k cs) * hop cost b) d1" .
        have chk: "chain b po (content d1) (drop k cs)" unfolding d1(3) by (rule chain_drop [OF ch'(1) True])
        have oic: "oic < ?C" unfolding oic_def using C(2) by simp
        have hdk: "hd (drop k cs) = cs ! k" using True by (rule hd_drop_conv_nth)
        have "drop oic (chain_bytes b po (content d1) (drop k cs)) = drop (unat offset) ?B"
          unfolding d1(3) off drop_chain_bytes [symmetric] by (simp add: add.commute)
        then have bs': "[] @ take (min (n - length ([] :: bytes)) (unat ?fs - unat offset - length ([] :: bytes)))
            (drop oic (chain_bytes b po (content d1) (drop k cs))) = bs" by (simp add: bs)
        have "length (replicate ?C (0 :: u8)) = ?C" by simp
        from file_read_loop_chain [OF v chk r1 this oic lt, where n = n, unfolded bs' hdk] obtain d2 where
          d2: "file_read_loop ops b po ?fs offset n (cs ! k) oic (replicate ?C 0) [] d1 = Some (d2, Inr bs)"
            "ready n0 d2" "content d2 = content d1" by (elim exE conjE)
        have "file_read ops b po offset n (d, f) = Some ((d2, f\<lparr>file_cursor := offset + of_nat (length bs)\<rparr>), Inr bs)"
          using \<open>\<not> offset \<ge> ?fs\<close> d1(1) d2(1) True by (simp add: file_read_def Let_def w C(3))
        then show ?thesis using d1(3) d2(2,3) by (intro exI [of _ d2]) simp
      qed
    qed
  qed
qed

end

text \<open>
  C25: Reading a file returns its bytes.  For a file whose clusters form a chain that ends,
  a read of \<open>n\<close> bytes at \<open>offset\<close> returns, and gives exactly the bytes of the file's clusters in
  chain order, cut to the file's size, from \<open>offset\<close> on, at most \<open>n\<close> of them; the cursor moves by that
  number and nothing on the disk changes.
\<close>

theorem fat_read_exact:
  assumes "volume b po capacity" "file_chain b po (disk_content img d) (file_entry f) cs"
    and "disk_ready m A H ip p img idle capacity (n0 + length cs * (hop ahci_cost b + 2 * ahci_cost (bps b))) d"
  shows "\<exists>d'. file_read (disk_ops H m ip) b po offset n (d, f) =
      Some ((d', f\<lparr>file_cursor := offset + of_nat (length (take n (drop (unat offset)
               (file_bytes b po (disk_content img d) (file_entry f) cs))))\<rparr>),
            Inr (take n (drop (unat offset) (file_bytes b po (disk_content img d) (file_entry f) cs))))
    \<and> disk_content img d' = disk_content img d \<and> disk_ready m A H ip p img idle capacity n0 d'"
  using disk.file_read_bytes [OF assms] by blast

text \<open>A disk with a file of 600 bytes in the clusters 2 and 3 of the sample volume.\<close>

definition sample_image :: "nat \<Rightarrow> u8" where
  "sample_image i = (if i = 516 then 3 else if i = 517 then 0 else if i = 518 \<or> i = 519 then 0xFF else of_nat i)"

definition sample_file :: fat_file where
  "sample_file = \<lparr>file_entry = sample_entry\<lparr>first_cluster_high := 0, first_cluster_low := 2, file_size := 600\<rparr>,
     file_cursor = 0, file_dir_cluster = 0, file_entry_index = 0, file_in_root = True\<rparr>"

lemma sample_clusters: "cluster_bytes sample_bpb = 512" "cluster_pos sample_bpb 0 2 = 98816" "cluster_pos sample_bpb 0 3 = 99328"
  by (simp_all add: bytes_per_cluster_def cluster_pos_def sector_byte_def sample_bpb_geometry) (simp_all add: sample_bpb_def)

lemma sample_chain:
  assumes "cont 516 = 3" "cont 517 = 0" "cont 518 = 0xFF" "cont 519 = 0xFF"
  shows "chain sample_bpb 0 cont [2, 3]"
proof -
  have base: "fat_base sample_bpb 0 = 512" by (simp add: fat_base_def sample_bpb_geometry) (simp add: sample_bpb_def)
  have "fat_value sample_bpb 0 cont 2 = 3" "fat_value sample_bpb 0 cont 3 = 0xFFFF"
    using assms by (simp_all add: fat_value_def fat_pos_def base fat_decode_def sample_bpb_geometry entry_width_def span_2 fat_offset_nat_def)
  then show ?thesis using sample_bpb_in_fat [of 2] sample_bpb_in_fat [of 3]
    by (simp add: data_cluster_def sample_bpb_geometry is_eoc_def)
qed

lemma sample_file_chain:
  assumes "cont 516 = 3" "cont 517 = 0" "cont 518 = 0xFF" "cont 519 = 0xFF"
  shows "file_chain sample_bpb 0 cont (file_entry sample_file) [2, 3]"
  using sample_chain [OF assms] by (simp add: file_chain_def sample_file_def first_cluster_def del: chain.simps)

lemma sample_file_bytes: "file_bytes sample_bpb 0 cont (file_entry sample_file) [2, 3] = span cont 98816 600"
proof -
  have "span cont 98816 512 @ span cont 99328 512 = span cont 98816 1024" using span_add [of cont 98816 512 512] by simp
  then show ?thesis using take_drop_span [of 0 600 1024 cont 98816]
    by (simp add: file_bytes_def sample_clusters sample_file_def)
qed

theorem fat_read_exact_witness:
  "\<exists>d' f'. file_read (disk_ops (ideal_hba sample_port) flat_mapper True) sample_bpb 0 510 4 (sample_disk sample_image, sample_file)
    = Some ((d', f'), Inr [254, 255, 0, 1])"
proof -
  have fc: "file_chain sample_bpb 0 (disk_content (\<lambda>h. h) (sample_disk sample_image)) (file_entry sample_file) [2, 3]"
    unfolding sample_disk_content by (rule sample_file_chain) (simp_all add: sample_image_def)
  have r: "disk_ready flat_mapper UNIV (ideal_hba sample_port) True sample_port (\<lambda>h. h) (\<lambda>_. True) (2 ^ 40)
      (0 + length [2, 3 :: u32] * (hop ahci_cost sample_bpb + 2 * ahci_cost (bps sample_bpb))) (sample_disk sample_image)"
    by (rule sample_disk_ready) (simp add: sample_bpb_geometry sample_clusters ahci_cost_def hop_def)
  have "take 4 (drop (unat (510 :: u64)) (span sample_image 98816 600)) = [254, 255, 0, 1]"
    using take_drop_span [of 510 4 600 sample_image 98816] by (simp add: span_def upt_conv_Cons sample_image_def)
  with fat_read_exact [OF sample_bpb_volume fc r, of 510 4] show ?thesis
    unfolding sample_disk_content sample_file_bytes by auto
qed

section \<open>Writing a file in place\<close>

text \<open>Bytes that lie in none of the given clusters.\<close>

definition outside :: "bpb \<Rightarrow> u64 \<Rightarrow> u32 list \<Rightarrow> nat \<Rightarrow> bool" where
  "outside b po cs y \<longleftrightarrow> (\<forall>c\<in>set cs. y < cluster_pos b po c \<or> cluster_pos b po c + cluster_bytes b \<le> y)"

lemma outside_simps [simp]:
  "outside b po [] y" "outside b po (c # cs) y \<longleftrightarrow> (y < cluster_pos b po c \<or> cluster_pos b po c + cluster_bytes b \<le> y) \<and> outside b po cs y"
  by (auto simp: outside_def)

lemma fat_outside:
  assumes "volume b po cap" "cap < 2 ^ 64" "\<And>c. c \<in> set cs \<Longrightarrow> data_cluster b c" "y < fat_end b po"
  shows "outside b po cs y"
  unfolding outside_def using cluster_region(3) [OF assms(1) assms(3) assms(2)] assms(4) order_less_le_trans by blast

lemma chain_bytes_cong:
  assumes "\<And>c. c \<in> set cs \<Longrightarrow> span cont' (cluster_pos b po c) (cluster_bytes b) = span cont (cluster_pos b po c) (cluster_bytes b)"
  shows "chain_bytes b po cont' cs = chain_bytes b po cont cs"
  using assms by (induction cs) simp_all

lemma span_outside:
  assumes "\<And>y. p \<le> y \<Longrightarrow> y < p + n \<Longrightarrow> cont' y = cont y"
  shows "span cont' p n = span cont p n"
  using assms by (intro nth_equalityI) simp_all

lemma splice_Nil [simp]: "splice a [] buf = buf"
  by (simp add: splice_def)

lemma splice_append:
  assumes "a \<le> length xs"
  shows "splice a ys (xs @ zs) = splice a (take (length xs - a) ys) xs @ splice 0 (drop (length xs - a) ys) zs"
proof -
  have "take k ys @ drop k ys @ rest = ys @ rest" for k rest by (metis append_assoc append_take_drop_id)
  then show ?thesis using assms by (cases "length ys \<le> length xs - a") (simp_all add: splice_def add.commute)
qed

lemma splice_all: "length xs = length buf \<Longrightarrow> splice 0 xs buf = xs"
  by (simp add: splice_def)

lemma fat_value_cong:
  assumes "in_fat b c" "volume b po cap" "\<And>y. fat_base b po \<le> y \<Longrightarrow> y < fat_end b po \<Longrightarrow> cont' y = cont y"
  shows "fat_value b po cont' c = fat_value b po cont c"
proof -
  have "0 < unat (num_fats b)" using assms(2) validate_sizes(3) by (simp add: volume_def)
  then have "1 * (unat (fat_size b) * bps b) \<le> unat (num_fats b) * (unat (fat_size b) * bps b)" by (intro mult_le_mono1) simp
  moreover have "fat_offset_nat (bpb_fat_type b) (unat c) + entry_width (bpb_fat_type b) \<le> unat (fat_size b) * bps b"
    using assms(1) by (simp add: in_fat_def)
  ultimately have "fat_pos b po c + entry_width (bpb_fat_type b) \<le> fat_end b po"
    unfolding fat_pos_def fat_end_def mult.assoc by linarith
  then have "span cont' (fat_pos b po c) (entry_width (bpb_fat_type b)) = span cont (fat_pos b po c) (entry_width (bpb_fat_type b))"
    using assms(3) by (intro span_outside) (simp add: fat_pos_def)
  then show ?thesis by (simp add: fat_value_def)
qed

lemma file_write_loop_done: "\<not> bw < length buf \<Longrightarrow> file_write_loop ops b po buf c oic cbuf bw d = Some (d, Inr bw)"
  by (subst file_write_loop.simps) simp

text \<open>The device time to read, change and write back a cluster and look up the next one.\<close>

definition write_hop :: "(nat \<Rightarrow> nat) \<Rightarrow> bpb \<Rightarrow> nat" where
  "write_hop cost b = 2 * cost (cluster_bytes b) + 2 * cost (bps b)"

context block_device
begin

lemma next_cluster_chain:
  assumes "volume b po capacity" "chain b po (content d) (c # c' # cs)" "ready (n + 2 * cost (bps b)) d"
  shows "\<exists>d'. next_cluster ops b po c d = (d', Inr c') \<and> ready n d' \<and> content d' = content d"
proof -
  have "in_fat b c" using assms(2) by auto
  from read_entry_ok [OF assms(1) this assms(3)] chain_next [OF assms(2)] show ?thesis
    by (auto simp: next_cluster_def)
qed

text \<open>One cluster: what is read, changed and written back.\<close>

lemma put_cluster:
  assumes "volume b po capacity" "data_cluster b c" "length cbuf = cluster_bytes b" "oic < cluster_bytes b"
    "ready (n + 2 * cost (cluster_bytes b)) d" "xs \<noteq> []"
  defines "t \<equiv> min (cluster_bytes b - oic) (length xs)"
  defines "new \<equiv> splice oic (take t xs) (span (content d) (cluster_pos b po c) (cluster_bytes b))"
  shows "\<exists>d1 cbuf1 d2. (if oic \<noteq> 0 \<or> length xs < cluster_bytes b then Some (read_cluster ops b po d c cbuf) else Some (d, Inr cbuf))
      = Some (d1, Inr cbuf1) \<and> splice oic (take t xs) cbuf1 = new
    \<and> write_cluster ops b po d1 c new = (d2, Inr ()) \<and> ready n d2 \<and> length new = cluster_bytes b
    \<and> content d2 = overwrite (content d) (cluster_pos b po c) new"
proof -
  let ?C = "cluster_bytes b"
  have len: "length new = ?C" using assms(4) by (simp add: new_def t_def)
  have r2: "ready ((n + cost ?C) + cost ?C) d" using assms(5) by (simp add: mult_2 add.assoc)
  have "\<exists>d1 cbuf1. (if oic \<noteq> 0 \<or> length xs < ?C then Some (read_cluster ops b po d c cbuf) else Some (d, Inr cbuf))
      = Some (d1, Inr cbuf1) \<and> splice oic (take t xs) cbuf1 = new \<and> ready (n + cost ?C) d1 \<and> content d1 = content d"
  proof (cases "oic \<noteq> 0 \<or> length xs < ?C")
    case True
    from read_cluster_ok [OF assms(1-3) r2] True show ?thesis unfolding new_def by auto
  next
    case False
    then have "splice oic (take t xs) cbuf = new" using assms(3) by (simp add: new_def t_def splice_all)
    then show ?thesis using False ready_mono [OF r2, of "n + cost ?C"] by simp
  qed
  then obtain d1 cbuf1 where d1: "(if oic \<noteq> 0 \<or> length xs < ?C then Some (read_cluster ops b po d c cbuf) else Some (d, Inr cbuf))
      = Some (d1, Inr cbuf1)" "splice oic (take t xs) cbuf1 = new" "ready (n + cost ?C) d1" "content d1 = content d" by (elim exE conjE)
  from write_cluster_ok [OF assms(1,2) len d1(3)] obtain d2 where "write_cluster ops b po d1 c new = (d2, Inr ())" "ready n d2"
    "content d2 = overwrite (content d) (cluster_pos b po c) new" unfolding d1(4) by (elim exE conjE)
  then show ?thesis using d1(1,2) len by blast
qed

lemma file_write_loop_chain:
  assumes v: "volume b po capacity" and "chain b po (content d) cs" "ready (n0 + length cs * write_hop cost b) d"
    "length cbuf = cluster_bytes b" "oic < cluster_bytes b" "oic + (length buf - bw) \<le> length cs * cluster_bytes b" "bw \<le> length buf"
  shows "\<exists>d'. file_write_loop ops b po buf (hd cs) oic cbuf bw d = Some (d', Inr (length buf)) \<and> ready n0 d'
    \<and> chain_bytes b po (content d') cs = splice oic (drop bw buf) (chain_bytes b po (content d) cs)
    \<and> (\<forall>y. outside b po cs y \<longrightarrow> content d' y = content d y)"
  using assms(2-)
proof (induction cs arbitrary: d oic cbuf bw)
  case (Cons c cs)
  let ?C = "cluster_bytes b" and ?xs = "drop bw buf" and ?p = "cluster_pos b po c"
  have ready0: "ready n0 d" using ready_mono [OF Cons.prems(2), of n0] by simp
  show ?case
  proof (cases "bw < length buf")
    case False
    then show ?thesis using file_write_loop_done [OF False, of ops b po c oic cbuf d] ready0 Cons.prems(6) by (intro exI [of _ d]) simp
  next
    case True
    have c: "data_cluster b c" using chain_set [OF Cons.prems(1)] by auto
    define t where "t = min (?C - oic) (length ?xs)"
    define new where "new = splice oic (take t ?xs) (span (content d) ?p ?C)"
    have "?xs \<noteq> []" using True by simp
    have r: "ready ((n0 + length cs * write_hop cost b + 2 * cost (bps b)) + 2 * cost ?C) d"
      using Cons.prems(2) by (simp add: write_hop_def algebra_simps)
    from put_cluster [OF v c Cons.prems(3,4) r \<open>?xs \<noteq> []\<close>, folded t_def, folded new_def] obtain d1 cbuf1 d2 where
      d2: "(if oic \<noteq> 0 \<or> length ?xs < ?C then Some (read_cluster ops b po d c cbuf) else Some (d, Inr cbuf)) = Some (d1, Inr cbuf1)"
        "splice oic (take t ?xs) cbuf1 = new" "write_cluster ops b po d1 c new = (d2, Inr ())"
        "ready (n0 + length cs * write_hop cost b + 2 * cost (bps b)) d2" "length new = ?C" "content d2 = overwrite (content d) ?p new"
      by (elim exE conjE)
    have step: "file_write_loop ops b po buf (hd (c # cs)) oic cbuf bw d =
        (if bw + t < length buf
         then lbind (Some (next_cluster ops b po c d2)) (\<lambda>d cl. file_write_loop ops b po buf cl 0 new (bw + t) d)
         else Some (d2, Inr (bw + t)))"
      by (subst file_write_loop.simps)
        (simp only: True if_True d2(1) [unfolded length_drop] t_def [unfolded length_drop, symmetric] d2(2,3) lbind_simps Let_def list.sel(1))
    have here: "span (content d2) ?p ?C = new" unfolding d2(6) using span_overwrite_same [of "content d" ?p new] d2(5) by simp
    have away: "content d2 y = content d y" if "outside b po (c # cs) y" for y
      using that d2(5) unfolding d2(6) by (auto simp: overwrite_def)
    have rest: "chain_bytes b po (content d2) cs = chain_bytes b po (content d) cs"
    proof (rule chain_bytes_cong)
      fix x assume "x \<in> set cs"
      then have "x \<noteq> c" "data_cluster b x" using chain_distinct [OF Cons.prems(1)] chain_set [OF Cons.prems(1)] by auto
      then show "span (content d2) (cluster_pos b po x) ?C = span (content d) (cluster_pos b po x) ?C"
        unfolding d2(6) using clusters_apart [OF v c, of x] d2(5) by (intro span_overwrite_other) auto
    qed
    have whole: "splice oic ?xs (chain_bytes b po (content d) (c # cs)) = new @ splice 0 (drop (bw + t) buf) (chain_bytes b po (content d) cs)"
    proof -
      have "take (?C - oic) ?xs = take t ?xs" "drop (?C - oic) ?xs = drop t ?xs" by (simp_all add: t_def min_def)
      then show ?thesis using Cons.prems(4) by (simp add: splice_append new_def add.commute)
    qed
    show ?thesis
    proof (cases "bw + t < length buf")
      case False
      then have t: "bw + t = length buf" using True by (simp add: t_def)
      then show ?thesis using step d2(4) here rest whole away ready_mono [OF d2(4), of n0] by (intro exI [of _ d2]) simp
    next
      case more: True
      then have tC: "t = ?C - oic" by (simp add: t_def min_def split: if_splits)
      then have room: "0 + (length buf - (bw + t)) \<le> length cs * ?C" using Cons.prems(4,5) by simp
      then have "cs \<noteq> []" using more by auto
      then obtain c' cs' where cs: "cs = c' # cs'" by (cases cs) auto
      have fat: "fat_value b po (content d2) x = fat_value b po (content d) x" if "in_fat b x" for x
        by (rule fat_value_cong [OF that v])
          (use fat_outside [OF v capacity_lt [OF ready0], of "c # cs"] chain_set [OF Cons.prems(1)] away in auto)
      then have ch2: "chain b po (content d2) (c # cs)"
        using Cons.prems(1) chain_cong [of "c # cs" b po "content d2" "content d"] chain_set [OF Cons.prems(1)] by auto
      from next_cluster_chain [OF v ch2 [unfolded cs] d2(4)] obtain d3 where
        d3: "next_cluster ops b po c d2 = (d3, Inr (hd cs))" "ready (n0 + length cs * write_hop cost b) d3" "content d3 = content d2"
        unfolding cs by auto
      have "chain b po (content d3) cs" unfolding d3(3) using chain_next [OF ch2 [unfolded cs]] cs by simp
      from Cons.IH [OF this d3(2) d2(5) cluster_bytes_exact(2) [OF v] room less_imp_le [OF more]] obtain d4 where
        d4: "file_write_loop ops b po buf (hd cs) 0 new (bw + t) d3 = Some (d4, Inr (length buf))" "ready n0 d4"
          "chain_bytes b po (content d4) cs = splice 0 (drop (bw + t) buf) (chain_bytes b po (content d) cs)"
          "\<forall>y. outside b po cs y \<longrightarrow> content d4 y = content d2 y" unfolding d3(3) rest by (elim exE conjE)
      have "span (content d4) ?p ?C = new" unfolding here [symmetric]
      proof (rule span_outside)
        fix y assume "?p \<le> y" "y < ?p + ?C"
        moreover have "?p + ?C \<le> cluster_pos b po x \<or> cluster_pos b po x + ?C \<le> ?p" if "x \<in> set cs" for x
          using that chain_distinct [OF Cons.prems(1)] chain_set [OF Cons.prems(1)] by (intro clusters_apart [OF v c]) auto
        ultimately have "outside b po cs y" unfolding outside_def by fastforce
        then show "content d4 y = content d2 y" using d4(4) by blast
      qed
      then have "chain_bytes b po (content d4) (c # cs) = splice oic ?xs (chain_bytes b po (content d) (c # cs))"
        unfolding whole using d4(3) by simp
      moreover have "\<forall>y. outside b po (c # cs) y \<longrightarrow> content d4 y = content d y" using away d4(4) by auto
      moreover have "file_write_loop ops b po buf (hd (c # cs)) oic cbuf bw d = Some (d4, Inr (length buf))"
        unfolding step using more d3(1) d4(1) by simp
      ultimately show ?thesis using d4(2) by blast
    qed
  qed
qed simp

end

lemma chain_bytes_append: "chain_bytes b po cont (as @ bs) = chain_bytes b po cont as @ chain_bytes b po cont bs"
  by (simp add: chain_bytes_def)

lemma splice_behind: "length as = p \<Longrightarrow> splice (p + a) xs (as @ bs) = as @ splice a xs bs"
  by (simp add: splice_def add.assoc)

lemma take_splice: "a + length xs \<le> n \<Longrightarrow> n \<le> length buf \<Longrightarrow> take n (splice a xs buf) = splice a xs (take n buf)"
  by (rule nth_equalityI) (simp_all add: nth_splice)

text \<open>Bytes of the other clusters of a chain, while a tail of it is written.\<close>

lemma chain_write_tail:
  assumes v: "volume b po cap" and ch: "chain b po cont cs" and k: "k \<le> length cs"
    and tail: "chain_bytes b po cont' (drop k cs) = splice oic xs (chain_bytes b po cont (drop k cs))"
    and out: "\<And>y. outside b po (drop k cs) y \<Longrightarrow> cont' y = cont y"
  shows "chain_bytes b po cont' cs = splice (k * cluster_bytes b + oic) xs (chain_bytes b po cont cs)"
proof -
  have "chain_bytes b po cont' (take k cs) = chain_bytes b po cont (take k cs)"
  proof (intro chain_bytes_cong span_outside out)
    fix c y assume c: "c \<in> set (take k cs)" and y: "cluster_pos b po c \<le> y" "y < cluster_pos b po c + cluster_bytes b"
    have d: "data_cluster b x" if "x \<in> set cs" for x using chain_set [OF ch that] by simp
    have "c \<notin> set (drop k cs)" using c chain_distinct [OF ch] set_take_disj_set_drop_if_distinct [of cs k k] by auto
    then have "cluster_pos b po c + cluster_bytes b \<le> cluster_pos b po x \<or> cluster_pos b po x + cluster_bytes b \<le> cluster_pos b po c"
      if "x \<in> set (drop k cs)" for x
      using that c by (intro clusters_apart [OF v] d) (auto dest: in_set_dropD in_set_takeD)
    then show "outside b po (drop k cs) y" unfolding outside_def using y by fastforce
  qed
  moreover have "length (chain_bytes b po cont (take k cs)) = k * cluster_bytes b" using k by (simp add: min_def)
  moreover have "chain_bytes b po cont'' cs = chain_bytes b po cont'' (take k cs) @ chain_bytes b po cont'' (drop k cs)" for cont''
    by (simp flip: chain_bytes_append)
  ultimately show ?thesis using tail by (simp add: splice_behind)
qed

context block_device
begin

lemma skip_write_chain:
  assumes "volume b po capacity" "chain b po (content d) cs" "k < length cs" "ready (n + k * (2 * cost (bps b))) d"
  shows "\<exists>d'. skip_write ops b po k (hd cs) d = (d', Inr (cs ! k)) \<and> ready n d' \<and> content d' = content d"
  using assms(2-)
proof (induction k arbitrary: cs d)
  case 0
  then show ?case by (cases cs) auto
next
  case (Suc k)
  then obtain c c' cs' where cs: "cs = c # c' # cs'" by (cases cs; cases "tl cs") auto
  have "ready ((n + k * (2 * cost (bps b))) + 2 * cost (bps b)) d" using Suc.prems(3) by (simp add: algebra_simps)
  from next_cluster_chain [OF assms(1) Suc.prems(1) [unfolded cs] this] obtain d1 where
    d1: "next_cluster ops b po c d = (d1, Inr c')" "ready (n + k * (2 * cost (bps b))) d1" "content d1 = content d" by (elim exE conjE)
  have "chain b po (content d1) (c' # cs')" unfolding d1(3) using chain_next [OF Suc.prems(1) [unfolded cs]] by simp
  from Suc.IH [OF this _ d1(2)] Suc.prems(2) cs d1 show ?case by auto
qed

lemma file_write_bytes:
  assumes v: "volume b po capacity" and ch: "file_chain b po (content d) (file_entry f) cs"
    and r: "ready (n0 + length cs * (write_hop cost b + 2 * cost (bps b))) d" and buf: "buf \<noteq> []"
    and fit: "unat offset + length buf \<le> unat (file_size (file_entry f))" "unat (file_size (file_entry f)) \<le> length cs * cluster_bytes b"
  shows "\<exists>d'. file_write ops b ty po offset buf (d, f) = Some ((d', f\<lparr>file_cursor := offset + of_nat (length buf)\<rparr>), Inr (length buf))
    \<and> ready n0 d' \<and> chain b po (content d') cs
    \<and> chain_bytes b po (content d') cs = splice (unat offset) buf (chain_bytes b po (content d) cs)
    \<and> (\<forall>y. outside b po cs y \<longrightarrow> content d' y = content d y)"
proof -
  let ?e = "file_entry f" and ?C = "cluster_bytes b"
  define k oic where "k = unat offset div ?C" and "oic = unat offset mod ?C"
  note C = cluster_bytes_exact [OF v]
  have w: "unat (offset div ucast (bytes_per_cluster b)) = k" "unat (offset mod ucast (bytes_per_cluster b)) = oic"
    using C(3) by (simp_all add: k_def oic_def unat_div unat_mod)
  have off: "unat offset = k * ?C + oic" by (simp add: k_def oic_def)
  have blen: "0 < length buf" using buf by simp
  then have lt: "k * ?C < length cs * ?C" using fit off by linarith
  then have k: "k < length cs" by simp
  then have "cs \<noteq> []" by auto
  then have ch': "chain b po (content d) cs" "hd cs = first_cluster ?e" using ch by (auto simp: file_chain_def)
  have "data_cluster b (first_cluster ?e)" unfolding ch'(2) [symmetric] using chain_set [OF ch'(1) hd_in_set] \<open>cs \<noteq> []\<close> by simp
  then have c2: "\<not> first_cluster ?e < 2" by (simp add: data_cluster_def word_less_nat_alt)
  have "k * (2 * cost (bps b)) \<le> length cs * (2 * cost (bps b))" using k by (intro mult_le_mono1) simp
  then have r1: "ready ((n0 + length cs * write_hop cost b) + k * (2 * cost (bps b))) d"
    using r by (elim ready_mono) (simp add: algebra_simps)
  from skip_write_chain [OF v ch'(1) k this] obtain d1 where
    d1: "skip_write ops b po k (first_cluster ?e) d = (d1, Inr (cs ! k))" "ready (n0 + length cs * write_hop cost b) d1"
      "content d1 = content d" unfolding ch'(2) by (elim exE conjE)
  have "length (drop k cs) * write_hop cost b \<le> length cs * write_hop cost b" by (intro mult_le_mono1) simp
  then have r2: "ready (n0 + length (drop k cs) * write_hop cost b) d1" using d1(2) by (elim ready_mono) simp
  have chk: "chain b po (content d1) (drop k cs)" unfolding d1(3) by (rule chain_drop [OF ch'(1) k])
  have oic: "oic < ?C" unfolding oic_def using C(2) by simp
  have "length cs * ?C = k * ?C + length (drop k cs) * ?C" using k by (simp flip: add_mult_distrib)
  then have room: "oic + (length buf - 0) \<le> length (drop k cs) * ?C" using fit off by linarith
  have "length (replicate ?C (0 :: u8)) = ?C" by simp
  from file_write_loop_chain [OF v chk r2 this oic room le0] obtain d2 where
    d2: "file_write_loop ops b po buf (cs ! k) oic (replicate ?C 0) 0 d1 = Some (d2, Inr (length buf))" "ready n0 d2"
      "chain_bytes b po (content d2) (drop k cs) = splice oic buf (chain_bytes b po (content d) (drop k cs))"
      "\<forall>y. outside b po (drop k cs) y \<longrightarrow> content d2 y = content d y"
    unfolding hd_drop_conv_nth [OF k] d1(3) drop_0 by (elim exE conjE)
  have out: "content d2 y = content d y" if "outside b po cs y" for y
    using that d2(4) by (auto simp: outside_def dest: in_set_dropD)
  have "fat_value b po (content d2) x = fat_value b po (content d) x" if "in_fat b x" for x
    by (rule fat_value_cong [OF that v])
      (use fat_outside [OF v capacity_lt [OF r], of cs] chain_set [OF ch'(1)] out in auto)
  then have "chain b po (content d2) cs"
    using ch'(1) chain_cong [of cs b po "content d2" "content d"] chain_set [OF ch'(1)] by auto
  moreover have "chain_bytes b po (content d2) cs = splice (unat offset) buf (chain_bytes b po (content d) cs)"
    unfolding off using chain_write_tail [OF v ch'(1) less_imp_le [OF k] d2(3)] d2(4) by blast
  moreover have "file_write ops b ty po offset buf (d, f) =
      Some ((d2, f\<lparr>file_cursor := offset + of_nat (length buf)\<rparr>), Inr (length buf))"
  proof -
    have "unat (offset + of_nat (length buf)) = unat offset + length buf"
    proof -
      have "unat (file_size ?e) < 4294967296" using unsigned_less [of "file_size ?e", where 'a = nat] by simp
      then have "unat offset + length buf < 4294967296" using fit(1) by linarith
      then show ?thesis by (simp add: unat_word_ariths unat_of_nat)
    qed
    then have "\<not> offset + of_nat (length buf) > ucast (file_size ?e)" using fit(1) by (simp add: word_less_nat_alt unat_widen)
    then show ?thesis using buf c2 d1(1) d2(1) by (simp add: file_write_def Let_def w C(3))
  qed
  ultimately show ?thesis using d2(2) out by blast
qed

end

text \<open>
  C26: A write inside a file changes its bytes and nothing else.  When the file's size and its cluster
  chain cover the range, \<open>write\<close> returns the length of the buffer, leaves every byte outside the file's
  clusters as it was, and every later read sees the old contents with the buffer in place
  at \<open>offset\<close>.
\<close>

theorem fat_write_in_place:
  assumes "volume b po capacity" "file_chain b po (disk_content img d) (file_entry f) cs" "buf \<noteq> []"
    and "unat offset + length buf \<le> unat (file_size (file_entry f))"
    and "unat (file_size (file_entry f)) \<le> length cs * cluster_bytes b"
    and "disk_ready m A H ip p img idle capacity
      ((n0 + length cs * (hop ahci_cost b + 2 * ahci_cost (bps b))) + length cs * (write_hop ahci_cost b + 2 * ahci_cost (bps b))) d"
  shows "\<exists>d' f'. file_write (disk_ops H m ip) b ty po offset buf (d, f) = Some ((d', f'), Inr (length buf))
    \<and> file_entry f' = file_entry f \<and> file_cursor f' = offset + of_nat (length buf)
    \<and> (\<forall>y. outside b po cs y \<longrightarrow> disk_content img d' y = disk_content img d y)
    \<and> (\<forall>off n. \<exists>d'' f''. file_read (disk_ops H m ip) b po off n (d', f') = Some ((d'', f''),
         Inr (take n (drop (unat off) (splice (unat offset) buf (file_bytes b po (disk_content img d) (file_entry f) cs))))))"
proof -
  let ?f = "f\<lparr>file_cursor := offset + of_nat (length buf)\<rparr>"
  from disk.file_write_bytes [OF assms(1,2,6,3-5), of ty] obtain d' where
    d': "file_write (disk_ops H m ip) b ty po offset buf (d, f) = Some ((d', ?f), Inr (length buf))"
      "disk_ready m A H ip p img idle capacity (n0 + length cs * (hop ahci_cost b + 2 * ahci_cost (bps b))) d'"
      "chain b po (disk_content img d') cs"
      "chain_bytes b po (disk_content img d') cs = splice (unat offset) buf (chain_bytes b po (disk_content img d) cs)"
      "\<forall>y. outside b po cs y \<longrightarrow> disk_content img d' y = disk_content img d y" by (elim exE conjE)
  have "cs \<noteq> []" using d'(3) by auto
  then have ch: "file_chain b po (disk_content img d') (file_entry ?f) cs" using assms(2) d'(3) by (auto simp: file_chain_def)
  have "file_bytes b po (disk_content img d') (file_entry f) cs
      = splice (unat offset) buf (file_bytes b po (disk_content img d) (file_entry f) cs)"
    unfolding file_bytes_def d'(4) using assms(4,5) by (intro take_splice) simp_all
  then have "\<exists>d'' f''. file_read (disk_ops H m ip) b po off n (d', ?f) = Some ((d'', f''),
       Inr (take n (drop (unat off) (splice (unat offset) buf (file_bytes b po (disk_content img d) (file_entry f) cs)))))" for off n
    using disk.file_read_bytes [OF assms(1) ch d'(2), of off n] by auto
  then show ?thesis using d'(1,5) by (intro exI [of _ d'] exI [of _ ?f]) simp
qed

theorem fat_write_in_place_witness:
  "\<exists>d' f'. file_write (disk_ops (ideal_hba sample_port) flat_mapper True) sample_bpb Fat16 0 511 [7, 9] (sample_disk sample_image, sample_file)
      = Some ((d', f'), Inr 2)
    \<and> (\<exists>d'' f''. file_read (disk_ops (ideal_hba sample_port) flat_mapper True) sample_bpb 0 510 4 (d', f') = Some ((d'', f''), Inr [254, 7, 9, 1]))"
proof -
  have fc: "file_chain sample_bpb 0 (disk_content (\<lambda>h. h) (sample_disk sample_image)) (file_entry sample_file) [2, 3]"
    unfolding sample_disk_content by (rule sample_file_chain) (simp_all add: sample_image_def)
  have r: "disk_ready flat_mapper UNIV (ideal_hba sample_port) True sample_port (\<lambda>h. h) (\<lambda>_. True) (2 ^ 40)
      ((0 + length [2, 3 :: u32] * (hop ahci_cost sample_bpb + 2 * ahci_cost (bps sample_bpb)))
        + length [2, 3 :: u32] * (write_hop ahci_cost sample_bpb + 2 * ahci_cost (bps sample_bpb))) (sample_disk sample_image)"
    by (rule sample_disk_ready) (simp add: sample_bpb_geometry sample_clusters ahci_cost_def hop_def write_hop_def)
  have sz: "file_size (file_entry sample_file) = 600" by (simp add: sample_file_def)
  have bytes: "take 4 (drop (unat (510 :: u64)) (splice (unat (511 :: u64)) [7, 9] (span sample_image 98816 600))) = [254, 7, 9, 1]"
    by (simp add: take_drop_nth upt_conv_Cons nth_splice sample_image_def)
  have len: "length [7, 9 :: u8] = 2" by simp
  from fat_write_in_place [OF sample_bpb_volume fc _ _ _ r, of "[7, 9]" 511 Fat16, unfolded sample_disk_content sample_file_bytes sz len]
  obtain d' f' where d': "file_write (disk_ops (ideal_hba sample_port) flat_mapper True) sample_bpb Fat16 0 511 [7, 9]
      (sample_disk sample_image, sample_file) = Some ((d', f'), Inr 2)"
    and rd: "\<forall>off n. \<exists>d'' f''. file_read (disk_ops (ideal_hba sample_port) flat_mapper True) sample_bpb 0 off n (d', f') = Some ((d'', f''),
       Inr (take n (drop (unat off) (splice (unat (511 :: u64)) [7, 9] (span sample_image 98816 600)))))"
    by (simp add: sample_clusters del: unsigned_numeral) blast
  show ?thesis using d' rd [rule_format, of 510 4, unfolded bytes] by blast
qed

end
