(* ===== verification/FatDirs.thy ===== *)
theory FatDirs
  imports FatFiles
begin

text \<open>
  The fixed root directory of a FAT12 or FAT16 volume: looking up, creating and removing files
  (\<open>zenos-kernel/src/disk/fs/fat/mod.rs\<close>), proved against the contract \<open>block_device\<close> and stated
  for the kernel's AHCI disk.
\<close>

section \<open>The root directory on the disk\<close>

lemma root_region:
  assumes "volume b po cap" "cap < 2 ^ 64"
  shows "unat (root_dir_pos b po) = fat_end b po" "fat_end b po + root_dir_size b \<le> cap"
    "data_cluster b c \<Longrightarrow> fat_end b po + root_dir_size b \<le> cluster_pos b po c"
proof -
  let ?B = "bps b" and ?R = "unat (reserved_sector_count b) + unat (num_fats b) * unat (fat_size b)"
  note lay = volume_layout [OF assms(1)]
  have v: "bpb_validate b = Inr ()" using assms(1) by (simp add: volume_def)
  have B: "0 < ?B" "?B \<le> 4096" using validate_sizes(1) [OF v] by auto
  have lt: "?R + unat (root_dir_sectors b) < unat (total_sectors b)"
    using validate_sizes(4) [OF v] lay(1) by (simp add: word_less_nat_alt)
  have tot: "unat (total_sectors b) < 4294967296" using unsigned_less [of "total_sectors b", where 'a = nat] by simp
  have rec: "unat (root_entry_count b) < 65536" using unsigned_less [of "root_entry_count b", where 'a = nat] by simp
  have "unat (ucast (bytes_per_sector b) - 1 :: u32) = ?B - 1" using B by (simp add: unat_sub word_le_nat_alt unat_widen)
  then have "unat (root_dir_sectors b) = (unat (root_entry_count b) * 32 + (?B - 1)) div ?B"
    using B rec by (simp add: root_dir_sectors_def unat_div unat_word_ariths unat_widen)
  moreover have "root_dir_size b \<le> (root_dir_size b + (?B - 1)) div ?B * ?B"
  proof -
    have "(root_dir_size b + (?B - 1)) div ?B * ?B + (root_dir_size b + (?B - 1)) mod ?B = root_dir_size b + (?B - 1)" by simp
    moreover have "(root_dir_size b + (?B - 1)) mod ?B \<le> ?B - 1" using B(1) by (simp add: less_Suc_eq_le [symmetric])
    ultimately show ?thesis by linarith
  qed
  ultimately have sz: "root_dir_size b \<le> unat (root_dir_sectors b) * ?B" by (simp add: root_dir_size_def)
  have "unat (num_fats b) * unat (fat_size b) < 4294967296" "?R < 4294967296" using lt tot by linarith+
  then have sec: "unat (root_dir_sector b) = ?R" by (simp add: root_dir_sector_def unat_word_ariths unat_widen)
  then have "unat (root_dir_sector b) < unat (total_sectors b)" using lt by simp
  from sector_pos_exact(1) [OF assms this] show "unat (root_dir_pos b po) = fat_end b po"
    by (simp add: root_dir_pos_def sector_pos_def fat_end_def fat_base_def sec algebra_simps)
  have "(?R + unat (root_dir_sectors b)) * ?B \<le> unat (total_sectors b) * ?B" using lt by (intro mult_le_mono1) simp
  then show "fat_end b po + root_dir_size b \<le> cap"
    using sz assms(1) by (simp add: fat_end_def fat_base_def volume_def algebra_simps)
  have "(?R + unat (root_dir_sectors b)) * ?B \<le> (unat (first_data_sector b) + k) * ?B" for k
    unfolding lay(1) by (intro mult_le_mono1) simp
  from this [of "(unat c - 2) * unat (sectors_per_cluster b)"]
  show "fat_end b po + root_dir_size b \<le> cluster_pos b po c"
    using sz by (simp add: fat_end_def fat_base_def cluster_pos_def sector_byte_def algebra_simps)
qed

definition root_slots :: "bpb \<Rightarrow> u64 \<Rightarrow> (nat \<Rightarrow> u8) \<Rightarrow> bytes list" where
  "root_slots b po cont = chunks 32 (span cont (fat_end b po) (root_dir_size b))"

definition root_entries :: "bpb \<Rightarrow> u64 \<Rightarrow> (nat \<Rightarrow> u8) \<Rightarrow> (fat_dir_entry \<times> nat) list" where
  "root_entries b po cont = fst (scan_chunks 0 (root_slots b po cont))"

definition named :: "string \<Rightarrow> fat_dir_entry \<times> nat \<Rightarrow> bool" where
  "named nm = (\<lambda>(e, i). to_uppercase (short_name e) = to_uppercase nm)"

lemma length_chunks [simp]: "length xs = m * 32 \<Longrightarrow> length (chunks 32 xs) = m"
  by (simp add: chunks_def)

lemma nth_chunks: "length xs = m * 32 \<Longrightarrow> i < m \<Longrightarrow> chunks 32 xs ! i = take 32 (drop (i * 32) xs)"
  by (simp add: chunks_def)

lemma chunks_splice:
  assumes "length xs = m * 32" "i < m" "length ys = 32"
  shows "chunks 32 (splice (i * 32) ys xs) = (chunks 32 xs)[i := ys]"
proof (rule nth_equalityI)
  have fit: "i * 32 + length ys \<le> length xs" using assms by simp
  then have len: "length (splice (i * 32) ys xs) = m * 32" using assms(1) by simp
  then show "length (chunks 32 (splice (i * 32) ys xs)) = length ((chunks 32 xs)[i := ys])" using assms(1) by simp
  fix j assume "j < length (chunks 32 (splice (i * 32) ys xs))"
  then have j: "j < m" using len by simp
  show "chunks 32 (splice (i * 32) ys xs) ! j = (chunks 32 xs)[i := ys] ! j"
  proof (cases "j = i")
    case True
    then show ?thesis using j len assms fit take_drop_splice [OF fit] by (simp add: nth_chunks)
  next
    case False
    have "take 32 (drop (j * 32) (splice (i * 32) ys xs)) = take 32 (drop (j * 32) xs)"
    proof (rule nth_equalityI)
      fix q assume "q < length (take 32 (drop (j * 32) (splice (i * 32) ys xs)))"
      then have "q < 32" by simp
      then have q: "q < 32" "j * 32 + q < length xs" using j assms(1) by linarith+
      have "\<not> (i * 32 \<le> j * 32 + q \<and> j * 32 + q < i * 32 + length ys)" using False q(1) assms(3) by auto
      then show "take 32 (drop (j * 32) (splice (i * 32) ys xs)) ! q = take 32 (drop (j * 32) xs) ! q"
        using q fit len assms(1) by (auto simp: nth_splice)
    qed (use len assms(1) in simp)
    then show ?thesis using j len assms False by (simp add: nth_chunks)
  qed
qed

lemma scan_chunks_mem:
  assumes "(e, i) \<in> set (fst (scan_chunks k cs))"
  shows "k \<le> i \<and> i < k + length cs \<and> entry_parse (cs ! (i - k)) = Some e"
  using assms
proof (induction cs arbitrary: k)
  case (Cons c cs)
  show ?case
  proof (cases "(e, i) = (e, k) \<and> entry_parse c = Some e")
    case True
    then show ?thesis by simp
  next
    case False
    then have "(e, i) \<in> set (fst (scan_chunks (k + 1) cs))"
      using Cons.prems by (auto split: if_splits option.splits prod.splits)
    from Cons.IH [OF this] show ?thesis by (auto simp: nth_Cons' )
  qed
qed simp

lemma scan_chunks_append:
  assumes "\<And>c. c \<in> set as \<Longrightarrow> c ! 0 \<noteq> 0x00"
  shows "scan_chunks k (as @ cs) = (fst (scan_chunks k as) @ fst (scan_chunks (k + length as) cs), snd (scan_chunks (k + length as) cs))"
  using assms
proof (induction as arbitrary: k)
  case (Cons a as)
  then show ?case by (auto split: option.splits prod.splits)
qed simp

lemma entry_slot_exact:
  assumes "volume b po cap" "cap < 2 ^ 64" "i < unat (root_entry_count b)"
  shows "unat (entry_slot_pos b po i) = fat_end b po + i * 32" "fat_end b po + i * 32 + 32 \<le> cap"
    "i * 32 + 32 \<le> root_dir_size b"
proof -
  note r = root_region(1,2) [OF assms(1,2)]
  show le: "i * 32 + 32 \<le> root_dir_size b" using assms(3) by (simp add: root_dir_size_def)
  then show fit: "fat_end b po + i * 32 + 32 \<le> cap" using r(2) by linarith
  have eq: "entry_slot_pos b po i = root_dir_pos b po + of_nat (i * 32)" by (simp add: entry_slot_pos_def root_dir_pos_def)
  have lt: "unat (root_dir_pos b po) + i * 32 < 2 ^ 64" "i * 32 < 2 ^ 64" using r(1) fit assms(2) by linarith+
  then have "unat (of_nat (i * 32) :: u64) = i * 32" by (simp only: unat_of_nat) simp
  then show "unat (entry_slot_pos b po i) = fat_end b po + i * 32" unfolding eq using lt(1) r(1)
    by (subst unat_add_lem [THEN iffD1]) simp_all
qed

text \<open>The root directory of a mounted filesystem.\<close>

definition fixed_root :: "'d fat_fs \<Rightarrow> bool" where
  "fixed_root fs \<longleftrightarrow> fs_fat_type fs = bpb_fat_type (fs_bpb fs) \<and> bpb_fat_type (fs_bpb fs) \<noteq> Fat32"

context block_device
begin

lemma read_root_ok:
  assumes "volume b po capacity" "ready (n + cost (root_dir_size b)) d"
  shows "\<exists>d'. read_at ops d (root_dir_pos b po) (replicate (root_dir_size b) 0)
      = (d', Inr (span (content d) (fat_end b po) (root_dir_size b))) \<and> ready n d' \<and> content d' = content d"
  using read_at_ok [of n "replicate (root_dir_size b) 0" d "root_dir_pos b po"] assms(2)
    root_region(1,2) [OF assms(1) capacity_lt [OF assms(2)]] by simp

lemma find_root:
  assumes "volume (fs_bpb fs) (fs_partition_offset fs) capacity" "fixed_root fs"
    "ready (n + cost (root_dir_size (fs_bpb fs))) (fs_device fs)"
  shows "\<exists>d'. find_entry ops cl True nm fs = Some (fs\<lparr>fs_device := d'\<rparr>,
      Inr (List.find (named nm) (root_entries (fs_bpb fs) (fs_partition_offset fs) (content (fs_device fs)))))
    \<and> ready n d' \<and> content d' = content (fs_device fs)"
proof -
  from read_root_ok [OF assms(1,3)] obtain d' where "read_at ops (fs_device fs) (root_dir_pos (fs_bpb fs) (fs_partition_offset fs))
      (replicate (root_dir_size (fs_bpb fs)) 0)
      = (d', Inr (span (content (fs_device fs)) (fat_end (fs_bpb fs) (fs_partition_offset fs)) (root_dir_size (fs_bpb fs))))"
      "ready n d'" "content d' = content (fs_device fs)" by (elim exE conjE)
  then show ?thesis using assms(2) by (intro exI [of _ d'])
    (simp add: find_entry_def read_entries_def on_device_def fixed_root_def root_entries_def root_slots_def named_def Let_def)
qed

text \<open>Removing the chain of a file from the table.\<close>

lemma free_loop_chain:
  assumes v: "volume b po capacity" and "chain b po (content d) cs" "\<And>c. c \<in> set cs \<Longrightarrow> \<not> straddles b c"
    "ready (n + length cs * ((3 + unat (num_fats b)) * cost (bps b))) d"
  shows "\<exists>d'. free_loop ops b po (hd cs) d = Some (d', Inr ()) \<and> ready n d'
    \<and> (\<forall>x. in_fat b x \<longrightarrow> fat_value b po (content d') x = (if x \<in> set cs then 0 else fat_value b po (content d) x))
    \<and> (\<forall>y. y < fat_base b po \<or> fat_end b po \<le> y \<longrightarrow> content d' y = content d y)"
  using assms(2-)
proof (induction cs arbitrary: d)
  case (Cons c cs)
  let ?ty = "bpb_fat_type b"
  have c: "in_fat b c" "\<not> straddles b c" using chain_set [OF Cons.prems(1)] Cons.prems(2) by auto
  let ?rest = "n + length cs * ((3 + unat (num_fats b)) * cost (bps b))"
  have "ready ((?rest + (1 + unat (num_fats b)) * cost (bps b)) + 2 * cost (bps b)) d"
    using Cons.prems(3) by (simp add: algebra_simps)
  from read_entry_ok [OF v c(1) this] obtain d1 where
    d1: "read_entry ops b po d c = (d1, Inr (fat_value b po (content d) c))"
      "ready (?rest + (1 + unat (num_fats b)) * cost (bps b)) d1" "content d1 = content d" by (elim exE conjE)
  from write_entry_values [OF v c d1(2), of 0] obtain d2 where
    d2: "write_entry ops b po d1 c 0 = (d2, Inr ())" "ready ?rest d2" "entry_written b po c 0 (content d) (content d2)"
    unfolding d1(3) by (elim exE conjE)
  have vals: "fat_value b po (content d2) x = (if x = c then 0 else fat_value b po (content d) x)" if "in_fat b x" for x
    using d2(3) that by (simp add: entry_written_def)
  have out: "content d2 y = content d y" if "y < fat_base b po \<or> fat_end b po \<le> y" for y
    using d2(3) that by (auto simp: entry_written_def)
  have step: "free_loop ops b po (hd (c # cs)) d =
      (if is_eoc ?ty (fat_value b po (content d) c) then Some (d2, Inr ()) else free_loop ops b po (fat_value b po (content d) c) d2)"
    using d1(1) d2(1) by (subst free_loop.simps) simp
  show ?case
  proof (cases cs)
    case Nil
    then have "is_eoc ?ty (fat_value b po (content d) c)" using Cons.prems(1) by simp
    then show ?thesis using step d2(2) vals out Nil by (intro exI [of _ d2]) simp
  next
    case next': (Cons c' cs')
    note nx = chain_next [OF Cons.prems(1) [unfolded next']]
    have "c \<notin> set cs" using chain_distinct [OF Cons.prems(1)] by simp
    moreover have cs: "in_fat b x" if "x \<in> set cs" for x using chain_set [OF Cons.prems(1)] that by simp
    ultimately have "chain b po (content d2) cs"
      using chain_cong [of cs b po "content d2" "content d"] vals nx next' by (metis (full_types))
    from Cons.IH [OF this _ d2(2)] Cons.prems(2) obtain d3 where
      d3: "free_loop ops b po (hd cs) d2 = Some (d3, Inr ())" "ready n d3"
        "\<forall>x. in_fat b x \<longrightarrow> fat_value b po (content d3) x = (if x \<in> set cs then 0 else fat_value b po (content d2) x)"
        "\<forall>y. y < fat_base b po \<or> fat_end b po \<le> y \<longrightarrow> content d3 y = content d2 y" by auto
    have "free_loop ops b po (hd (c # cs)) d = Some (d3, Inr ())" using step nx next' d3(1) by simp
    moreover have "\<forall>x. in_fat b x \<longrightarrow> fat_value b po (content d3) x = (if x \<in> set (c # cs) then 0 else fat_value b po (content d) x)"
      using d3(3) vals by simp
    moreover have "\<forall>y. y < fat_base b po \<or> fat_end b po \<le> y \<longrightarrow> content d3 y = content d y" using d3(4) out by simp
    ultimately show ?thesis using d3(2) by blast
  qed
qed simp

end

section \<open>Removing a file\<close>

lemma scan_delete:
  assumes "i < length cs" "cs ! i ! 0 \<noteq> 0x00" "c' ! 0 = 0xE5"
  shows "scan_chunks k (cs[i := c']) = (filter (\<lambda>(e, j). j \<noteq> k + i) (fst (scan_chunks k cs)), snd (scan_chunks k cs))"
  using assms
proof (induction cs arbitrary: k i)
  case (Cons c cs)
  have E5: "c' ! 0 \<noteq> 0x00" "entry_parse c' = None" using assms(3) by (simp_all add: entry_parse_def)
  have keep: "filter (\<lambda>(e, j). j \<noteq> k) (fst (scan_chunks (Suc k) cs)) = fst (scan_chunks (Suc k) cs)"
    using scan_chunks_mem [of _ _ "Suc k" cs] by (fastforce intro!: filter_True)
  show ?case
  proof (cases i)
    case 0
    then show ?thesis using Cons.prems E5 keep by (auto split: option.splits prod.splits)
  next
    case (Suc j)
    with Cons.IH [of j "k + 1"] Cons.prems show ?thesis by (auto split: option.splits prod.splits)
  qed
qed simp

lemma span_overwrite_inside:
  "a + length xs \<le> n \<Longrightarrow> span (overwrite c (p + a) xs) p n = splice a xs (span c p n)"
  by (rule nth_equalityI) (auto simp: nth_splice overwrite_def)

lemma overwrite_first: "0 < n \<Longrightarrow> overwrite c p ((span c p n)[0 := x]) = c(p := x)"
  by (rule ext) (auto simp: overwrite_def nth_list_update)

lemma root_slots_overwrite:
  assumes "i < unat (root_entry_count b)" "length xs = 32"
  shows "root_slots b po (overwrite cont (fat_end b po + i * 32) xs) = (root_slots b po cont)[i := xs]"
proof -
  have "i * 32 + length xs \<le> root_dir_size b" using assms by (simp add: root_dir_size_def)
  from span_overwrite_inside [OF this] show ?thesis unfolding root_slots_def
    using chunks_splice [of "span cont (fat_end b po) (root_dir_size b)" "unat (root_entry_count b)" i xs] assms
    by (simp add: root_dir_size_def)
qed

lemma length_root_slots [simp]: "length (root_slots b po cont) = unat (root_entry_count b)"
  by (simp add: root_slots_def root_dir_size_def)

lemma root_slots_nth:
  assumes "i < unat (root_entry_count b)" shows "root_slots b po cont ! i = span cont (fat_end b po + i * 32) 32"
proof -
  have "i * 32 + 32 \<le> root_dir_size b" using assms by (simp add: root_dir_size_def)
  then show ?thesis unfolding root_slots_def using assms by (simp add: nth_chunks root_dir_size_def take_drop_span)
qed

lemma root_slots_cong:
  assumes "\<And>y. fat_end b po \<le> y \<Longrightarrow> cont' y = cont y" shows "root_slots b po cont' = root_slots b po cont"
  unfolding root_slots_def using span_outside [of "fat_end b po" "root_dir_size b" cont' cont] assms by simp

lemma root_entries_mem:
  assumes "(e, i) \<in> set (root_entries b po cont)"
  shows "i < unat (root_entry_count b)" "root_slots b po cont ! i ! 0 \<noteq> 0x00"
proof -
  have m: "i < unat (root_entry_count b)" "entry_parse (root_slots b po cont ! i) = Some e"
    using scan_chunks_mem [of e i 0 "root_slots b po cont"] assms by (simp_all add: root_entries_def)
  then show "i < unat (root_entry_count b)" "root_slots b po cont ! i ! 0 \<noteq> 0x00" by (auto simp: entry_parse_def split: if_splits)
qed

context block_device
begin

lemma mark_deleted_root:
  assumes "volume b po capacity" "ty \<noteq> Fat32" "i < unat (root_entry_count b)" "ready (n + 2 * cost 32) d"
  shows "\<exists>d'. mark_deleted ops cl True i b ty po d = (d', Inr ()) \<and> ready n d' \<and> content d' = (content d)(fat_end b po + i * 32 := 0xE5)"
proof -
  note s = entry_slot_exact [OF assms(1) capacity_lt [OF assms(4)] assms(3)]
  have "ready ((n + cost 32) + cost 32) d" using assms(4) by (simp add: mult_2 add.assoc)
  with read_at_ok [of "n + cost 32" "replicate 32 0" d "entry_slot_pos b po i"] s obtain d1 where
    d1: "read_at ops d (entry_slot_pos b po i) (replicate 32 0) = (d1, Inr (span (content d) (fat_end b po + i * 32) 32))"
      "ready (n + cost 32) d1" "content d1 = content d" by auto
  with write_at_ok [of n "(span (content d) (fat_end b po + i * 32) 32)[0 := 0xE5]" d1 "entry_slot_pos b po i"] s obtain d2 where
    d2: "write_at ops d1 (entry_slot_pos b po i) ((span (content d) (fat_end b po + i * 32) 32)[0 := 0xE5]) = (d2, Inr ())" "ready n d2"
      "content d2 = overwrite (content d) (fat_end b po + i * 32) ((span (content d) (fat_end b po + i * 32) 32)[0 := 0xE5])" by auto
  then show ?thesis using d1(1) assms(2) by (simp add: mark_deleted_def overwrite_first)
qed

lemma unlink_root:
  fixes fs :: "'d fat_fs"
  defines "b \<equiv> fs_bpb fs" and "po \<equiv> fs_partition_offset fs"
  assumes v: "volume b po capacity" and fr: "fixed_root fs"
    and find: "List.find (named nm) (root_entries b po (content (fs_device fs))) = Some (e, i)" and nd: "\<not> is_directory e"
    and ch: "file_chain b po (content (fs_device fs)) e cs" and ns: "\<And>c. c \<in> set cs \<Longrightarrow> \<not> straddles b c"
    and r: "ready (n + 2 * cost 32 + length cs * ((3 + unat (num_fats b)) * cost (bps b)) + cost (root_dir_size b)) (fs_device fs)"
  shows "\<exists>d'. dir_unlink ops cl True nm fs =
      Some (fs\<lparr>fs_device := d', ino_cache := (ino_cache fs)(\<lparr>dir_cluster = cl, entry_index = i, in_root = True\<rparr> := None)\<rparr>, Inr ())
    \<and> ready n d'
    \<and> root_entries b po (content d') = filter (\<lambda>(e, j). j \<noteq> i) (root_entries b po (content (fs_device fs)))
    \<and> (\<forall>x. in_fat b x \<longrightarrow> fat_value b po (content d') x = (if x \<in> set cs then 0 else fat_value b po (content (fs_device fs)) x))
    \<and> (\<forall>y. (y < fat_base b po \<or> fat_end b po \<le> y) \<and> y \<noteq> fat_end b po + i * 32 \<longrightarrow> content d' y = content (fs_device fs) y)"
proof -
  let ?c = "content (fs_device fs)" and ?slot = "fat_end b po + i * 32"
  have "(e, i) \<in> set (root_entries b po ?c)" using find by (auto simp: find_Some_iff)
  note i = root_entries_mem [OF this]
  from find_root [OF v [unfolded b_def po_def] fr r [unfolded b_def], of cl nm] obtain d1 where
    d1: "find_entry ops cl True nm fs = Some (fs\<lparr>fs_device := d1\<rparr>, Inr (Some (e, i)))"
      "ready (n + 2 * cost 32 + length cs * ((3 + unat (num_fats b)) * cost (bps b))) d1" "content d1 = ?c"
    unfolding b_def [symmetric] po_def [symmetric] find by (elim exE conjE)
  have "\<exists>d2. (if 2 \<le> first_cluster e then free_loop ops b po (first_cluster e) d1 else Some (d1, Inr ())) = Some (d2, Inr ())
      \<and> ready (n + 2 * cost 32) d2
      \<and> (\<forall>x. in_fat b x \<longrightarrow> fat_value b po (content d2) x = (if x \<in> set cs then 0 else fat_value b po ?c x))
      \<and> (\<forall>y. y < fat_base b po \<or> fat_end b po \<le> y \<longrightarrow> content d2 y = ?c y)"
  proof (cases "cs = []")
    case True
    then have "\<not> 2 \<le> first_cluster e" using ch by (auto simp: file_chain_def)
    then show ?thesis using True d1(2,3) by (intro exI [of _ d1]) simp
  next
    case False
    then have c: "chain b po (content d1) cs" "hd cs = first_cluster e" using ch d1(3) by (auto simp: file_chain_def)
    have "data_cluster b (first_cluster e)" unfolding c(2) [symmetric] using chain_set [OF c(1) hd_in_set] False by simp
    then have "2 \<le> first_cluster e" by (simp add: data_cluster_def word_le_nat_alt)
    then show ?thesis using free_loop_chain [OF v c(1) ns d1(2)] unfolding c(2) d1(3) by simp
  qed
  then obtain d2 where
    d2: "(if 2 \<le> first_cluster e then free_loop ops b po (first_cluster e) d1 else Some (d1, Inr ())) = Some (d2, Inr ())"
      "ready (n + 2 * cost 32) d2"
      "\<forall>x. in_fat b x \<longrightarrow> fat_value b po (content d2) x = (if x \<in> set cs then 0 else fat_value b po ?c x)"
      "\<forall>y. y < fat_base b po \<or> fat_end b po \<le> y \<longrightarrow> content d2 y = ?c y" by (elim exE conjE)
  have ty: "fs_fat_type fs \<noteq> Fat32" using fr by (simp add: fixed_root_def)
  from mark_deleted_root [OF v ty i(1) d2(2), of cl] obtain d3 where
    d3: "mark_deleted ops cl True i b (fs_fat_type fs) po d2 = (d3, Inr ())" "ready n d3" "content d3 = (content d2)(?slot := 0xE5)"
    by (elim exE conjE)
  have "dir_unlink ops cl True nm fs =
      Some (fs\<lparr>fs_device := d3, ino_cache := (ino_cache fs)(\<lparr>dir_cluster = cl, entry_index = i, in_root = True\<rparr> := None)\<rparr>, Inr ())"
    using d1(1) nd d2(1) d3(1)
    by (cases "2 \<le> first_cluster e") (simp_all add: dir_unlink_def on_device_def Let_def b_def po_def)
  moreover have "root_entries b po (content d3) = filter (\<lambda>(e, j). j \<noteq> i) (root_entries b po ?c)"
  proof -
    have same: "root_slots b po (content d2) = root_slots b po ?c" using d2(4) by (intro root_slots_cong) simp
    have "root_slots b po (content d3) = (root_slots b po ?c)[i := (span (content d2) ?slot 32)[0 := 0xE5]]"
      unfolding d3(3) overwrite_first [of 32, symmetric, simplified] by (subst root_slots_overwrite [OF i(1)]) (simp_all add: same)
    then show ?thesis unfolding root_entries_def
      using scan_delete [of i "root_slots b po ?c" "(span (content d2) ?slot 32)[0 := 0xE5]" 0] i by simp
  qed
  moreover have "fat_value b po (content d3) x = (if x \<in> set cs then 0 else fat_value b po ?c x)" if "in_fat b x" for x
    using d2(3) that fat_value_cong [OF that v, of "content d3" "content d2"] d3(3) by simp
  moreover have "content d3 y = ?c y" if "y < fat_base b po \<or> fat_end b po \<le> y" "y \<noteq> ?slot" for y
    using d2(4) that d3(3) by auto
  ultimately show ?thesis using d3(2) by blast
qed

end


text \<open>The sample disk, mounted, with the sample file \<open>KERNEL.BIN\<close> in the first slot of its root directory.\<close>

definition sample_root_image :: "nat \<Rightarrow> u8" where
  "sample_root_image = overwrite sample_image 82432 (entry_serialize (file_entry sample_file))"

definition sample_fs :: "(nat \<Rightarrow> u8) \<Rightarrow> (nat \<Rightarrow> u8, u64 \<Rightarrow> u64 option) disk fat_fs" where
  "sample_fs cont = \<lparr>fs_device = sample_disk cont, fs_bpb = sample_bpb, fs_fat_type = Fat16, fs_partition_offset = 0,
     ino_cache = (\<lambda>_. None), inodes = []\<rparr>"

lemma sample_fs_simps [simp]:
  "fs_device (sample_fs c) = sample_disk c" "fs_bpb (sample_fs c) = sample_bpb" "fs_partition_offset (sample_fs c) = 0"
  "ino_cache (sample_fs c) = (\<lambda>_. None)" "inodes (sample_fs c) = []" "fixed_root (sample_fs c)"
  by (simp_all add: sample_fs_def fixed_root_def sample_bpb_geometry)

lemma sample_fat_end: "fat_end sample_bpb 0 = 82432" "unat (root_entry_count sample_bpb) = 512" "root_dir_size sample_bpb = 16384"
  by (simp_all add: fat_end_def fat_base_def root_dir_size_def sample_bpb_geometry) (simp_all add: sample_bpb_def)

lemma sample_root_find:
  assumes "span cont 82432 32 = entry_serialize e" "entry_parse (entry_serialize e) = Some e" "\<not> is_long_name e" "\<not> is_volume_id e"
    "named nm (e, 0)"
  shows "List.find (named nm) (root_entries sample_bpb 0 cont) = Some (e, 0)"
proof -
  obtain s ss where ss: "root_slots sample_bpb 0 cont = s # ss"
    using length_root_slots [of sample_bpb 0 cont] by (cases "root_slots sample_bpb 0 cont") (auto simp: sample_fat_end)
  then have "s = entry_serialize e" using root_slots_nth [of 0 sample_bpb 0 cont] assms(1) by (simp add: sample_fat_end)
  moreover have "entry_serialize e ! 0 \<noteq> 0x00" using assms(2) by (auto simp: entry_parse_def split: if_splits)
  ultimately show ?thesis using assms ss by (simp add: root_entries_def split: prod.splits)
qed

lemma sample_file_entry:
  "length (name (file_entry sample_file)) = 11" "length (entry_serialize (file_entry sample_file)) = 32"
  "entry_parse (entry_serialize (file_entry sample_file)) = Some (file_entry sample_file)"
  "\<not> is_long_name (file_entry sample_file)" "\<not> is_volume_id (file_entry sample_file)" "\<not> is_directory (file_entry sample_file)"
  "named ''kernel.bin'' (file_entry sample_file, 0)"
proof -
  have nm: "name (file_entry sample_file) = name sample_entry" by (simp add: sample_file_def)
  then show l: "length (name (file_entry sample_file)) = 11" by (simp add: sample_entry_def)
  then show "length (entry_serialize (file_entry sample_file)) = 32" by (rule length_entry_serialize)
  show "entry_parse (entry_serialize (file_entry sample_file)) = Some (file_entry sample_file)"
    by (rule entry_parse_serialize [OF l]) (simp_all add: nm sample_entry_def char_byte_def)
  have a: "attr (file_entry sample_file) = 0x20" by (simp add: sample_file_def sample_entry_def ATTR_ARCHIVE_def)
  show "\<not> is_long_name (file_entry sample_file)" "\<not> is_volume_id (file_entry sample_file)" "\<not> is_directory (file_entry sample_file)"
    by (simp_all add: is_long_name_def is_volume_id_def is_directory_def a ATTR_LONG_NAME_def ATTR_VOLUME_ID_def ATTR_DIRECTORY_def)
  have "short_name (file_entry sample_file) = ''KERNEL.BIN''"
    by (simp add: short_name_def nm sample_entry_def Let_def trim_end_def is_space_def)
  moreover have "to_uppercase ''KERNEL.BIN'' = to_uppercase ''kernel.bin''" by code_simp
  ultimately show "named ''kernel.bin'' (file_entry sample_file, 0)" by (simp add: named_def)
qed


section \<open>Creating a file\<close>

lemma upper_upper [simp]: "to_uppercase (to_uppercase s) = to_uppercase s"
proof -
  have "upper_char (upper_char c) = upper_char c" for c
  proof (cases "97 \<le> (of_char c :: nat) \<and> (of_char c :: nat) \<le> 122")
    case True
    then have "(of_char c - 32 :: nat) mod 256 = of_char c - 32" by (intro mod_less) linarith
    then show ?thesis using True by (auto simp: upper_char_def Let_def)
  next
    case False
    then have "upper_char c = c" by (simp only: upper_char_def Let_def if_False)
    then show ?thesis by simp
  qed
  then show ?thesis by (simp add: to_uppercase_def)
qed

lemma new_entry_file:
  assumes "valid_8_3 nm" "name_to_8_3 nm ! 0 \<notin> {0x00, 0xE5}"
  shows "entry_parse (entry_serialize (new_entry nm False c)) = Some (new_entry nm False c)"
    "length (entry_serialize (new_entry nm False c)) = 32" "named nm (new_entry nm False c, i)"
    "\<not> is_long_name (new_entry nm False c)" "\<not> is_volume_id (new_entry nm False c)" "\<not> is_directory (new_entry nm False c)"
proof -
  let ?e = "new_entry nm False c"
  have nm: "name ?e = name_to_8_3 nm" by (simp add: new_entry_def set_first_cluster_def)
  then show "entry_parse (entry_serialize ?e) = Some ?e" using assms(2) by (intro entry_parse_serialize) simp_all
  show "length (entry_serialize ?e) = 32" using nm by (intro length_entry_serialize) simp
  have "?e\<lparr>name := name_to_8_3 nm\<rparr> = ?e" using nm by (metis fat_dir_entry.surjective fat_dir_entry.update_convs(1) fat_dir_entry.select_convs(1))
  then show "named nm (?e, i)" using short_name_8_3 [OF assms(1), of ?e] by (simp add: named_def)
  have a: "attr ?e = 0x20" by (simp add: new_entry_def set_first_cluster_def ATTR_ARCHIVE_def)
  show "\<not> is_long_name ?e" "\<not> is_volume_id ?e" "\<not> is_directory ?e"
    by (simp_all add: is_long_name_def is_volume_id_def is_directory_def a ATTR_LONG_NAME_def ATTR_VOLUME_ID_def ATTR_DIRECTORY_def)
qed

lemma find_append_first: "(\<And>x. x \<in> set xs \<Longrightarrow> \<not> P x) \<Longrightarrow> P y \<Longrightarrow> List.find P (xs @ y # ys) = Some y"
  by (induction xs) auto

text \<open>A new entry in the first free slot is the one a search finds, when its name is new.\<close>

lemma find_created:
  assumes "i < length cs" "\<And>j. j < i \<Longrightarrow> \<not> slot_free (cs ! j)" "List.find (named nm) (fst (scan_chunks 0 cs)) = None"
    and "entry_parse c = Some e" "\<not> is_long_name e" "\<not> is_volume_id e" "named nm (e, i)"
  shows "List.find (named nm) (fst (scan_chunks 0 (cs[i := c]))) = Some (e, i)"
proof -
  let ?as = "take i cs"
  have as: "x ! 0 \<noteq> 0x00" if "x \<in> set ?as" for x
    using that assms(1,2) by (auto simp: in_set_conv_nth slot_free_def)
  have len: "length ?as = i" using assms(1) by simp
  have "cs = ?as @ drop i cs" "cs[i := c] = ?as @ c # drop (Suc i) cs"
    using assms(1) by (simp_all add: upd_conv_take_nth_drop)
  then have old: "fst (scan_chunks 0 cs) = fst (scan_chunks 0 ?as) @ fst (scan_chunks i (drop i cs))"
    and new: "fst (scan_chunks 0 (cs[i := c])) = fst (scan_chunks 0 ?as) @ fst (scan_chunks i (c # drop (Suc i) cs))"
    using scan_chunks_append [of ?as 0 "drop i cs", OF as] scan_chunks_append [of ?as 0 "c # drop (Suc i) cs", OF as] len
    by (metis add_0 fst_conv)+
  have "c ! 0 \<noteq> 0x00" using assms(4) by (auto simp: entry_parse_def split: if_splits)
  then have "fst (scan_chunks i (c # drop (Suc i) cs)) = (e, i) # fst (scan_chunks (Suc i) (drop (Suc i) cs))"
    using assms(4-6) by (simp split: prod.splits)
  moreover have "\<not> named nm x" if "x \<in> set (fst (scan_chunks 0 ?as))" for x
    using assms(3) that unfolding old find_None_iff by (cases x) auto
  ultimately show ?thesis unfolding new using assms(7) by (simp add: find_append_first)
qed

lemma free_slot_SomeD:
  assumes "free_slot buf = Some i"
  shows "i < length (chunks 32 buf)" "\<And>j. j < i \<Longrightarrow> \<not> slot_free (chunks 32 buf ! j)"
  using assms by (auto simp: free_slot_def find_Some_iff)

context block_device
begin

lemma create_root:
  fixes fs :: "'d fat_fs" and nm :: string
  defines "b \<equiv> fs_bpb fs" and "po \<equiv> fs_partition_offset fs" and "e \<equiv> new_entry nm False 0"
  assumes v: "volume b po capacity" and fr: "fixed_root fs" and nm: "valid_8_3 nm" "name_to_8_3 nm ! 0 \<notin> {0x00, 0xE5}"
    and none: "List.find (named nm) (root_entries b po (content (fs_device fs))) = None"
    and slot: "free_slot (span (content (fs_device fs)) (fat_end b po) (root_dir_size b)) = Some i"
    and r: "ready (n + 3 * cost (root_dir_size b)) (fs_device fs)"
  shows "\<exists>d'. create_entry ops cl True nm False fs = Some (fs\<lparr>fs_device := d'\<rparr>, Inr e)
    \<and> ready (n + cost (root_dir_size b)) d' \<and> i < unat (root_entry_count b)
    \<and> content d' = overwrite (content (fs_device fs)) (fat_end b po + i * 32) (entry_serialize e)
    \<and> List.find (named nm) (root_entries b po (content d')) = Some (e, i)"
proof -
  let ?c = "content (fs_device fs)" and ?S = "root_dir_size b"
  let ?buf = "span ?c (fat_end b po) ?S"
  note ne = new_entry_file [OF nm, of 0, folded e_def]
  have fs: "free_slot ?buf = Some i" by (rule slot)
  have i: "i < unat (root_entry_count b)" using free_slot_SomeD(1) [OF fs] by (simp flip: root_slots_def)
  have "ready ((n + 2 * cost ?S) + cost ?S) (fs_device fs)" using r by (simp add: algebra_simps)
  from read_root_ok [OF v this] obtain d1 where
    d1: "read_at ops (fs_device fs) (root_dir_pos b po) (replicate ?S 0) = (d1, Inr ?buf)" "ready (n + 2 * cost ?S) d1" "content d1 = ?c"
    by (elim exE conjE)
  have fit: "i * 32 + length (entry_serialize e) \<le> length ?buf" using i ne(2) by (simp add: root_dir_size_def)
  note rr = root_region(1,2) [OF v capacity_lt [OF r]]
  have "ready ((n + cost ?S) + cost (length (splice (i * 32) (entry_serialize e) ?buf))) d1"
    using d1(2) fit by (simp add: mult_2 add.assoc)
  from write_at_ok [OF this, of "root_dir_pos b po"] fit rr obtain d2 where
    d2: "write_at ops d1 (root_dir_pos b po) (splice (i * 32) (entry_serialize e) ?buf) = (d2, Inr ())" "ready (n + cost ?S) d2"
      "content d2 = overwrite ?c (fat_end b po + i * 32) (entry_serialize e)" unfolding d1(3) by (auto simp: overwrite_splice)
  have "create_entry ops cl True nm False fs = Some (fs\<lparr>fs_device := d2\<rparr>, Inr e)"
    using fr d1(1) d2(1) fs by (simp add: create_entry_def on_device_def fixed_root_def Let_def b_def po_def e_def)
  moreover have "List.find (named nm) (root_entries b po (content d2)) = Some (e, i)"
    unfolding root_entries_def d2(3) root_slots_overwrite [OF i ne(2)]
    using free_slot_SomeD(2) [OF fs] i none ne by (intro find_created) (simp_all flip: root_slots_def root_entries_def)
  ultimately show ?thesis using d2(2,3) i by blast
qed

lemma dir_create_root:
  fixes fs :: "'d fat_fs" and nm :: string
  defines "b \<equiv> fs_bpb fs" and "po \<equiv> fs_partition_offset fs" and "e \<equiv> new_entry nm False 0"
  assumes v: "volume b po capacity" and fr: "fixed_root fs" and nm: "valid_8_3 nm" "name_to_8_3 nm ! 0 \<notin> {0x00, 0xE5}"
    and none: "List.find (named nm) (root_entries b po (content (fs_device fs))) = None"
    and slot: "free_slot (span (content (fs_device fs)) (fat_end b po) (root_dir_size b)) = Some i"
    and uncached: "ino_cache fs \<lparr>dir_cluster = cl, entry_index = i, in_root = True\<rparr> = None"
    and r: "ready (n + 3 * cost (root_dir_size b)) (fs_device fs)"
  shows "\<exists>d'. dir_create ops live now cl True nm File fs = Some (apsnd Inr
        (create_and_cache_inode now cl True \<lparr>dir_cluster = cl, entry_index = i, in_root = True\<rparr> e i (fs\<lparr>fs_device := d'\<rparr>)))
    \<and> ready n d' \<and> content d' = overwrite (content (fs_device fs)) (fat_end b po + i * 32) (entry_serialize e)
    \<and> List.find (named nm) (root_entries b po (content d')) = Some (e, i)"
proof -
  note ne = new_entry_file [OF nm, of 0, folded e_def]
  from create_root [OF v [unfolded b_def po_def] fr nm none [unfolded b_def po_def] slot [unfolded b_def po_def] r [unfolded b_def], of cl]
  obtain d1 where d1: "create_entry ops cl True nm False fs = Some (fs\<lparr>fs_device := d1\<rparr>, Inr e)" "ready (n + cost (root_dir_size b)) d1"
      "content d1 = overwrite (content (fs_device fs)) (fat_end b po + i * 32) (entry_serialize e)"
      "List.find (named nm) (root_entries b po (content d1)) = Some (e, i)"
    unfolding b_def po_def e_def by (elim exE conjE)
  let ?fs = "fs\<lparr>fs_device := d1\<rparr>"
  have "fixed_root ?fs" using fr by (simp add: fixed_root_def)
  with find_root [of ?fs n cl nm] v d1(2,4) obtain d2 where
    d2: "find_entry ops cl True nm ?fs = Some (?fs\<lparr>fs_device := d2\<rparr>, Inr (Some (e, i)))" "ready n d2" "content d2 = content d1"
    by (auto simp: b_def po_def)
  then show ?thesis using d1(1) d1(3,4) uncached
    by (intro exI [of _ d2]) (simp add: dir_create_def dir_lookup_def cached_inode_def)
qed

text \<open>The inode of an entry that is cached and alive is found again.\<close>

lemma dir_lookup_cached:
  assumes "volume (fs_bpb fs) (fs_partition_offset fs) capacity" "fixed_root fs"
    and "List.find (named nm) (root_entries (fs_bpb fs) (fs_partition_offset fs) (content (fs_device fs))) = Some (e, i)"
    and "ino_cache fs \<lparr>dir_cluster = cl, entry_index = i, in_root = True\<rparr> = Some j" "live j"
    and "ready (n + cost (root_dir_size (fs_bpb fs))) (fs_device fs)"
  shows "\<exists>d'. dir_lookup ops live now cl True nm fs = Some (fs\<lparr>fs_device := d'\<rparr>, Inr j) \<and> ready n d' \<and> content d' = content (fs_device fs)"
proof -
  from find_root [OF assms(1,2,6), of cl nm] obtain d' where
    "find_entry ops cl True nm fs = Some (fs\<lparr>fs_device := d'\<rparr>, Inr (Some (e, i)))" "ready n d'" "content d' = content (fs_device fs)"
    unfolding assms(3) by (elim exE conjE)
  then show ?thesis using assms(4,5) by (intro exI [of _ d']) (simp add: dir_lookup_def cached_inode_def)
qed

end

text \<open>
  C29: Creating a file in the root directory of a FAT12 or FAT16 volume.  For a name that fits 8.3 and is not
  in use, and a directory with a free slot, \<open>create\<close> returns a new file inode for an empty file; only the 32
  bytes of that slot change on the disk, and a search for the name now finds the new entry there.
\<close>

theorem fat_create_lookup:
  assumes "volume (fs_bpb fs) (fs_partition_offset fs) capacity" "fixed_root fs" "valid_8_3 nm" "name_to_8_3 nm ! 0 \<notin> {0x00, 0xE5}"
    and "List.find (named nm) (root_entries (fs_bpb fs) (fs_partition_offset fs) (disk_content img (fs_device fs))) = None"
    and "free_slot (span (disk_content img (fs_device fs)) (fat_end (fs_bpb fs) (fs_partition_offset fs)) (root_dir_size (fs_bpb fs))) = Some i"
    and "ino_cache fs \<lparr>dir_cluster = cl, entry_index = i, in_root = True\<rparr> = None"
    and "disk_ready m A H ip p img idle capacity (n + 3 * ahci_cost (root_dir_size (fs_bpb fs))) (fs_device fs)"
  shows "\<exists>fs'. dir_create (disk_ops H m ip) live now cl True nm File fs = Some (fs', Inr (length (inodes fs)))
    \<and> ino_data (inodes fs' ! length (inodes fs)) = FatFile \<lparr>file_entry = new_entry nm False 0, file_cursor = 0, file_dir_cluster = cl,
        file_entry_index = i, file_in_root = True\<rparr>
    \<and> disk_content img (fs_device fs') = overwrite (disk_content img (fs_device fs))
        (fat_end (fs_bpb fs) (fs_partition_offset fs) + i * 32) (entry_serialize (new_entry nm False 0))
    \<and> List.find (named nm) (root_entries (fs_bpb fs) (fs_partition_offset fs) (disk_content img (fs_device fs'))) = Some (new_entry nm False 0, i)"
proof -
  let ?key = "\<lparr>dir_cluster = cl, entry_index = i, in_root = True\<rparr>" and ?e = "new_entry nm False 0"
  from disk.dir_create_root [OF assms, of live now] obtain d' where
    d': "dir_create (disk_ops H m ip) live now cl True nm File fs = Some (apsnd Inr (create_and_cache_inode now cl True ?key ?e i (fs\<lparr>fs_device := d'\<rparr>)))"
      "disk_content img d' = overwrite (disk_content img (fs_device fs))
        (fat_end (fs_bpb fs) (fs_partition_offset fs) + i * 32) (entry_serialize ?e)"
      "List.find (named nm) (root_entries (fs_bpb fs) (fs_partition_offset fs) (disk_content img d')) = Some (?e, i)" by (elim exE conjE)
  show ?thesis unfolding d'(1) using d'(2,3) new_entry_file(6) [OF assms(3,4), of 0]
    by (simp add: create_and_cache_inode_def add_inode_def Let_def)
qed

lemma sample_empty_root:
  "List.find (named nm) (root_entries sample_bpb 0 (\<lambda>_. 0)) = None"
  "free_slot (span (\<lambda>_. 0) (fat_end sample_bpb 0) (root_dir_size sample_bpb)) = Some 0"
proof -
  obtain s ss where ss: "root_slots sample_bpb 0 (\<lambda>_. 0) = s # ss"
    using length_root_slots [of sample_bpb 0 "\<lambda>_. 0"] by (cases "root_slots sample_bpb 0 (\<lambda>_. 0)") (auto simp: sample_fat_end)
  then have s: "s ! 0 = 0" using root_slots_nth [of 0 sample_bpb 0 "\<lambda>_. 0"] by (simp add: sample_fat_end)
  show "List.find (named nm) (root_entries sample_bpb 0 (\<lambda>_. 0)) = None" using ss s by (simp add: root_entries_def)
  show "free_slot (span (\<lambda>_. 0) (fat_end sample_bpb 0) (root_dir_size sample_bpb)) = Some 0"
    unfolding free_slot_def root_slots_def [symmetric] length_root_slots sample_fat_end(2)
    by (rule find_first_element) (simp_all add: ss s slot_free_def)
qed

lemma readme_8_3: "valid_8_3 ''readme.txt''" "name_to_8_3 ''readme.txt'' ! 0 \<notin> {0x00, 0xE5}"
proof -
  have up: "to_uppercase ''readme.txt'' = ''README.TXT''" by code_simp
  show "valid_8_3 ''readme.txt''" by (simp add: valid_8_3_def up split_last_dot_def trim_end_def is_space_def)
  show "name_to_8_3 ''readme.txt'' ! 0 \<notin> {0x00, 0xE5}"
    by (simp add: name_to_8_3_def up split_last_dot_def pad_to_def char_byte_def)
qed

theorem fat_create_lookup_witness:
  "\<exists>fs'. dir_create (disk_ops (ideal_hba sample_port) flat_mapper True) (\<lambda>_. False) 0 0 True ''readme.txt'' File (sample_fs (\<lambda>_. 0))
      = Some (fs', Inr 0)
    \<and> List.find (named ''readme.txt'') (root_entries sample_bpb 0 (disk_content (\<lambda>h. h) (fs_device fs'))) = Some (new_entry ''readme.txt'' False 0, 0)"
proof -
  have r: "disk_ready flat_mapper UNIV (ideal_hba sample_port) True sample_port (\<lambda>h. h) (\<lambda>_. True) (2 ^ 40)
      (0 + 3 * ahci_cost (root_dir_size sample_bpb)) (sample_disk (\<lambda>_. 0))"
    by (rule sample_disk_ready) (simp add: sample_fat_end ahci_cost_def)
  from fat_create_lookup [where fs = "sample_fs (\<lambda>_. 0)" and img = "\<lambda>h. h", unfolded sample_fs_simps(1-5) sample_disk_content,
      OF sample_bpb_volume sample_fs_simps(6) readme_8_3 sample_empty_root refl r, of "\<lambda>_. False" 0 0] show ?thesis by auto
qed

end
