(* ===== verification/Vfs.thy ===== *)
theory Vfs
  imports VfsCore "HOL-Library.List_Lexorder" "HOL-Library.Char_ord" "HOL-Library.Sublist"
begin

text \<open>
  The virtual filesystem, \<open>zenos-kernel/src/disk/vfs.rs\<close>: mount points, path resolution, opening and
  creating files, and open file descriptions.  The filesystem drivers behind it are trait objects in
  the source; here they are a record of operations on a common state \<open>'w\<close>, with filesystems of type
  \<open>'f\<close> and inode references of type \<open>'i\<close>.
\<close>

section \<open>The drivers\<close>

record ('w, 'f, 'i) vfs_ops =
  op_root_dir :: "'f \<Rightarrow> 'w \<Rightarrow> ('w, file_error fault, 'i) run"
  op_lookup :: "'i \<Rightarrow> string \<Rightarrow> 'w \<Rightarrow> ('w, file_error fault, 'i) run"
  op_create :: "'i \<Rightarrow> string \<Rightarrow> file_type \<Rightarrow> u16 \<Rightarrow> 'w \<Rightarrow> ('w, file_error fault, 'i) run"
  op_read :: "'i \<Rightarrow> u64 \<Rightarrow> nat \<Rightarrow> 'w \<Rightarrow> ('w, file_error fault, bytes) run"
  op_write :: "'i \<Rightarrow> u64 \<Rightarrow> bytes \<Rightarrow> 'w \<Rightarrow> ('w, file_error fault, nat) run"
  op_sync :: "'i \<Rightarrow> 'w \<Rightarrow> ('w, file_error fault, unit) run"
  op_perms :: "'i \<Rightarrow> 'w \<Rightarrow> u16"
  op_size :: "'i \<Rightarrow> 'w \<Rightarrow> u64"
  op_accessed :: "'i \<Rightarrow> u64 \<Rightarrow> 'w \<Rightarrow> 'w"
  op_modified :: "'i \<Rightarrow> u64 \<Rightarrow> 'w \<Rightarrow> 'w"

section \<open>Paths\<close>

fun split_on :: "'a \<Rightarrow> 'a list \<Rightarrow> 'a list list" where
  "split_on c [] = [[]]"
| "split_on c (x # xs) = (if x = c then [] # split_on c xs else (x # hd (split_on c xs)) # tl (split_on c xs))"

fun join :: "'a list \<Rightarrow> 'a list list \<Rightarrow> 'a list" where
  "join sep [] = []"
| "join sep [x] = x"
| "join sep (x # xs) = x @ sep @ join sep xs"

definition push_part :: "string list \<Rightarrow> string \<Rightarrow> string list" where
  "push_part components part =
    (if part = '''' \<or> part = ''.'' then components
     else if part = ''..'' then butlast components
     else components @ [part])"

definition normalize_path :: "string \<Rightarrow> string" where
  "normalize_path path = ''/'' @ join ''/'' (foldl push_part [] (split_on (CHR ''/'') path))"

section \<open>Mount points\<close>

text \<open>The map from mount points to filesystems, in the order of the keys.\<close>

type_synonym 'f vfs = "(string \<times> 'f) list"

definition vfs_new :: "'f vfs" where "vfs_new = []"

fun map_insert :: "string \<Rightarrow> 'f \<Rightarrow> 'f vfs \<Rightarrow> 'f vfs" where
  "map_insert k f [] = [(k, f)]"
| "map_insert k f ((k', f') # m) =
    (if k < k' then (k, f) # (k', f') # m else if k = k' then (k, f) # m else (k', f') # map_insert k f m)"

definition mount :: "string \<Rightarrow> 'f \<Rightarrow> 'f vfs \<Rightarrow> 'f vfs \<times> (file_error, unit) result" where
  "mount path f v = (if path \<in> fst ` set v then (v, Inl AlreadyExists) else (map_insert path f v, Inr ()))"

definition unmount :: "string \<Rightarrow> 'f vfs \<Rightarrow> 'f vfs \<times> (file_error, unit) result" where
  "unmount path v = (if path \<in> fst ` set v then (filter (\<lambda>(k, f). k \<noteq> path) v, Inr ()) else (v, Inl NotFound))"

definition get_fs :: "'f vfs \<Rightarrow> string \<Rightarrow> 'f option" where
  "get_fs v path = map_of v path"

definition better :: "string \<Rightarrow> (string \<times> 'f) option \<Rightarrow> string \<times> 'f \<Rightarrow> (string \<times> 'f) option" where
  "better path best = (\<lambda>(mount_point, f).
    if prefix mount_point path
    then (case best of
            Some (best_mount, _) \<Rightarrow> if length mount_point > length best_mount then Some (mount_point, f) else best
          | None \<Rightarrow> Some (mount_point, f))
    else best)"

definition path_to_fs :: "'f vfs \<Rightarrow> string \<Rightarrow> (string \<times> 'f) option" where
  "path_to_fs v path = foldl (better (normalize_path path)) None v"

definition vfs_root_dir :: "('w, 'f, 'i) vfs_ops \<Rightarrow> 'f vfs \<Rightarrow> 'w \<Rightarrow> ('w, file_error fault, 'i) run" where
  "vfs_root_dir ops v w = (case get_fs v ''/'' of None \<Rightarrow> Some (w, Inl (Fail NotFound)) | Some f \<Rightarrow> op_root_dir ops f w)"

section \<open>Opening and creating files\<close>

definition relative_parts :: "string \<Rightarrow> string \<Rightarrow> string list" where
  "relative_parts mount_point path =
    filter (\<lambda>p. p \<noteq> []) (split_on (CHR ''/'') (dropWhile (\<lambda>c. c = CHR ''/'') (drop (length mount_point) path)))"

text \<open>Walking down directories that must grant the given permissions.\<close>

fun walk :: "('w, 'f, 'i) vfs_ops \<Rightarrow> u16 \<Rightarrow> string list \<Rightarrow> 'i \<Rightarrow> 'w \<Rightarrow> ('w, file_error fault, 'i) run" where
  "walk ops needed [] dir w = Some (w, Inr dir)"
| "walk ops needed (part # parts) dir w =
    lbind (op_lookup ops dir part w) (\<lambda>w di.
      if contains (op_perms ops di w) needed then walk ops needed parts di w else Some (w, Inl (Fail PermissionDenied)))"

definition open_file :: "('w, 'f, 'i) vfs_ops \<Rightarrow> 'f vfs \<Rightarrow> string \<Rightarrow> 'w \<Rightarrow> ('w, file_error fault, 'i) run" where
  "open_file ops v path w =
    (let normalized = normalize_path path
     in case path_to_fs v normalized of
          None \<Rightarrow> Some (w, Inl (Fail NotFound))
        | Some (mount_point, f) \<Rightarrow>
            let parts = relative_parts mount_point normalized
            in lbind (op_root_dir ops f w) (\<lambda>w dir.
                 if parts = [] then Some (w, Inr dir)
                 else lbind (walk ops OWNER_EXEC (butlast parts) dir w) (\<lambda>w dir.
                      lbind (op_lookup ops dir (last parts) w) (\<lambda>w file.
                        if contains (op_perms ops file w) OWNER_READ then Some (w, Inr file)
                        else Some (w, Inl (Fail PermissionDenied))))))"

definition create_file :: "('w, 'f, 'i) vfs_ops \<Rightarrow> 'f vfs \<Rightarrow> string \<Rightarrow> u16 \<Rightarrow> 'w \<Rightarrow> ('w, file_error fault, 'i) run" where
  "create_file ops v path permissions w =
    (let normalized = normalize_path path
     in case path_to_fs v normalized of
          None \<Rightarrow> Some (w, Inl (Fail NotFound))
        | Some (mount_point, f) \<Rightarrow>
            let parts = relative_parts mount_point normalized
            in lbind (op_root_dir ops f w) (\<lambda>w dir.
                 if parts = [] then Some (w, Inr dir)
                 else lbind (walk ops (OWNER_EXEC OR OWNER_WRITE) (butlast parts) dir w) (\<lambda>w dir.
                      op_create ops dir (last parts) File permissions w)))"

section \<open>Open files\<close>

definition READ_ONLY :: u64 where "READ_ONLY = 0"
definition WRITE_ONLY :: u64 where "WRITE_ONLY = 1"
definition READ_WRITE :: u64 where "READ_WRITE = 2"
definition CREATE :: u64 where "CREATE = 0x40"
definition EXCLUSIVE :: u64 where "EXCLUSIVE = 0x80"

definition default_options :: u64 where
  "default_options = ((0 OR READ_ONLY) OR CREATE) OR EXCLUSIVE"

record 'i open_file_desc =
  of_inode :: 'i
  of_cursor :: u64
  of_options :: u64

definition saturating_sub :: "u64 \<Rightarrow> u64 \<Rightarrow> u64" where
  "saturating_sub a b = (if b \<le> a then a - b else 0)"

definition saturating_add :: "u64 \<Rightarrow> u64 \<Rightarrow> u64" where
  "saturating_add a b = (if a + b < a then - 1 else a + b)"

text \<open>Offsets are signed 64-bit words.\<close>

definition offset_from :: "u64 \<Rightarrow> u64 \<Rightarrow> u64" where
  "offset_from base off = (if sint off < 0 then saturating_sub base (- off) else saturating_add base off)"

definition file_seek :: "('w, 'f, 'i) vfs_ops \<Rightarrow> 'w \<Rightarrow> 'i open_file_desc \<Rightarrow> seek_from \<Rightarrow> 'i open_file_desc \<times> u64" where
  "file_seek ops w f from =
    (let new_pos = (case from of
           Start pos \<Rightarrow> pos
         | End off \<Rightarrow> offset_from (op_size ops (of_inode f) w) off
         | Current off \<Rightarrow> offset_from (of_cursor f) off)
     in (f\<lparr>of_cursor := new_pos\<rparr>, new_pos))"

definition open_read ::
  "('w, 'f, 'i) vfs_ops \<Rightarrow> u64 \<Rightarrow> nat \<Rightarrow> 'w \<times> 'i open_file_desc \<Rightarrow> ('w \<times> 'i open_file_desc, file_error fault, bytes) run" where
  "open_read ops now n = (\<lambda>(w, f).
    if \<not> contains (of_options f) (READ_ONLY OR READ_WRITE) \<and> \<not> contains (op_perms ops (of_inode f) w) OWNER_READ
    then Some ((w, f), Inl (Fail PermissionDenied))
    else lbind (run_on (\<lambda>w. (w, f)) (op_read ops (of_inode f) (of_cursor f) n w)) (\<lambda>(w, f) bs.
      let f = f\<lparr>of_cursor := of_cursor f + of_nat (length bs)\<rparr>
      in lbind (run_on (\<lambda>w. (w, f)) (op_sync ops (of_inode f) (op_accessed ops (of_inode f) now w))) (\<lambda>(w, f) _.
           Some ((w, f), Inr bs))))"

definition open_write ::
  "('w, 'f, 'i) vfs_ops \<Rightarrow> u64 \<Rightarrow> bytes \<Rightarrow> 'w \<times> 'i open_file_desc \<Rightarrow> ('w \<times> 'i open_file_desc, file_error fault, nat) run" where
  "open_write ops now buf = (\<lambda>(w, f).
    if \<not> (contains (of_options f) (WRITE_ONLY OR READ_WRITE) \<or> contains (op_perms ops (of_inode f) w) OWNER_WRITE)
    then Some ((w, f), Inl (Fail PermissionDenied))
    else lbind (run_on (\<lambda>w. (w, f)) (op_write ops (of_inode f) (of_cursor f) buf w)) (\<lambda>(w, f) written.
      let f = f\<lparr>of_cursor := of_cursor f + of_nat written\<rparr>
      in lbind (run_on (\<lambda>w. (w, f)) (op_sync ops (of_inode f) (op_modified ops (of_inode f) now w))) (\<lambda>(w, f) _.
           Some ((w, f), Inr written))))"

section \<open>Paths: correctness\<close>

lemma split_on_nonempty [simp]: "split_on c xs \<noteq> []"
  by (induction xs) auto

lemma split_on_free: "p \<in> set (split_on c xs) \<Longrightarrow> c \<notin> set p"
proof (induction xs arbitrary: p)
  case (Cons x xs)
  obtain q qs where q: "split_on c xs = q # qs" by (cases "split_on c xs") auto
  then show ?case using Cons by (auto split: if_splits)
qed simp

lemma split_on_nosep: "c \<notin> set x \<Longrightarrow> split_on c x = [x]"
  by (induction x) auto

lemma split_on_append: "c \<notin> set x \<Longrightarrow> split_on c (x @ c # ys) = x # split_on c ys"
  by (induction x) auto

lemma split_on_join:
  assumes "xs \<noteq> []" "\<And>x. x \<in> set xs \<Longrightarrow> c \<notin> set x"
  shows "split_on c (join [c] xs) = xs"
  using assms
proof (induction "[c]" xs rule: join.induct)
  case (3 x y ys)
  then show ?case using split_on_append [of c x "join [c] (y # ys)"] by simp
qed (simp_all add: split_on_nosep)

text \<open>A list of names as path components: none of them empty, a dot, two dots, or with a slash in it.\<close>

definition canonical :: "string list \<Rightarrow> bool" where
  "canonical cs \<longleftrightarrow> (\<forall>c\<in>set cs. c \<notin> {'''', ''.'', ''..''} \<and> CHR ''/'' \<notin> set c)"

lemma push_part_canonical: "canonical cs \<Longrightarrow> CHR ''/'' \<notin> set p \<Longrightarrow> canonical (push_part cs p)"
  by (auto simp: canonical_def push_part_def dest: in_set_butlastD)

lemma foldl_push_canonical:
  "canonical cs \<Longrightarrow> (\<And>p. p \<in> set ps \<Longrightarrow> CHR ''/'' \<notin> set p) \<Longrightarrow> canonical (foldl push_part cs ps)"
  by (induction ps arbitrary: cs) (simp_all add: push_part_canonical)

lemma foldl_push_id: "canonical ps \<Longrightarrow> foldl push_part cs ps = cs @ ps"
  by (induction ps arbitrary: cs) (auto simp: canonical_def push_part_def)

definition path_components :: "string \<Rightarrow> string list" where
  "path_components path = foldl push_part [] (split_on (CHR ''/'') path)"

lemma path_components_canonical: "canonical (path_components path)"
  unfolding path_components_def by (rule foldl_push_canonical) (simp add: canonical_def, rule split_on_free)

lemma path_components_absolute: "canonical cs \<Longrightarrow> path_components (''/'' @ join ''/'' cs) = cs"
proof (cases "cs = []")
  case True
  then show ?thesis by (simp add: path_components_def push_part_def)
next
  case False
  assume c: "canonical cs"
  then have "split_on (CHR ''/'') (join ''/'' cs) = cs" using False by (intro split_on_join) (auto simp: canonical_def)
  then show ?thesis using foldl_push_id [OF c, of "[]"] by (simp add: path_components_def push_part_def)
qed



section \<open>Mount points: correctness\<close>

definition vfs_wf :: "'f vfs \<Rightarrow> bool" where
  "vfs_wf v \<longleftrightarrow> sorted_wrt (<) (map fst v)"

lemma set_map_insert: "fst ` set (map_insert k f v) = insert k (fst ` set v)"
  by (induction k f v rule: map_insert.induct) auto

lemma vfs_wf_insert: "vfs_wf v \<Longrightarrow> vfs_wf (map_insert k f v)"
proof (induction k f v rule: map_insert.induct)
  case (2 k f k' f' m)
  have s: "fst ` set (map_insert k f m) = insert k (fst ` set m)" by (rule set_map_insert)
  have "x \<in> fst ` set (map_insert k f m) \<Longrightarrow> k' < x" if "k' < k" for x using that 2(2) unfolding s by (auto simp: vfs_wf_def)
  then show ?case using 2 by (auto simp: vfs_wf_def)
qed (simp add: vfs_wf_def)

lemma map_of_insert: "vfs_wf v \<Longrightarrow> map_of (map_insert k f v) = (map_of v)(k \<mapsto> f)"
proof (induction k f v rule: map_insert.induct)
  case (2 k f k' f' m)
  then have "map_of m k = None" if "k < k'" using that by (auto simp: vfs_wf_def map_of_eq_None_iff)
  then show ?case using 2 by (auto simp: vfs_wf_def fun_eq_iff)
qed simp

lemma map_of_filter_key: "map_of (filter (\<lambda>(k, f). k \<noteq> p) v) = (map_of v)(p := None)"
  by (induction v) (auto simp: fun_eq_iff)

lemma map_of_dom: "p \<in> fst ` set v \<longleftrightarrow> map_of v p \<noteq> None"
  by (metis map_of_eq_None_iff)



definition best_for :: "string \<Rightarrow> (string \<times> 'f) set \<Rightarrow> (string \<times> 'f) option \<Rightarrow> bool" where
  "best_for path ms best \<longleftrightarrow>
    (case best of
       None \<Rightarrow> \<forall>(mp, f)\<in>ms. \<not> prefix mp path
     | Some (mp, f) \<Rightarrow> (mp, f) \<in> ms \<and> prefix mp path \<and> (\<forall>(mp', f')\<in>ms. prefix mp' path \<longrightarrow> length mp' \<le> length mp))"

lemma better_best: "best_for path ms best \<Longrightarrow> best_for path (insert m ms) (better path best m)"
  by (cases m) (auto simp: best_for_def better_def split: option.splits)

lemma foldl_better: "best_for path ms best \<Longrightarrow> best_for path (ms \<union> set v) (foldl (better path) best v)"
proof (induction v arbitrary: ms best)
  case (Cons m v)
  from Cons.IH [OF better_best [OF Cons.prems, of m]] show ?case by simp
qed simp

text \<open>
  C37: A path belongs to the mount point that is its longest prefix.  When \<open>path_to_fs\<close> returns a mount point,
  it is mounted, is a prefix of the normalised path and no longer mounted prefix exists; it returns nothing only
  when no mount point is a prefix.
\<close>

theorem path_to_fs_longest:
  "case path_to_fs v path of
     None \<Rightarrow> \<forall>(mp, f)\<in>set v. \<not> prefix mp (normalize_path path)
   | Some (mp, f) \<Rightarrow> (mp, f) \<in> set v \<and> prefix mp (normalize_path path)
       \<and> (\<forall>(mp', f')\<in>set v. prefix mp' (normalize_path path) \<longrightarrow> length mp' \<le> length mp)"
  using foldl_better [of "normalize_path path" "{}" None v] by (simp add: path_to_fs_def best_for_def)

theorem path_to_fs_longest_witness:
  "path_to_fs [(''/'', 1 :: nat), (''/mnt'', 2), (''/proc'', 3)] ''/mnt/../proc/1'' = Some (''/proc'', 3)
   \<and> (''/proc'', 3 :: nat) \<in> set [(''/'', 1), (''/mnt'', 2), (''/proc'', 3)] \<and> prefix ''/proc'' (normalize_path ''/mnt/../proc/1'')"
proof -
  have p: "path_to_fs [(''/'', 1 :: nat), (''/mnt'', 2), (''/proc'', 3)] ''/mnt/../proc/1'' = Some (''/proc'', 3)" by code_simp
  show ?thesis using path_to_fs_longest [of "[(''/'', 1 :: nat), (''/mnt'', 2), (''/proc'', 3)]" "''/mnt/../proc/1''"] unfolding p by simp
qed

section \<open>Seeking: correctness\<close>

lemma sint_parts: "sint w = (if uint w < 2 ^ 63 then uint w else uint w - 2 ^ 64)" for w :: u64
proof -
  have lt: "uint w < 2 ^ 64" using uint_lt2p [of w] by simp
  have "uint w div 2 ^ 63 = (if uint w < 2 ^ 63 then 0 else 1)"
  proof (cases "uint w < 2 ^ 63")
    case False
    then have "uint w div 2 ^ 63 = 1" by (intro int_div_pos_eq [where r = "uint w - 2 ^ 63"]) (use lt in simp_all)
    then show ?thesis using False by simp
  qed (simp add: div_pos_pos_trivial)
  then have b: "bit (uint w) 63 \<longleftrightarrow> \<not> uint w < 2 ^ 63" by (simp add: bit_iff_odd)
  have "sint w = signed_take_bit 63 (uint w)" by (simp add: sint_uint)
  also have "\<dots> = uint w - 2 ^ 64 * of_bool (bit (uint w) 63)"
    using lt by (simp add: signed_take_bit_eq_take_bit_minus take_bit_int_eq_self)
  finally show ?thesis using b by simp
qed

lemma offset_from_exact: "uint (offset_from base off) = max 0 (min (2 ^ 64 - 1) (uint base + sint off))"
proof (cases "sint off < 0")
  case True
  have lt: "uint off < 2 ^ 64" "0 \<le> uint base" "uint base < 2 ^ 64" using uint_lt2p [of off] uint_lt2p [of base] by simp_all
  have s: "sint off = uint off - 2 ^ 64" "2 ^ 63 \<le> uint off" using True uint_ge_0 [of off] by (simp_all add: sint_parts split: if_splits)
  have n: "uint (- off) = 2 ^ 64 - uint off" using s(2) lt(1) by (simp add: uint_word_ariths zmod_zminus1_eq_if)
  then show ?thesis using True s lt by (auto simp: offset_from_def saturating_sub_def word_le_def uint_sub_if' uint_plus_if')
next
  case False
  have s: "sint off = uint off" "uint off < 2 ^ 63" using False uint_lt2p [of off] by (simp_all add: sint_parts split: if_splits)
  have lt: "0 \<le> uint base" "uint base < 2 ^ 64" using uint_lt2p [of base] by simp_all
  have a: "uint (base + off) = (if uint base + uint off < 2 ^ 64 then uint base + uint off else uint base + uint off - 2 ^ 64)"
    by (simp add: uint_plus_if')
  have m: "uint (- 1 :: u64) = 2 ^ 64 - 1" by (simp add: unsigned_minus_1_eq_mask mask_eq_exp_minus_1)
  show ?thesis using False s lt a m uint_ge_0 [of off] by (auto simp: offset_from_def saturating_add_def word_less_def)
qed

text \<open>
  C38: Seeking in an open file never wraps around: the new cursor is the start, the end of the file or the old
  cursor plus the signed offset, cut off at zero and at the largest position, and it is what \<open>seek\<close> returns.
\<close>

theorem seek_clamps:
  "of_cursor (fst (file_seek ops w f from)) = snd (file_seek ops w f from)
   \<and> uint (snd (file_seek ops w f from)) =
      (case from of
         Start pos \<Rightarrow> uint pos
       | End off \<Rightarrow> max 0 (min (2 ^ 64 - 1) (uint (op_size ops (of_inode f) w) + sint off))
       | Current off \<Rightarrow> max 0 (min (2 ^ 64 - 1) (uint (of_cursor f) + sint off)))"
proof -
  have "of_cursor (f\<lparr>of_cursor := x\<rparr>) = x" for x by simp
  then show ?thesis by (cases "from") (simp_all only: file_seek_def Let_def seek_from.case offset_from_exact fst_conv snd_conv simp_thms)
qed

end
