(* ===== verification/FatVfs.thy ===== *)
theory FatVfs
  imports FatDirs Vfs
begin

text \<open>
  The FAT filesystem behind the virtual filesystem: its operations as the driver record of
  \<open>Vfs\<close>, and the lemmas that carry a path through both layers down to the root directory on the disk.
\<close>

definition fat_vfs :: "'d block_ops \<Rightarrow> (nat \<Rightarrow> bool) \<Rightarrow> u64 \<Rightarrow> ('d fat_fs, unit, nat) vfs_ops" where
  "fat_vfs ops live now =
    \<lparr>op_root_dir = (\<lambda>_ fs. Some (apsnd Inr (fat_root_dir now fs))),
     op_lookup = (\<lambda>i nm fs. ino_lookup ops live now i nm fs),
     op_create = (\<lambda>i nm ft permissions fs. ino_create ops live now i nm ft permissions fs),
     op_read = (\<lambda>i offset n fs. ino_read ops i offset n fs),
     op_write = (\<lambda>i offset buf fs. ino_write ops i offset buf fs),
     op_sync = (\<lambda>i fs. ino_sync ops i fs),
     op_perms = (\<lambda>i fs. ino_perms (inodes fs ! i)),
     op_size = (\<lambda>i fs. ino_size (inodes fs ! i)),
     op_accessed = (\<lambda>i t fs. fs\<lparr>inodes := (inodes fs)[i := (inodes fs ! i)\<lparr>access_time := t\<rparr>]\<rparr>),
     op_modified = (\<lambda>i t fs. fs\<lparr>inodes := (inodes fs)[i := (inodes fs ! i)\<lparr>modified_time := t, change_time := t\<rparr>]\<rparr>)\<rparr>"

lemma fat_vfs_simps [simp]:
  "op_root_dir (fat_vfs ops live now) u fs = Some (apsnd Inr (fat_root_dir now fs))"
  "op_lookup (fat_vfs ops live now) i nm fs = ino_lookup ops live now i nm fs"
  "op_create (fat_vfs ops live now) i nm ft permissions fs = ino_create ops live now i nm ft permissions fs"
  "op_perms (fat_vfs ops live now) i fs = ino_perms (inodes fs ! i)"
  by (simp_all add: fat_vfs_def)

lemma fat_root_dir_inode:
  assumes "fixed_root fs"
  shows "\<exists>ino. fat_root_dir now fs = (fs\<lparr>inodes := inodes fs @ [ino]\<rparr>, length (inodes fs)) \<and> ino_data ino = FatDirectory 0 True"
  using assms by (auto simp: fat_root_dir_def fixed_root_def add_inode_def Let_def)

text \<open>A file directly below the mount point \<open>/\<close>.\<close>

lemma top_level_parts:
  assumes "canonical [nm]"
  shows "normalize_path (''/'' @ nm) = ''/'' @ nm" "relative_parts ''/'' (''/'' @ nm) = [nm]"
proof -
  have "path_components (''/'' @ join ''/'' [nm]) = [nm]" by (rule path_components_absolute [OF assms])
  then show "normalize_path (''/'' @ nm) = ''/'' @ nm" by (simp add: normalize_path_def path_components_def)
  have c: "nm \<noteq> []" "CHR ''/'' \<notin> set nm" using assms by (auto simp: canonical_def)
  then have "dropWhile (\<lambda>x. x = CHR ''/'') nm = nm" by (cases nm) auto
  then show "relative_parts ''/'' (''/'' @ nm) = [nm]" using c by (simp add: relative_parts_def split_on_nosep)
qed

lemma open_top_level:
  assumes "canonical [nm]" "path_to_fs v (''/'' @ nm) = Some (''/'', u)"
  shows "open_file ops v (''/'' @ nm) w =
      lbind (op_root_dir ops u w) (\<lambda>w dir. lbind (op_lookup ops dir nm w) (\<lambda>w file.
        if contains (op_perms ops file w) OWNER_READ then Some (w, Inr file) else Some (w, Inl (Fail PermissionDenied))))"
    and "create_file ops v (''/'' @ nm) permissions w = lbind (op_root_dir ops u w) (\<lambda>w dir. op_create ops dir nm File permissions w)"
  using assms(2) top_level_parts [OF assms(1)] by (simp_all add: open_file_def create_file_def)

end
