(* ===== verification/Clock.thy ===== *)
theory Clock
  imports Runs
begin

text \<open>
  Dates and times, \<open>zenos-kernel/src/time.rs\<close>: reading the real-time clock, the clock the kernel keeps
  with its tick counter, and the number of seconds since 1970.  The CMOS registers are the hardware's:
  reading one is a function of the hardware state.
\<close>

section \<open>Data\<close>

record date_time =
  ct_second :: u8
  ct_minute :: u8
  ct_hour :: u8
  ct_day :: u8
  ct_month :: u8
  ct_year :: u16

text \<open>The statics that hold the time of boot, and the tick counter.\<close>

record clock =
  boot_time_secs :: u64
  boot_day :: u64
  boot_month :: u64
  boot_year :: u64
  boot_time_initialized :: bool
  tick_count :: u64

definition CURRENT_YEAR :: u16 where "CURRENT_YEAR = 2026"
definition CENTURY_REGISTER :: u8 where "CENTURY_REGISTER = 0"

definition tick :: "clock \<Rightarrow> clock" where
  "tick c = c\<lparr>tick_count := tick_count c + 1\<rparr>"

definition bcd_to_bin :: "u8 \<Rightarrow> u8" where
  "bcd_to_bin v = (v AND 0x0F) + (drop_bit 4 v) * 10"

definition to_seconds_since_midnight :: "date_time \<Rightarrow> u64" where
  "to_seconds_since_midnight t = ucast (ct_hour t) * 3600 + ucast (ct_minute t) * 60 + ucast (ct_second t)"

definition saturating_add_u8 :: "u8 \<Rightarrow> u8 \<Rightarrow> u8" where
  "saturating_add_u8 a b = (if a + b < a then 255 else a + b)"

definition from_seconds_with_date :: "u64 \<Rightarrow> u8 \<Rightarrow> u8 \<Rightarrow> u16 \<Rightarrow> date_time" where
  "from_seconds_with_date secs day month year =
    (let days_elapsed = secs div 86400;
         secs = secs mod 86400;
         hour = ucast (secs div 3600);
         secs = secs mod 3600;
         minute = ucast (secs div 60);
         second = ucast (secs mod 60)
     in \<lparr>ct_second = second, ct_minute = minute, ct_hour = hour,
         ct_day = min (saturating_add_u8 day (ucast days_elapsed)) 31, ct_month = month, ct_year = year\<rparr>)"

section \<open>Reading the clock\<close>

text \<open>
  \<open>rd\<close> reads a CMOS register and gives the next state of the hardware.  The loop that waits for the end
  of an update, and the loop that reads until two readings agree, end only if the hardware lets them.
\<close>

partial_function (option) wait_update :: "(u8 \<Rightarrow> 'h \<Rightarrow> u8 \<times> 'h) \<Rightarrow> 'h \<Rightarrow> 'h option" where
  "wait_update rd h = (let (v, h) = rd 0x0A h in if v AND 0x80 \<noteq> 0 then wait_update rd h else Some h)"

fun read_regs :: "(u8 \<Rightarrow> 'h \<Rightarrow> u8 \<times> 'h) \<Rightarrow> u8 list \<Rightarrow> 'h \<Rightarrow> u8 list \<times> 'h" where
  "read_regs rd [] h = ([], h)"
| "read_regs rd (r # rs) h = (let (v, h) = rd r h; (vs, h) = read_regs rd rs h in (v # vs, h))"

definition clock_regs :: "u8 list" where
  "clock_regs = [0x00, 0x02, 0x04, 0x07, 0x08, 0x09]"

partial_function (option) read_stable :: "(u8 \<Rightarrow> 'h \<Rightarrow> u8 \<times> 'h) \<Rightarrow> u8 list \<Rightarrow> 'h \<Rightarrow> (u8 list \<times> 'h) option" where
  "read_stable rd last_read h =
    Option.bind (wait_update rd h) (\<lambda>h.
      let (now, h) = read_regs rd clock_regs h
      in if now = last_read then Some (now, h) else read_stable rd now h)"

definition full_year :: "u8 \<Rightarrow> u16" where
  "full_year yr =
    (let full = (CURRENT_YEAR div 100) * 100 + ucast yr in if full < CURRENT_YEAR then full + 100 else full)"

text \<open>The values of the registers as a date; the century register is not used (\<open>CENTURY_REGISTER\<close> is 0).\<close>

definition decode_regs :: "u8 \<Rightarrow> u8 list \<Rightarrow> date_time" where
  "decode_regs register_b regs =
    (let bcd = (register_b AND 0x04 = 0);
         conv = (\<lambda>v. if bcd then bcd_to_bin v else v);
         raw_hr = regs ! 2;
         hr = (if bcd then bcd_to_bin (raw_hr AND 0x7F) else raw_hr);
         hr = (if register_b AND 0x02 = 0 \<and> raw_hr AND 0x80 \<noteq> 0 then (hr + 12) mod 24 else hr)
     in \<lparr>ct_second = conv (regs ! 0), ct_minute = conv (regs ! 1), ct_hour = hr, ct_day = conv (regs ! 3),
         ct_month = conv (regs ! 4), ct_year = full_year (conv (regs ! 5))\<rparr>)"

definition read_rtc :: "(u8 \<Rightarrow> 'h \<Rightarrow> u8 \<times> 'h) \<Rightarrow> 'h \<Rightarrow> (date_time \<times> 'h) option" where
  "read_rtc rd h =
    Option.bind (read_stable rd [0, 0, 0, 0, 0, 0] h) (\<lambda>(regs, h).
      let (register_b, h) = rd 0x0B h in Some (decode_regs register_b regs, h))"

definition current_time :: "(u8 \<Rightarrow> 'h \<Rightarrow> u8 \<times> 'h) \<Rightarrow> 'h \<Rightarrow> clock \<Rightarrow> (date_time \<times> 'h \<times> clock) option" where
  "current_time rd h c =
    (if \<not> boot_time_initialized c then
       Option.bind (read_rtc rd h) (\<lambda>(rtc, h).
         Some (rtc, h, c\<lparr>boot_time_secs := to_seconds_since_midnight rtc, boot_day := ucast (ct_day rtc),
                boot_month := ucast (ct_month rtc), boot_year := ucast (ct_year rtc), boot_time_initialized := True\<rparr>))
     else
       Some (from_seconds_with_date (boot_time_secs c + tick_count c div 100) (ucast (boot_day c)) (ucast (boot_month c))
               (ucast (boot_year c)), h, c))"

section \<open>Seconds since 1970\<close>

definition DAYS_IN_MONTH :: "nat list" where
  "DAYS_IN_MONTH = [31, 28, 31, 30, 31, 30, 31, 31, 30, 31, 30, 31]"

definition is_leap :: "nat \<Rightarrow> bool" where
  "is_leap year \<longleftrightarrow> (year mod 4 = 0 \<and> year mod 100 \<noteq> 0) \<or> year mod 400 = 0"

definition years_days :: "nat \<Rightarrow> u64" where
  "years_days year = fold (\<lambda>y days. days + (if is_leap y then 366 else 365)) [1970..<year] 0"

text \<open>The loop over the months; an index past the end of the table panics.\<close>

function months_days :: "nat \<Rightarrow> nat \<Rightarrow> nat \<Rightarrow> u64 \<Rightarrow> (unit fault, u64) result" where
  "months_days year m n days =
    (if m < n then
       (if m < 12 then months_days year (Suc m) n (days + of_nat (DAYS_IN_MONTH ! m) + (if m = 1 \<and> is_leap year then 1 else 0))
        else Inl Panic)
     else Inr days)"
  by pat_completeness auto
termination by (relation "measure (\<lambda>(y, m, n, d). 12 - m)") auto

declare months_days.simps [simp del]

definition as_unix_epoch :: "date_time \<Rightarrow> (unit fault, u64) result" where
  "as_unix_epoch t =
    (let year = unat (ct_year t)
     in rbind (months_days year 0 (unat (ucast (ct_month t) - 1 :: u64)) (years_days year)) (\<lambda>days.
          let days = days + (ucast (ct_day t) - 1)
          in Inr (days * 86400 + ucast (ct_hour t) * 3600 + ucast (ct_minute t) * 60 + ucast (ct_second t))))"

section \<open>The date formula\<close>

text \<open>
  The number of days from 1970-01-01 to a date of the Gregorian calendar in closed form, with years
  that start in March so that the leap day is the last of its year.
\<close>

definition days_from_civil :: "nat \<Rightarrow> nat \<Rightarrow> nat \<Rightarrow> nat" where
  "days_from_civil y m d =
    (let y' = (if m \<le> 2 then y - 1 else y);
         m' = (if m \<le> 2 then m + 9 else m - 3)
     in 365 * y' + y' div 4 + y' div 400 + (153 * m' + 2) div 5 + d - 1 - y' div 100 - 719468)"

definition leaps :: "nat \<Rightarrow> nat" where
  "leaps y = y div 4 + y div 400 - y div 100"

lemma leaps_le: "y div 100 \<le> y div 4 + y div 400" for y :: nat
  by (simp add: div_le_mono2 trans_le_add1)

lemma leaps_Suc: "leaps (Suc y) = leaps y + (if is_leap (Suc y) then 1 else 0)"
proof -
  have "Suc y div n = y div n + (if Suc y mod n = 0 then 1 else 0)" for n :: nat by (simp add: div_Suc)
  moreover have "Suc y mod 400 = 0 \<Longrightarrow> Suc y mod 100 = 0" "Suc y mod 100 = 0 \<Longrightarrow> Suc y mod 4 = 0" by presburger+
  ultimately show ?thesis using leaps_le [of y] by (auto simp: leaps_def is_leap_def)
qed

lemma leaps_ge: "477 \<le> leaps (1969 + n)"
proof (induction n)
  case 0
  show ?case by (simp add: leaps_def)
next
  case (Suc n)
  then show ?case using leaps_Suc [of "1969 + n"] by simp
qed

lemma years_days_eq:
  "n \<le> 65536 \<Longrightarrow> unat (years_days (1970 + n)) + 477 = 365 * n + leaps (1969 + n)
     \<and> 477 \<le> leaps (1969 + n) \<and> unat (years_days (1970 + n)) \<le> 366 * n"
proof (induction n)
  case 0
  have "leaps 1969 = 477" by (simp add: leaps_def)
  then show ?case by (simp add: years_days_def)
next
  case (Suc n)
  have y: "years_days (1970 + Suc n) = years_days (1970 + n) + (if is_leap (1970 + n) then 366 else 365)"
    unfolding years_days_def add_Suc_right by (subst upt_Suc) simp
  have l: "leaps (1969 + Suc n) = leaps (1969 + n) + (if is_leap (1970 + n) then 1 else 0)" using leaps_Suc [of "1969 + n"] by simp
  have ih: "unat (years_days (1970 + n)) + 477 = 365 * n + leaps (1969 + n)" "477 \<le> leaps (1969 + n)"
      "unat (years_days (1970 + n)) \<le> 366 * n"
    using Suc by auto
  have "unat (years_days (1970 + Suc n)) = unat (years_days (1970 + n)) + (if is_leap (1970 + n) then 366 else 365)"
    unfolding y using ih(3) Suc.prems by (subst unat_add64) auto
  then show ?case using ih l by auto
qed

text \<open>The days of the months before month \<open>n + 1\<close>, in a leap year or not.\<close>

definition month_start :: "nat \<Rightarrow> nat" where
  "month_start n = sum_list (take n DAYS_IN_MONTH)"

lemma months_days_eq:
  assumes "n \<le> 12" "m \<le> n"
  shows "months_days year m n (of_nat (month_start m + (if 2 \<le> m \<and> is_leap year then 1 else 0) + b)) =
    Inr (of_nat (month_start n + (if 2 \<le> n \<and> is_leap year then 1 else 0) + b))"
  using assms(2)
proof (induction m rule: inc_induct)
  case base
  then show ?case by (simp add: months_days.simps)
next
  case (step m)
  have m: "m < 12" "m < length DAYS_IN_MONTH" using step.hyps assms(1) by (simp_all add: DAYS_IN_MONTH_def)
  have "month_start (Suc m) = month_start m + DAYS_IN_MONTH ! m" using m(2) by (simp add: month_start_def take_Suc_conv_app_nth)
  moreover have "months_days year m n (of_nat (month_start m + (if 2 \<le> m \<and> is_leap year then 1 else 0) + b)) =
      months_days year (Suc m) n (of_nat (month_start m + (if 2 \<le> m \<and> is_leap year then 1 else 0) + b)
        + of_nat (DAYS_IN_MONTH ! m) + (if m = 1 \<and> is_leap year then 1 else 0))"
    using step.hyps m(1) by (simp add: months_days.simps [of year m])
  ultimately show ?case using step.IH by (auto simp: algebra_simps split: if_splits)
qed

lemma month_start_civil:
  assumes "1 \<le> m" "m \<le> 12"
  shows "month_start (m - 1) = (if m \<le> 2 then (153 * (m + 9) + 2) div 5 - 306 else (153 * (m - 3) + 2) div 5 + 59)"
    "m \<le> 2 \<Longrightarrow> 306 \<le> (153 * (m + 9) + 2) div 5"
proof -
  have "m = 1 \<or> m = 2 \<or> m = 3 \<or> m = 4 \<or> m = 5 \<or> m = 6 \<or> m = 7 \<or> m = 8 \<or> m = 9 \<or> m = 10 \<or> m = 11 \<or> m = 12"
    using assms by presburger
  then show "month_start (m - 1) = (if m \<le> 2 then (153 * (m + 9) + 2) div 5 - 306 else (153 * (m - 3) + 2) div 5 + 59)"
    by (elim disjE) (simp_all add: month_start_def DAYS_IN_MONTH_def)
  show "m \<le> 2 \<Longrightarrow> 306 \<le> (153 * (m + 9) + 2) div 5" using assms(1) by auto
qed

lemma unat_u8_u64: "unat (ucast (x :: u8) :: u64) = unat x"
  using unsigned_less [of x, where ?'a = nat] by (simp add: unsigned_ucast_eq take_bit_nat_eq_self)

lemma civil_arith:
  fixes a b c d n q :: nat
  shows "c \<le> a + b \<Longrightarrow> 477 \<le> a + b - c \<Longrightarrow> 306 \<le> q \<Longrightarrow> 1 \<le> d \<Longrightarrow>
      365 * (1969 + n) + a + b + q + d - 1 - c - 719468 + 477 = 365 * n + (a + b - c) + (q - 306) + (d - 1)"
    and "c \<le> a + b \<Longrightarrow> 477 \<le> a + b - c \<Longrightarrow> 1 \<le> d \<Longrightarrow>
      365 * (1970 + n) + a + b + q + d - 1 - c - 719468 + 477 = 365 * n + (a + b - c) + (q + 59) + (d - 1)"
  unfolding add_mult_distrib2 by linarith+

lemma civil_days:
  assumes "1 \<le> m" "m \<le> 12" "1 \<le> d"
  shows "days_from_civil (1970 + n) m d + 477 =
    365 * n + leaps (1969 + n) + month_start (m - 1) + (if 3 \<le> m \<and> is_leap (1970 + n) then 1 else 0) + (d - 1)"
proof (cases "m \<le> 2")
  case True
  let ?q = "(153 * (m + 9) + 2) div 5"
  have e: "days_from_civil (1970 + n) m d =
      365 * (1969 + n) + (1969 + n) div 4 + (1969 + n) div 400 + ?q + d - 1 - (1969 + n) div 100 - 719468"
    using True by (simp add: days_from_civil_def Let_def)
  have s: "month_start (m - 1) = ?q - 306" using month_start_civil(1) [OF assms(1,2)] True by (simp only: if_True)
  have "365 * (1969 + n) + (1969 + n) div 4 + (1969 + n) div 400 + ?q + d - 1 - (1969 + n) div 100 - 719468 + 477 =
      365 * n + leaps (1969 + n) + (?q - 306) + (d - 1)"
    unfolding leaps_def
    using leaps_le leaps_ge [of n, unfolded leaps_def] month_start_civil(2) [OF assms(1,2) True] assms(3) by (rule civil_arith)
  moreover have "\<not> 3 \<le> m" using True by simp
  ultimately show ?thesis unfolding e s by simp
next
  case False
  let ?q = "(153 * (m - 3) + 2) div 5"
  have e: "days_from_civil (1970 + n) m d =
      365 * (1970 + n) + (1970 + n) div 4 + (1970 + n) div 400 + ?q + d - 1 - (1970 + n) div 100 - 719468"
    using False by (simp add: days_from_civil_def Let_def)
  have s: "month_start (m - 1) = ?q + 59" using month_start_civil(1) [OF assms(1,2)] False by (simp only: if_False)
  have l: "leaps (1970 + n) = leaps (1969 + n) + (if is_leap (1970 + n) then 1 else 0)" using leaps_Suc [of "1969 + n"] by simp
  have g: "477 \<le> leaps (1970 + n)" using leaps_ge [of "Suc n"] by simp
  have "365 * (1970 + n) + (1970 + n) div 4 + (1970 + n) div 400 + ?q + d - 1 - (1970 + n) div 100 - 719468 + 477 =
      365 * n + leaps (1970 + n) + (?q + 59) + (d - 1)"
    unfolding leaps_def using leaps_le g [unfolded leaps_def] assms(3) by (rule civil_arith)
  also have "\<dots> = 365 * n + leaps (1969 + n) + month_start (m - 1) + (if 3 \<le> m \<and> is_leap (1970 + n) then 1 else 0) + (d - 1)"
    unfolding s l using False by simp
  finally show ?thesis unfolding e .
qed

text \<open>
  C33: seconds since 1970. For every date from 1970 on with a month from 1 to 12 and a day from 1 to 31,
  \<open>as_unix_epoch\<close> does not panic, and the number it computes by looping over years and months is the
  one of the closed formula for the Gregorian calendar, with no overflow.
\<close>

theorem unix_epoch_civil:
  assumes "1970 \<le> ct_year t" "1 \<le> ct_month t" "ct_month t \<le> 12" "1 \<le> ct_day t" "ct_day t \<le> 31"
  shows "\<exists>s. as_unix_epoch t = Inr s \<and> unat s =
    days_from_civil (unat (ct_year t)) (unat (ct_month t)) (unat (ct_day t)) * 86400
      + unat (ct_hour t) * 3600 + unat (ct_minute t) * 60 + unat (ct_second t)"
proof -
  have "1970 \<le> unat (ct_year t)" using assms(1) by (simp add: word_le_nat_alt)
  then obtain n where n: "unat (ct_year t) = 1970 + n" using le_Suc_ex by blast
  let ?m = "unat (ct_month t)" and ?d = "unat (ct_day t)"
  have md: "1 \<le> ?m" "?m \<le> 12" "1 \<le> ?d" "?d \<le> 31" using assms(2-5) by (simp_all add: word_le_nat_alt)
  have n16: "n \<le> 65536" using n unsigned_less [of "ct_year t", where ?'a = nat] by simp
  note yd = years_days_eq [OF n16]
  let ?l = "if 2 \<le> ?m - 1 \<and> is_leap (1970 + n) then 1 else 0 :: nat"
  define days where "days = month_start (?m - 1) + ?l + unat (years_days (1970 + n))"
  have m1: "unat (ucast (ct_month t) - 1 :: u64) = ?m - 1"
    using md(1) by (subst unat_sub) (simp_all add: word_le_nat_alt unat_u8_u64)
  have "months_days (1970 + n) 0 (?m - 1) (years_days (1970 + n)) = Inr (of_nat days)"
    using months_days_eq [of "?m - 1" 0 "1970 + n" "unat (years_days (1970 + n))"] md(2) by (simp add: days_def month_start_def)
  then have r: "as_unix_epoch t = Inr ((of_nat days + (ucast (ct_day t) - 1)) * 86400
      + ucast (ct_hour t) * 3600 + ucast (ct_minute t) * 60 + ucast (ct_second t))"
    unfolding as_unix_epoch_def Let_def n m1 by simp
  let ?s = "(days + (?d - 1)) * 86400 + unat (ct_hour t) * 3600 + unat (ct_minute t) * 60 + unat (ct_second t)"
  have "(of_nat (?d - 1) :: u64) = ucast (ct_day t) - 1" using md(3) by (simp add: of_nat_diff)
  then have w: "((of_nat days + (ucast (ct_day t) - 1)) * 86400
      + ucast (ct_hour t) * 3600 + ucast (ct_minute t) * 60 + ucast (ct_second t) :: u64) = of_nat ?s" by simp
  have ms: "month_start (?m - 1) \<le> 365"
  proof -
    have "month_start (?m - 1) \<le> sum_list DAYS_IN_MONTH"
      unfolding month_start_def by (metis append_take_drop_id le_add1 sum_list_append)
    then show ?thesis by (simp add: DAYS_IN_MONTH_def)
  qed
  have "days \<le> 366 + 366 * 65536" using ms yd n16 unfolding days_def by auto
  moreover have "unat (ct_hour t) < 256" "unat (ct_minute t) < 256" "unat (ct_second t) < 256"
    using unsigned_less [of "ct_hour t", where ?'a = nat] unsigned_less [of "ct_minute t", where ?'a = nat]
      unsigned_less [of "ct_second t", where ?'a = nat] by simp_all
  ultimately have "?s < 2 ^ 64" using md(4) by simp
  moreover have "days + (?d - 1) = days_from_civil (1970 + n) ?m ?d"
  proof -
    have "2 \<le> ?m - 1 \<longleftrightarrow> 3 \<le> ?m" by linarith
    then show ?thesis using civil_days [OF md(1-3), of n] yd unfolding days_def by (simp only:) linarith
  qed
  ultimately have "unat (of_nat ?s :: u64) = days_from_civil (1970 + n) ?m ?d * 86400
      + unat (ct_hour t) * 3600 + unat (ct_minute t) * 60 + unat (ct_second t)"
    by (simp only: unat_of_nat64)
  then show ?thesis unfolding r w n by blast
qed

theorem unix_epoch_civil_witness:
  "\<exists>s. as_unix_epoch \<lparr>ct_second = 7, ct_minute = 5, ct_hour = 1, ct_day = 29, ct_month = 2, ct_year = 2028\<rparr> = Inr s
    \<and> unat s = 1835399107 \<and> days_from_civil 2028 2 29 = 21243"
proof -
  let ?t = "\<lparr>ct_second = 7, ct_minute = 5, ct_hour = 1, ct_day = 29, ct_month = 2, ct_year = 2028\<rparr>"
  have "1970 \<le> ct_year ?t" "1 \<le> ct_month ?t" "ct_month ?t \<le> 12" "1 \<le> ct_day ?t" "ct_day ?t \<le> 31" by simp_all
  from unix_epoch_civil [OF this] show ?thesis by (simp add: days_from_civil_def)
qed

section \<open>The kept time\<close>

text \<open>Splitting a number of seconds into a time of day loses only whole days.\<close>

lemma unat_u64_u8: "unat (x :: u64) < 256 \<Longrightarrow> unat (ucast x :: u8) = unat x"
  by (simp add: unsigned_ucast_eq take_bit_nat_eq_self)

lemma unat_seconds:
  "unat (to_seconds_since_midnight t) = unat (ct_hour t) * 3600 + unat (ct_minute t) * 60 + unat (ct_second t)"
proof -
  have "to_seconds_since_midnight t = of_nat (unat (ct_hour t) * 3600 + unat (ct_minute t) * 60 + unat (ct_second t))"
    by (simp add: to_seconds_since_midnight_def)
  moreover have "unat (ct_hour t) * 3600 + unat (ct_minute t) * 60 + unat (ct_second t) < 2 ^ 64"
    using unsigned_less [of "ct_hour t", where ?'a = nat] unsigned_less [of "ct_minute t", where ?'a = nat]
      unsigned_less [of "ct_second t", where ?'a = nat] by simp
  ultimately show ?thesis by (simp only: unat_of_nat64)
qed

lemma seconds_roundtrip: "unat (to_seconds_since_midnight (from_seconds_with_date s d m y)) = unat s mod 86400"
proof -
  let ?r = "unat s mod 86400"
  have b: "?r div 3600 < 256" "?r mod 3600 div 60 < 256" "?r mod 3600 mod 60 < 256"
    by (simp_all add: div_less_iff_less_mult less_mult_imp_div_less order_less_trans [OF mod_less_divisor])
  have h: "unat (ucast (s mod 86400 div 3600) :: u8) = ?r div 3600"
      "unat (ucast (s mod 86400 mod 3600 div 60) :: u8) = ?r mod 3600 div 60"
      "unat (ucast (s mod 86400 mod 3600 mod 60) :: u8) = ?r mod 3600 mod 60"
    using b by (subst unat_u64_u8; simp add: unat_div unat_mod)+
  have "?r div 3600 * 3600 + ?r mod 3600 div 60 * 60 + ?r mod 3600 mod 60 = ?r"
    using div_mult_mod_eq [of ?r 3600] div_mult_mod_eq [of "?r mod 3600" 60] by linarith
  then show ?thesis unfolding unat_seconds by (simp only: from_seconds_with_date_def Let_def date_time.simps h)
qed

text \<open>Binary coded decimals are read as the number they encode.\<close>

lemma bcd_to_bin_digits:
  assumes "a \<le> 9" "b \<le> 9"
  shows "unat (bcd_to_bin (of_nat (16 * a + b))) = 10 * a + b"
proof -
  have "a = 0 \<or> a = 1 \<or> a = 2 \<or> a = 3 \<or> a = 4 \<or> a = 5 \<or> a = 6 \<or> a = 7 \<or> a = 8 \<or> a = 9"
      "b = 0 \<or> b = 1 \<or> b = 2 \<or> b = 3 \<or> b = 4 \<or> b = 5 \<or> b = 6 \<or> b = 7 \<or> b = 8 \<or> b = 9"
    using assms by presburger+
  then show ?thesis by (elim disjE) (simp_all add: bcd_to_bin_def)
qed

text \<open>
  The day of the month is capped at 31 and the month never advances: a clock started on the 31st of
  January shows the same date ever after, although a day has 8640000 ticks.
\<close>

lemma date_never_advances:
  "ct_day (from_seconds_with_date s 31 m y) = 31 \<and> ct_month (from_seconds_with_date s 31 m y) = m"
proof -
  have "31 \<le> saturating_add_u8 31 x" for x by (auto simp: saturating_add_u8_def not_less)
  then have "min (saturating_add_u8 31 x) 31 = 31" for x by (rule min_absorb2)
  then show ?thesis by (simp add: from_seconds_with_date_def Let_def)
qed

text \<open>In 12-hour mode the hour 12 is not folded to 0: noon reads as midnight, and half past midnight as half past noon.\<close>

lemma twelve_hour_clock_wrong:
  "ct_hour (decode_regs 0 [0, 0, 0x92, 1, 1, 0x26]) = 0" "ct_hour (decode_regs 0 [0, 0, 0x12, 1, 1, 0x26]) = 12"
  by (simp_all add: decode_regs_def bcd_to_bin_def Let_def)

text \<open>A month of 0, which an RTC with a flat battery may hold, makes the conversion panic.\<close>

lemma unix_epoch_month_0: "ct_month t = 0 \<Longrightarrow> as_unix_epoch t = Inl Panic"
proof -
  assume m: "ct_month t = 0"
  have p: "months_days y k (2 ^ 64 - 1) d = Inl Panic" if "k \<le> 12" for y k d
    using that by (induction y k "2 ^ 64 - 1 :: nat" d rule: months_days.induct) (simp add: months_days.simps)
  have "unat (ucast (0 :: u8) - 1 :: u64) = 2 ^ 64 - 1" by (simp add: unsigned_minus_1_eq_mask mask_eq_exp_minus_1)
  then show ?thesis unfolding as_unix_epoch_def Let_def m by (simp only: p rbind_simps le0)
qed

end
