(* ===== verification/UserMem.thy ===== *)
theory UserMem
  imports VfsCore
begin

text \<open>
  The boundary between the kernel and user memory, \<open>zenos-kernel/src/syscall/mod.rs\<close>, and the error
  numbers of \<open>zenos-kernel/src/syscall/errors.rs\<close>.  The bytes of the active address space are a function
  of the address; which pages are mapped is what \<open>virt_to_phys\<close> of the page tables says.  A copy into
  user memory changes nothing above the user half of the address space and nothing unmapped.
\<close>

section \<open>Error numbers\<close>

text \<open>The constants are of type \<open>i64\<close>; a system call returns their negation as \<open>u64\<close>.\<close>

definition EPERM :: u64 where "EPERM = 1"
definition ENOENT :: u64 where "ENOENT = 2"
definition ESRCH :: u64 where "ESRCH = 3"
definition EIO :: u64 where "EIO = 5"
definition ENOEXEC :: u64 where "ENOEXEC = 8"
definition EBADF :: u64 where "EBADF = 9"
definition ECHILD :: u64 where "ECHILD = 10"
definition EAGAIN :: u64 where "EAGAIN = 11"
definition ENOMEM :: u64 where "ENOMEM = 12"
definition EACCES :: u64 where "EACCES = 13"
definition EFAULT :: u64 where "EFAULT = 14"
definition EEXIST :: u64 where "EEXIST = 17"
definition ENOTDIR :: u64 where "ENOTDIR = 20"
definition EISDIR :: u64 where "EISDIR = 21"
definition EINVAL :: u64 where "EINVAL = 22"
definition EMFILE :: u64 where "EMFILE = 24"
definition ESPIPE :: u64 where "ESPIPE = 29"
definition EROFS :: u64 where "EROFS = 30"
definition ENAMETOOLONG :: u64 where "ENAMETOOLONG = 36"
definition ENOSYS :: u64 where "ENOSYS = 38"

definition file_error_to_errno :: "file_error \<Rightarrow> u64" where
  "file_error_to_errno err = - (case err of
       UnsupportedOperation \<Rightarrow> ENOSYS
     | ReadError \<Rightarrow> EIO
     | WriteError \<Rightarrow> EIO
     | SeekError \<Rightarrow> ESPIPE
     | InvalidFileDescriptor \<Rightarrow> EBADF
     | NotFound \<Rightarrow> ENOENT
     | AlreadyExists \<Rightarrow> EEXIST
     | NotADirectory \<Rightarrow> ENOTDIR
     | IsADirectory \<Rightarrow> EISDIR
     | PermissionDenied \<Rightarrow> EACCES
     | ReadOnlyFilesystem \<Rightarrow> EROFS
     | Other _ \<Rightarrow> EIO)"

lemmas errno_defs =
  EPERM_def ENOENT_def ESRCH_def EIO_def ENOEXEC_def EBADF_def ECHILD_def EAGAIN_def ENOMEM_def EACCES_def
  EFAULT_def EEXIST_def ENOTDIR_def EISDIR_def EINVAL_def EMFILE_def ESPIPE_def EROFS_def ENAMETOOLONG_def
  ENOSYS_def

section \<open>Strings\<close>

text \<open>The test of \<open>core::str::from_utf8\<close>: well-formed UTF-8, with no overlong form and no surrogate.\<close>

definition utf8_cont :: "u8 \<Rightarrow> bool" where
  "utf8_cont c \<longleftrightarrow> 0x80 \<le> c \<and> c \<le> 0xBF"

fun utf8_valid :: "bytes \<Rightarrow> bool" where
  "utf8_valid [] \<longleftrightarrow> True"
| "utf8_valid (b # bs) \<longleftrightarrow>
    (if b < 0x80 then utf8_valid bs
     else if 0xC2 \<le> b \<and> b \<le> 0xDF then (case bs of c # bs' \<Rightarrow> utf8_cont c \<and> utf8_valid bs' | [] \<Rightarrow> False)
     else if 0xE0 \<le> b \<and> b \<le> 0xEF then
       (case bs of
          c # d # bs' \<Rightarrow> utf8_cont c \<and> (b = 0xE0 \<longrightarrow> 0xA0 \<le> c) \<and> (b = 0xED \<longrightarrow> c \<le> 0x9F)
            \<and> utf8_cont d \<and> utf8_valid bs'
        | _ \<Rightarrow> False)
     else if 0xF0 \<le> b \<and> b \<le> 0xF4 then
       (case bs of
          c # d # e # bs' \<Rightarrow> utf8_cont c \<and> (b = 0xF0 \<longrightarrow> 0x90 \<le> c) \<and> (b = 0xF4 \<longrightarrow> c \<le> 0x8F)
            \<and> utf8_cont d \<and> utf8_cont e \<and> utf8_valid bs'
        | _ \<Rightarrow> False)
     else False)"

text \<open>A string of the source is its UTF-8 bytes, one character for each.\<close>

definition bytes_str :: "bytes \<Rightarrow> string" where "bytes_str bs = map byte_char bs"

definition str_bytes :: "string \<Rightarrow> bytes" where "str_bytes s = map char_byte s"

lemma bytes_str_bytes [simp]: "bytes_str (str_bytes s) = s"
  by (simp add: bytes_str_def str_bytes_def comp_def)

lemma utf8_valid_ascii: "\<forall>b \<in> set bs. b < 0x80 \<Longrightarrow> utf8_valid bs"
  by (induction bs) simp_all

section \<open>User memory\<close>

lemma unat_add_checked: "\<not> a + b < a \<Longrightarrow> unat (a + b) = unat a + unat (b :: u64)"
  by (simp add: not_less no_olen_add_nat unat_add_lem [THEN iffD1])

type_synonym memory = "nat \<Rightarrow> u8"

text \<open>\<open>VirtAddr::try_new\<close> accepts the addresses whose bits 47 to 63 are all equal.\<close>

definition canonical_addr :: "u64 \<Rightarrow> bool" where
  "canonical_addr a \<longleftrightarrow> drop_bit 47 a = 0 \<or> drop_bit 47 a = 0x1FFFF"

definition page_floor :: "u64 \<Rightarrow> u64" where
  "page_floor a = a AND NOT 0xFFF"

function pages_mapped :: "(u64 \<Rightarrow> u64 option) \<Rightarrow> u64 \<Rightarrow> u64 \<Rightarrow> bool" where
  "pages_mapped tr addr e =
    (if addr < e then
       (if \<not> canonical_addr addr then False
        else if tr addr = None then False
        else if addr + 0x1000 < addr then False
        else pages_mapped tr (addr + 0x1000) e)
     else True)"
  by pat_completeness auto
termination
proof (relation "measure (\<lambda>(tr, a, e). unat e - unat a)", simp, goal_cases)
  case (1 tr addr e)
  then have "unat (addr + 0x1000) = unat addr + 0x1000" using unat_add_checked [of addr "0x1000"] by simp
  then show ?case using 1 by (auto simp: word_less_nat_alt)
qed

declare pages_mapped.simps [simp del]

definition user_range_is_mapped :: "'pt mapper \<Rightarrow> 'pt kmem \<Rightarrow> u64 \<Rightarrow> u64 \<Rightarrow> bool" where
  "user_range_is_mapped m k user_ptr len =
    (if user_ptr = 0 \<or> len = 0 then False
     else if user_ptr \<ge> HIGHER_HALF_BASE then False
     else if user_ptr + len < user_ptr then False
     else pages_mapped (virt_to_phys m k) (page_floor user_ptr) (user_ptr + len))"

text \<open>
  \<open>copy_from_user\<close> of \<open>count\<close> elements of \<open>sz\<close> bytes gives their bytes; \<open>copy_to_user\<close> takes the bytes of
  the slice it copies.
\<close>

definition copy_from_user ::
  "'pt mapper \<Rightarrow> 'pt kmem \<Rightarrow> memory \<Rightarrow> u64 \<Rightarrow> nat \<Rightarrow> u64 \<Rightarrow> (unit, bytes) result" where
  "copy_from_user m k mem user_ptr sz count =
    (if count = 0 then Inr []
     else if 2 ^ 64 \<le> unat count * sz then Inl ()
     else if \<not> user_range_is_mapped m k user_ptr (count * of_nat sz) then Inl ()
     else Inr (span mem (unat user_ptr) (unat count * sz)))"

definition copy_to_user ::
  "'pt mapper \<Rightarrow> 'pt kmem \<Rightarrow> memory \<Rightarrow> u64 \<Rightarrow> bytes \<Rightarrow> memory \<times> (unit, unit) result" where
  "copy_to_user m k mem user_ptr buf =
    (if buf = [] then (mem, Inr ())
     else if 2 ^ 64 \<le> length buf then (mem, Inl ())
     else if \<not> user_range_is_mapped m k user_ptr (of_nat (length buf)) then (mem, Inl ())
     else (overwrite mem (unat user_ptr) buf, Inr ()))"

text \<open>The loop of \<open>copy_string\<close>: the bytes read, and whether the last of them is the terminator.\<close>

fun copy_chars :: "'pt mapper \<Rightarrow> 'pt kmem \<Rightarrow> memory \<Rightarrow> u64 \<Rightarrow> nat \<Rightarrow> (u64, bytes \<times> bool) result" where
  "copy_chars m k mem p 0 = Inr ([], False)"
| "copy_chars m k mem p (Suc n) =
    (case copy_from_user m k mem p 1 1 of
       Inl _ \<Rightarrow> Inl (- EFAULT)
     | Inr bs \<Rightarrow>
         (if hd bs = 0 then Inr ([hd bs], True)
          else rbind (copy_chars m k mem (p + 1) n) (\<lambda>(rest, found). Inr (hd bs # rest, found))))"

definition trim_nulls :: "bytes \<Rightarrow> bytes" where
  "trim_nulls bs = rev (dropWhile (\<lambda>b. b = 0) (rev bs))"

definition copy_string :: "'pt mapper \<Rightarrow> 'pt kmem \<Rightarrow> memory \<Rightarrow> u64 \<Rightarrow> nat \<Rightarrow> (u64, string) result" where
  "copy_string m k mem user_ptr max_len =
    rbind (copy_chars m k mem user_ptr max_len) (\<lambda>(vec, found_null).
      if \<not> utf8_valid vec then Inl (- EINVAL)
      else if \<not> found_null then Inl (- ENAMETOOLONG)
      else Inr (bytes_str (trim_nulls vec)))"

section \<open>A mapped range is in user space\<close>

lemma canonical_low_iff: "a < HIGHER_HALF_BASE \<Longrightarrow> canonical_addr a \<longleftrightarrow> unat a < 2 ^ 47"
proof -
  assume a: "a < HIGHER_HALF_BASE"
  have d: "unat (drop_bit 47 a) = unat a div 2 ^ 47" by (simp add: drop_bit_eq_div unat_div)
  have "unat a < 0xFFFF800000000000" using a by (simp add: HIGHER_HALF_BASE_def word_less_nat_alt)
  then have "drop_bit 47 a \<noteq> 0x1FFFF" using d by (auto dest!: arg_cong [of _ _ unat])
  moreover have "drop_bit 47 a = 0 \<longleftrightarrow> unat a div 2 ^ 47 = 0" unfolding d [symmetric] by (simp add: unat_eq_zero)
  ultimately show ?thesis unfolding canonical_addr_def by (simp add: div_eq_0_iff)
qed

lemma pages_mapped_at:
  assumes "pages_mapped tr a e" "unat a + 0x1000 * i < unat e"
  shows "canonical_addr (a + 0x1000 * of_nat i) \<and> tr (a + 0x1000 * of_nat i) \<noteq> None"
  using assms
proof (induction tr a e arbitrary: i rule: pages_mapped.induct)
  case (1 tr a e)
  have lt: "a < e" using 1(3) by (simp add: word_less_nat_alt)
  note p = 1(2) [unfolded pages_mapped.simps [of tr a e]]
  show ?case
  proof (cases i)
    case 0
    then show ?thesis using p lt by (auto split: if_splits)
  next
    case (Suc j)
    have ok: "canonical_addr a" "tr a \<noteq> None" "\<not> a + 0x1000 < a" "pages_mapped tr (a + 0x1000) e"
      using p lt by (auto split: if_splits)
    have "unat (a + 0x1000) = unat a + 0x1000"
      using unat_add_checked [OF ok(3)] by simp
    then have "unat (a + 0x1000) + 0x1000 * j < unat e" using 1(3) Suc by simp
    from 1(1) [OF lt _ ok(2) ok(3) ok(4) this] ok(1) show ?thesis using Suc by (simp add: algebra_simps)
  qed
qed

lemma unat_page_floor: "unat (page_floor a) = 4096 * (unat a div 4096)"
  using unat_align_down_4k [of a] by (simp add: page_floor_def mult.commute)

lemma page_floor_eq: "page_floor a = of_nat (4096 * (unat a div 4096))"
  unfolding unat_page_floor [symmetric] by simp

lemma user_range_in_user_space:
  assumes "user_range_is_mapped m k p len"
  shows "unat p + unat len \<le> 2 ^ 47"
    and "unat p \<le> a \<Longrightarrow> a < unat p + unat len \<Longrightarrow> virt_to_phys m k (page_floor (of_nat a)) \<noteq> None"
proof -
  let ?s = "page_floor p"
  have p: "len \<noteq> 0" "p < HIGHER_HALF_BASE" "\<not> p + len < p" "pages_mapped (virt_to_phys m k) ?s (p + len)"
    using assms by (auto simp: user_range_is_mapped_def not_le split: if_splits)
  have e: "unat (p + len) = unat p + unat len" by (rule unat_add_checked [OF p(3)])
  have l: "0 < unat len" using p(1) by (simp add: unat_gt_0)
  have s: "unat ?s = 4096 * (unat p div 4096)" "unat ?s \<le> unat p" by (simp_all add: unat_page_floor)
  have "?s < HIGHER_HALF_BASE" using s(2) p(2) by (simp add: word_less_nat_alt)
  moreover have "canonical_addr ?s" using pages_mapped_at [OF p(4), of 0] s(2) l e by simp
  ultimately have low: "unat ?s < 2 ^ 47" by (simp add: canonical_low_iff)
  show le: "unat p + unat len \<le> 2 ^ 47"
  proof (rule ccontr)
    assume c: "\<not> unat p + unat len \<le> 2 ^ 47"
    let ?i = "2 ^ 35 - unat p div 4096"
    have i: "unat ?s + 4096 * ?i = 2 ^ 47" using s(1) low by (simp add: diff_mult_distrib2)
    then have "canonical_addr (?s + 0x1000 * of_nat ?i)" using pages_mapped_at [OF p(4), of ?i] c e by simp
    moreover have "?s + 0x1000 * of_nat ?i = (of_nat (unat ?s + 4096 * ?i) :: u64)" by simp
    ultimately have "canonical_addr (of_nat (2 ^ 47))" unfolding i by simp
    then show False by (simp add: canonical_low_iff HIGHER_HALF_BASE_def)
  qed
  assume a: "unat p \<le> a" "a < unat p + unat len"
  let ?j = "a div 4096 - unat p div 4096"
  have d: "unat p div 4096 \<le> a div 4096" using a(1) by (rule div_le_mono)
  then have j: "unat ?s + 4096 * ?j = 4096 * (a div 4096)" using s(1) by (simp add: diff_mult_distrib2)
  then have "virt_to_phys m k (?s + 0x1000 * of_nat ?j) \<noteq> None"
    using pages_mapped_at [OF p(4), of ?j] a(2) e by simp
  moreover have "?s + 0x1000 * of_nat ?j = of_nat (4096 * (a div 4096))" unfolding j [symmetric] by simp
  moreover have "unat (of_nat a :: u64) = a" using a(2) le by (intro unat_of_nat64) simp
  then have "page_floor (of_nat a) = of_nat (4096 * (a div 4096))" by (simp only: page_floor_eq)
  ultimately show "virt_to_phys m k (page_floor (of_nat a)) \<noteq> None" by (simp only: not_False_eq_True)
qed

lemma copy_from_userE:
  assumes "copy_from_user m k mem p sz count = Inr bs" "count \<noteq> 0" "0 < sz"
  shows "bs = span mem (unat p) (unat count * sz)" "user_range_is_mapped m k p (count * of_nat sz)"
    "unat (count * of_nat sz) = unat count * sz"
proof -
  have *: "\<not> 2 ^ 64 \<le> unat count * sz" "user_range_is_mapped m k p (count * of_nat sz)"
      "bs = span mem (unat p) (unat count * sz)"
    using assms(1,2) by (auto simp: copy_from_user_def split: if_splits)
  then show "bs = span mem (unat p) (unat count * sz)" "user_range_is_mapped m k p (count * of_nat sz)" by auto
  have "count * of_nat sz = of_nat (unat count * sz)" by simp
  then show "unat (count * of_nat sz) = unat count * sz" using *(1) unat_of_nat64 [of "unat count * sz"] by simp
qed

lemma copy_to_user_cases:
  obtains (empty) "buf = []" "copy_to_user m k mem p buf = (mem, Inr ())"
  | (refused) "copy_to_user m k mem p buf = (mem, Inl ())"
  | (copied) "buf \<noteq> []" "user_range_is_mapped m k p (of_nat (length buf))" "length buf < 2 ^ 64"
      "copy_to_user m k mem p buf = (overwrite mem (unat p) buf, Inr ())"
proof -
  consider "buf = []" | "buf \<noteq> []" "2 ^ 64 \<le> length buf \<or> \<not> user_range_is_mapped m k p (of_nat (length buf))"
    | "buf \<noteq> []" "length buf < 2 ^ 64" "user_range_is_mapped m k p (of_nat (length buf))" by linarith
  then show thesis
    by cases (auto simp: copy_to_user_def intro: empty refused copied)
qed

text \<open>
  C2: a copy to user space stays in user space. \<open>copy_to_user\<close> either refuses and leaves memory as it
  was, or the bytes it was given are at the user pointer afterwards and every byte that changed lies
  in the lower half of the address space, inside the range the pointer and the length name, and in a
  page the page tables map: no pointer or length a program passes makes the kernel write to its own
  half, wrap around the end of the address space, or touch an unmapped page.
\<close>

theorem copy_to_user_confined:
  assumes "copy_to_user m k mem p buf = (mem', r)"
  shows "(r = Inl () \<longrightarrow> mem' = mem) \<and> (r = Inr () \<longrightarrow> span mem' (unat p) (length buf) = buf)
    \<and> (\<forall>a. mem' a \<noteq> mem a \<longrightarrow> unat p \<le> a \<and> a < unat p + length buf \<and> a < 2 ^ 47
         \<and> virt_to_phys m k (page_floor (of_nat a)) \<noteq> None)"
proof (cases rule: copy_to_user_cases [where buf = buf and m = m and k = k and mem = mem and p = p])
  case copied
  have l: "unat (of_nat (length buf) :: u64) = length buf" by (rule unat_of_nat64 [OF copied(3)])
  note u = user_range_in_user_space [OF copied(2), unfolded l]
  have "unat p \<le> a \<and> a < unat p + length buf" if "overwrite mem (unat p) buf a \<noteq> mem a" for a
    using that by (auto simp: overwrite_def split: if_splits)
  moreover have "mem' = overwrite mem (unat p) buf" "r = Inr ()" using copied(4) assms by auto
  ultimately show ?thesis using u(1) u(2) by (auto intro: less_le_trans)
qed (use assms in \<open>auto simp: span_def\<close>)

definition sample_kmem :: "(u64 \<Rightarrow> u64 option) kmem" where
  "sample_kmem = \<lparr>allocator = None, tables = (\<lambda>a. if page_floor a = 0x400000 then Some 0x5000 else None), dma_base = 0\<rparr>"

theorem copy_to_user_confined_witness:
  "copy_to_user flat_mapper sample_kmem (\<lambda>_. 7) 0x400FFE [1, 2] = (overwrite (\<lambda>_. 7) 0x400FFE [1, 2], Inr ())
   \<and> span (overwrite (\<lambda>_. 7 :: u8) 0x400FFE [1, 2]) 0x400FFE 2 = [1, 2]"
proof -
  have "pages_mapped (virt_to_phys flat_mapper sample_kmem) 0x400000 0x401000"
    by (simp add: pages_mapped.simps [of _ "0x400000"] pages_mapped.simps [of _ "0x401000"] virt_to_phys_def
        flat_mapper_def sample_kmem_def page_floor_def canonical_addr_def)
  then have r: "copy_to_user flat_mapper sample_kmem (\<lambda>_. 7) 0x400FFE [1, 2] = (overwrite (\<lambda>_. 7) 0x400FFE [1, 2], Inr ())"
    by (simp add: copy_to_user_def user_range_is_mapped_def HIGHER_HALF_BASE_def page_floor_def)
  show ?thesis using r copy_to_user_confined [OF r] by (simp add: numeral_2_eq_2 [symmetric])
qed

end
