(* ===== verification/Process.thy ===== *)
theory Process
  imports Vfs UserMem "HOL-Library.AList"
begin

text \<open>
  Processes, \<open>zenos-kernel/src/process/mod.rs\<close>: the process structure, its descriptor table, creating,
  forking and replacing a process, loading an ELF image and laying out the initial user stack, and the
  standard streams of \<open>zenos-kernel/src/process/file_handles.rs\<close>.  Open file descriptions are reference
  counted and shared between descriptors, so a descriptor holds the address of its description.  The
  ELF parser is the \<open>xmas_elf\<close> crate: its result is an argument.
\<close>

section \<open>Data\<close>

record process_state =
  rax :: u64
  rbx :: u64
  rcx :: u64
  rdx :: u64
  rsi :: u64
  rdi :: u64
  rbp :: u64
  rsp :: u64
  r8 :: u64
  r9 :: u64
  r10 :: u64
  r11 :: u64
  r12 :: u64
  r13 :: u64
  r14 :: u64
  r15 :: u64
  rip :: u64
  rflags :: u64
  cs_sel :: u64
  ss_sel :: u64
  fxsave :: bytes

text \<open>The default takes the floating-point state from the processor, the argument \<open>fx\<close>.\<close>

definition default_state :: "bytes \<Rightarrow> process_state" where
  "default_state fx =
    \<lparr>rax = 0, rbx = 0, rcx = 0, rdx = 0, rsi = 0, rdi = 0, rbp = 0, rsp = 0, r8 = 0, r9 = 0, r10 = 0, r11 = 0,
     r12 = 0, r13 = 0, r14 = 0, r15 = 0, rip = 0, rflags = 0, cs_sel = 0, ss_sel = 0, fxsave = fx\<rparr>"

text \<open>A blocked process holds the address of its lock flag.\<close>

datatype process_status = Running | Ready | Created | Exited | Blocked nat | WaitingFor u64

fun status_eq :: "(nat \<Rightarrow> bool) \<Rightarrow> process_status \<Rightarrow> process_status \<Rightarrow> bool" where
  "status_eq flags Running Running \<longleftrightarrow> True"
| "status_eq flags Ready Ready \<longleftrightarrow> True"
| "status_eq flags Created Created \<longleftrightarrow> True"
| "status_eq flags Exited Exited \<longleftrightarrow> True"
| "status_eq flags (Blocked a) (Blocked b) \<longleftrightarrow> flags a = flags b"
| "status_eq flags (WaitingFor a) (WaitingFor b) \<longleftrightarrow> a = b"
| "status_eq flags _ _ \<longleftrightarrow> False"

definition DEFAULT_PRIORITY :: u8 where "DEFAULT_PRIORITY = 15"
definition DEFAULT_USER_BASE :: u64 where "DEFAULT_USER_BASE = 0x400000"

definition TRUNCATE :: u64 where "TRUNCATE = 0x200"
definition CLOSE_ON_EXEC :: u64 where "CLOSE_ON_EXEC = 0x80000"

datatype std_stream = Stdin u64 | Stdout u64 | Stderr u64

text \<open>A descriptor refers to an inode of a filesystem or to one of the standard streams.\<close>

datatype 'i file_ref = FsInode 'i | StdInode nat

record 'i process =
  pid :: u64
  parent_pid :: u64
  proc_name :: string
  pstate :: process_state
  pstatus :: process_status
  cr3 :: u64
  end_addr :: u64
  entry_point :: u64
  file_handles :: "(u32 \<times> nat) list"
  cwd :: 'i
  load_bias :: u64
  loaded :: bool
  user_stack_top :: u64
  exit_code :: "u64 option"
  envp :: "bytes list"
  argv :: "bytes list"
  priority :: u8

text \<open>What processes share: the open file descriptions, the inodes of the standard streams, \<open>NEXT_PID\<close>.\<close>

record 'i shared =
  open_files :: "'i file_ref open_file_desc list"
  std_inodes :: "std_stream inode list"
  next_pid :: u64

section \<open>Creating a process\<close>

definition std_inode :: "u64 \<Rightarrow> u16 \<Rightarrow> std_stream \<Rightarrow> std_stream inode" where
  "std_inode now perms s =
    \<lparr>ino_num = 0, ino_kind = CharDevice, ino_size = 0, ino_perms = perms, ino_links = 0, owner_uid = 0, owner_gid = 0,
     access_time = now, modified_time = now, change_time = now, ino_data = s\<rparr>"

definition open_std :: "std_stream inode \<Rightarrow> u64 \<Rightarrow> 'i shared \<Rightarrow> 'i shared \<times> nat" where
  "open_std ino options w =
    (w\<lparr>std_inodes := std_inodes w @ [ino],
       open_files := open_files w @ [\<lparr>of_inode = StdInode (length (std_inodes w)), of_cursor = 0, of_options = options\<rparr>]\<rparr>,
     length (open_files w))"

definition process_new :: "u64 \<Rightarrow> u64 \<Rightarrow> bytes \<Rightarrow> 'i process \<Rightarrow> string \<Rightarrow> 'i shared \<Rightarrow> 'i shared \<times> 'i process" where
  "process_new now active_cr3 fx parent nm w =
    (let p = next_pid w;
         (w, h0) = open_std (std_inode now OWNER_READ (Stdin p)) (READ_ONLY OR TRUNCATE) w;
         (w, h1) = open_std (std_inode now OWNER_WRITE (Stdout p)) READ_WRITE w;
         (w, h2) = open_std (std_inode now OWNER_WRITE (Stderr p)) READ_WRITE w
     in (w\<lparr>next_pid := p + 1\<rparr>,
         \<lparr>pid = p, parent_pid = pid parent, proc_name = nm, pstate = default_state fx, pstatus = Created, cr3 = active_cr3,
          end_addr = 0, entry_point = 0, file_handles = [(0, h0), (1, h1), (2, h2)], cwd = cwd parent, load_bias = 0,
          loaded = False, user_stack_top = 0, exit_code = None, envp = envp parent, argv = [], priority = DEFAULT_PRIORITY\<rparr>))"

text \<open>\<open>cloned\<close> is the result of \<open>clone_address_space\<close>.\<close>

definition fork_from ::
  "u64 \<Rightarrow> u64 \<Rightarrow> bytes \<Rightarrow> (unit, u64) result \<Rightarrow> 'i process \<Rightarrow> process_state \<Rightarrow> 'i shared
    \<Rightarrow> 'i shared \<times> (unit, 'i process) result" where
  "fork_from now active_cr3 fx cloned parent child_state w =
    (case cloned of
       Inl e \<Rightarrow> (w, Inl e)
     | Inr child_cr3 \<Rightarrow>
         (let (w, p) = process_new now active_cr3 fx parent (proc_name parent) w
          in (w, Inr (p\<lparr>cr3 := child_cr3, pstate := child_state, load_bias := load_bias parent, end_addr := end_addr parent,
                entry_point := entry_point parent, user_stack_top := user_stack_top parent, loaded := True,
                pstatus := Ready, file_handles := file_handles parent, priority := priority parent\<rparr>))))"

section \<open>Replacing a process\<close>

text \<open>\<open>CStr::from_ptr\<close>: the bytes up to the terminator; \<open>None\<close> if memory has none.\<close>

partial_function (option) cstr :: "memory \<Rightarrow> nat \<Rightarrow> bytes option" where
  "cstr mem p = (if mem p = 0 then Some [] else Option.bind (cstr mem (p + 1)) (\<lambda>bs. Some (mem p # bs)))"

definition load64 :: "memory \<Rightarrow> u64 \<Rightarrow> u64" where
  "load64 mem a = from_le (span mem (unat a) 8)"

partial_function (option) read_envp :: "memory \<Rightarrow> u64 \<Rightarrow> bytes list option" where
  "read_envp mem p =
    (let ptr = load64 mem p
     in if ptr = 0 then Some []
        else Option.bind (cstr mem (unat ptr)) (\<lambda>s. Option.bind (read_envp mem (p + 8)) (\<lambda>ss. Some (s # ss))))"

fun read_argv :: "memory \<Rightarrow> u64 \<Rightarrow> nat \<Rightarrow> bytes list option" where
  "read_argv mem p 0 = Some []"
| "read_argv mem p (Suc n) =
    (let ptr = load64 mem p
     in if ptr = 0 then read_argv mem (p + 8) n
        else Option.bind (cstr mem (unat ptr)) (\<lambda>s. Option.bind (read_argv mem (p + 8) n) (\<lambda>ss. Some (s # ss))))"

definition strip_suffix :: "string \<Rightarrow> string \<Rightarrow> string option" where
  "strip_suffix suf s = (if suffix suf s then Some (take (length s - length suf) s) else None)"

definition strip_prefix :: "string \<Rightarrow> string \<Rightarrow> string option" where
  "strip_prefix pre s = (if prefix pre s then Some (drop (length pre) s) else None)"

definition display_name :: "string \<Rightarrow> bytes list \<Rightarrow> string" where
  "display_name cmdline new_argv =
    (case new_argv of
       [] \<Rightarrow> cmdline
     | first # _ \<Rightarrow>
         (if \<not> utf8_valid first then cmdline
          else (let s = bytes_str first
                in case strip_suffix ''.elf'' s of
                     None \<Rightarrow> cmdline
                   | Some stripped \<Rightarrow>
                       (case strip_prefix s cmdline of None \<Rightarrow> cmdline | Some rest \<Rightarrow> stripped @ rest))))"

text \<open>
  \<open>kmem\<close> is the memory the argument arrays are in; \<open>None\<close> means that a string or the environment has no
  end.  \<open>fresh\<close> is the result of \<open>new_user_address_space\<close>, unwrapped after the other fields are set.
\<close>

definition exec_replace ::
  "memory \<Rightarrow> bytes \<Rightarrow> (unit, u64) result \<Rightarrow> 'i shared \<Rightarrow> string \<Rightarrow> nat \<Rightarrow> u64 \<Rightarrow> u64 \<Rightarrow> 'i process
    \<Rightarrow> ('i process, unit fault, unit) run" where
  "exec_replace kmem fx fresh w commandline argc argv_ptr envp_ptr p =
    Option.bind (if envp_ptr = 0 then Some [] else read_envp kmem envp_ptr) (\<lambda>new_envp.
    Option.bind (if argv_ptr = 0 then Some [] else read_argv kmem argv_ptr argc) (\<lambda>new_argv.
      let p = p\<lparr>argv := new_argv, envp := new_envp, proc_name := display_name commandline new_argv,
                pstate := default_state fx, pstatus := Created, load_bias := 0, end_addr := 0, entry_point := 0,
                loaded := False, user_stack_top := 0,
                file_handles := filter (\<lambda>(fd, h). \<not> contains (of_options (open_files w ! h)) CLOSE_ON_EXEC) (file_handles p)\<rparr>
      in Some (case fresh of Inl _ \<Rightarrow> (p, Inl Panic) | Inr a \<Rightarrow> (p\<lparr>cr3 := a\<rparr>, Inr ()))))"

section \<open>The descriptor table\<close>

definition get_file_handle :: "'i process \<Rightarrow> u64 \<Rightarrow> nat option" where
  "get_file_handle p fd = map_of (file_handles p) (ucast fd)"

definition next_fd :: "'i process \<Rightarrow> u32" where
  "next_fd p = (if file_handles p = [] then 2 else Max (fst ` set (file_handles p))) + 1"

definition add_file_handle ::
  "'i file_ref \<Rightarrow> u64 \<Rightarrow> 'i shared \<times> 'i process \<Rightarrow> ('i shared \<times> 'i process) \<times> (unit, u64) result" where
  "add_file_handle descriptor foo = (\<lambda>(w, p).
    let new_fd = next_fd p
    in ((w\<lparr>open_files := open_files w @ [\<lparr>of_inode = descriptor, of_cursor = 0, of_options = foo\<rparr>]\<rparr>,
         p\<lparr>file_handles := AList.update new_fd (length (open_files w)) (file_handles p)\<rparr>),
        Inr (ucast new_fd)))"

definition dup_file_handle :: "u64 \<Rightarrow> u64 option \<Rightarrow> 'i process \<Rightarrow> 'i process \<times> (unit, u64) result" where
  "dup_file_handle old_fd new_fd p =
    (case map_of (file_handles p) (ucast old_fd) of
       None \<Rightarrow> (p, Inl ())
     | Some old_handle \<Rightarrow>
         (let new_fd = (case new_fd of Some fd \<Rightarrow> fd | None \<Rightarrow> ucast (next_fd p));
              fhs = AList.delete (ucast new_fd) (file_handles p)
          in (p\<lparr>file_handles := AList.update (ucast new_fd) old_handle fhs\<rparr>, Inr new_fd)))"

definition close_file_handle :: "u64 \<Rightarrow> 'i process \<Rightarrow> 'i process \<times> (file_error, unit) result" where
  "close_file_handle fd p =
    (case map_of (file_handles p) (ucast fd) of
       None \<Rightarrow> (p, Inl InvalidFileDescriptor)
     | Some _ \<Rightarrow> (p\<lparr>file_handles := AList.delete (ucast fd) (file_handles p)\<rparr>, Inr ()))"

definition save_context :: "process_state \<Rightarrow> 'i process \<Rightarrow> 'i process" where
  "save_context ctx p = p\<lparr>pstate := ctx, pstatus := Ready\<rparr>"

section \<open>The standard streams\<close>

text \<open>
  The operations of the streams, over the bytes written to the terminal so far.  \<open>Stdin::read\<close> polls the
  terminal: \<open>polls\<close> gives the answers of \<open>tty_read_nonblocking\<close> one after the other, \<open>None\<close> for an error,
  and the loop waits for ever once they are used up.
\<close>

definition invalid_utf8 :: bytes where "invalid_utf8 = str_bytes ''<invalid utf-8>''"

definition stdout_write :: "bytes \<Rightarrow> bytes \<Rightarrow> bytes \<times> (file_error, nat) result" where
  "stdout_write buf out = (let s = if utf8_valid buf then buf else invalid_utf8 in (out @ s, Inr (length s)))"

definition stderr_write :: "bytes \<Rightarrow> bytes \<Rightarrow> bytes \<times> (file_error, nat) result" where
  "stderr_write buf out = (let s = if utf8_valid buf then buf else invalid_utf8 in (out @ s @ [10], Inr (length s)))"

fun stdin_read :: "nat \<Rightarrow> bytes \<Rightarrow> u8 option option list \<Rightarrow> bytes option" where
  "stdin_read n acc polls =
    (if length acc < n then
       (case polls of
          [] \<Rightarrow> None
        | None # polls \<Rightarrow> stdin_read n acc polls
        | Some None # polls \<Rightarrow> stdin_read n acc polls
        | Some (Some b) # polls \<Rightarrow>
            (if b = 10 then Some (acc @ [b])
             else if b = 8 then stdin_read n (butlast acc) polls
             else stdin_read n (acc @ [b]) polls))
     else Some acc)"

declare stdin_read.simps [simp del]

datatype stream_op = StreamRead | StreamWrite | StreamTruncate | StreamSync | StreamUnlink | StreamLookup
  | StreamCreate | StreamReadDir | StreamStat

text \<open>The answer of the operations that do nothing: an error, or success for \<open>None\<close>.\<close>

fun stream_default :: "std_stream \<Rightarrow> stream_op \<Rightarrow> file_error option" where
  "stream_default s StreamSync = None"
| "stream_default (Stdin p) StreamTruncate = None"
| "stream_default (Stdin p) StreamLookup = Some NotADirectory"
| "stream_default (Stdin p) StreamCreate = Some NotADirectory"
| "stream_default (Stdin p) StreamReadDir = Some NotADirectory"
| "stream_default s oper = Some UnsupportedOperation"

section \<open>Reading strings\<close>

lemma span_Suc: "span c p (Suc n) = c p # span c (Suc p) n"
  by (simp add: span_def upt_conv_Cons del: upt_Suc)

lemma cstr_at: "span mem p (length s + 1) = s @ [0] \<Longrightarrow> 0 \<notin> set s \<Longrightarrow> cstr mem p = Some s"
proof (induction s arbitrary: p)
  case Nil
  then show ?case by (simp add: span_Suc cstr.simps)
next
  case (Cons b s)
  then have "mem p = b" "b \<noteq> 0" "cstr mem (p + 1) = Some s" by (auto simp: span_Suc)
  then show ?case by (simp add: cstr.simps [of mem p])
qed

definition words_at :: "memory \<Rightarrow> nat \<Rightarrow> u64 list \<Rightarrow> bool" where
  "words_at mem a vs \<longleftrightarrow> span mem a (8 * length vs) = concat (map (to_le 8) vs)"

lemma words_at_Nil [simp]: "words_at mem a []"
  by (simp add: words_at_def span_def)

lemma words_at_Cons [simp]: "words_at mem a (v # vs) \<longleftrightarrow> from_le (span mem a 8) = v \<and> words_at mem (a + 8) vs"
proof -
  have "span mem a (8 * length (v # vs)) = span mem a 8 @ span mem (a + 8) (8 * length vs)"
    by (simp add: span_add)
  moreover have "span mem a 8 = to_le 8 v \<longleftrightarrow> from_le (span mem a 8) = v"
    using to_from_le [of "span mem a 8", where 'a = 64] by auto
  ultimately show ?thesis by (simp add: words_at_def)
qed

lemma words_at_append [simp]: "words_at mem a (vs @ us) \<longleftrightarrow> words_at mem a vs \<and> words_at mem (a + 8 * length vs) us"
  by (induction vs arbitrary: a) (auto simp: add.assoc)

lemma load64_at: "words_at mem (unat a) (v # vs) \<Longrightarrow> load64 mem a = v"
  by (simp add: load64_def)

text \<open>Reading an array of pointers to strings gives the strings back.\<close>

lemma unat_step8: "unat (a :: u64) + 8 * Suc n < 2 ^ 64 \<Longrightarrow> unat (a + 8) = unat a + 8"
  by (simp add: unat_word_ariths)

lemma read_argv_at:
  assumes "words_at mem (unat a) ptrs" "unat a + 8 * length ptrs < 2 ^ 64" "0 \<notin> set ptrs"
    and "list_all2 (\<lambda>ptr s. cstr mem (unat ptr) = Some s) ptrs ss"
  shows "read_argv mem a (length ptrs) = Some ss"
  using assms
proof (induction ptrs arbitrary: a ss)
  case (Cons ptr ptrs)
  then obtain s ss' where "ss = s # ss'" "cstr mem (unat ptr) = Some s"
      "list_all2 (\<lambda>ptr s. cstr mem (unat ptr) = Some s) ptrs ss'" by (auto simp: list_all2_Cons1)
  moreover have "unat (a + 8) = unat a + 8" using Cons.prems(2) by (intro unat_step8 [of _ "length ptrs"]) simp
  ultimately show ?case using Cons.prems Cons.IH [of "a + 8" ss'] load64_at [OF Cons.prems(1)] by (auto simp: Let_def)
qed simp

lemma read_envp_at:
  assumes "words_at mem (unat a) (ptrs @ [0])" "unat a + 8 * length ptrs + 8 < 2 ^ 64" "0 \<notin> set ptrs"
    and "list_all2 (\<lambda>ptr s. cstr mem (unat ptr) = Some s) ptrs ss"
  shows "read_envp mem a = Some ss"
  using assms
proof (induction ptrs arbitrary: a ss)
  case Nil
  then show ?case using load64_at [of mem a 0 "[]"] by (simp add: read_envp.simps [of mem a])
next
  case (Cons ptr ptrs)
  then obtain s ss' where "ss = s # ss'" "cstr mem (unat ptr) = Some s"
      "list_all2 (\<lambda>ptr s. cstr mem (unat ptr) = Some s) ptrs ss'" by (auto simp: list_all2_Cons1)
  moreover have "unat (a + 8) = unat a + 8" using Cons.prems(2) by (intro unat_step8 [of _ "length ptrs"]) simp
  moreover have "load64 mem a = ptr" using load64_at [of mem a ptr "ptrs @ [0]"] Cons.prems(1) by simp
  ultimately show ?case using Cons.prems Cons.IH [of "a + 8" ss'] by (auto simp: Let_def read_envp.simps [of mem a])
qed

section \<open>Descriptors\<close>

lemma map_of_delete: "map_of (AList.delete k al) = (map_of al)(k := None)"
  by (rule ext) (auto simp: AList.delete_conv')

lemma fd_below_max: "fd < 0xFFFFFFFF \<Longrightarrow> fd < fd + (1 :: u32)"
  by (simp add: word_less_nat_alt unat_word_ariths)

lemma fd_round [simp]: "ucast (ucast x :: u64) = (x :: u32)"
  by (rule bit_word_eqI) (auto simp: bit_unsigned_iff)

lemma next_fd_gt:
  assumes "\<forall>fd \<in> fst ` set (file_handles p). fd < 0xFFFFFFFF" "fd \<in> fst ` set (file_handles p)"
  shows "fd < next_fd p"
proof -
  let ?K = "fst ` set (file_handles p)"
  have ne: "file_handles p \<noteq> []" using assms(2) by auto
  have "fd \<le> Max ?K" "Max ?K \<in> ?K" using assms(2) by (auto intro: Max_ge Max_in)
  then have "Max ?K < 0xFFFFFFFF" using assms(1) by blast
  then have "Max ?K < Max ?K + 1" by (rule fd_below_max)
  then have "fd < Max ?K + 1" using \<open>fd \<le> Max ?K\<close> by (rule le_less_trans [rotated])
  then show ?thesis using ne by (simp only: next_fd_def if_False)
qed

lemma next_fd_fresh:
  assumes "\<forall>fd \<in> fst ` set (file_handles p). fd < 0xFFFFFFFF"
  shows "map_of (file_handles p) (next_fd p) = None"
proof -
  have "next_fd p \<notin> fst ` set (file_handles p)" using next_fd_gt [OF assms] by blast
  then show ?thesis by (simp add: map_of_eq_None_iff)
qed

lemma get_after_add:
  assumes "add_file_handle d foo (w, p) = ((w', p'), Inr fd)"
  shows "ucast fd = next_fd p" "get_file_handle p' g = (if ucast g = next_fd p then Some (length (open_files w)) else get_file_handle p g)"
    "open_files w' = open_files w @ [\<lparr>of_inode = d, of_cursor = 0, of_options = foo\<rparr>]"
  using assms by (auto simp: add_file_handle_def Let_def get_file_handle_def AList.update_conv')

lemma get_after_dup:
  assumes "dup_file_handle old new p = (p', Inr fd)"
  shows "get_file_handle p' g = (if ucast g = (ucast fd :: u32) then get_file_handle p old else get_file_handle p g)"
    "get_file_handle p old \<noteq> None" "new = None \<Longrightarrow> ucast fd = next_fd p" "new = Some f \<Longrightarrow> fd = f"
  using assms by (auto simp: dup_file_handle_def Let_def get_file_handle_def AList.update_conv' map_of_delete split: option.splits)

lemma get_after_close:
  "get_file_handle (fst (close_file_handle fd p)) g = (if ucast g = (ucast fd :: u32) then None else get_file_handle p g)"
  by (auto simp: close_file_handle_def get_file_handle_def map_of_delete split: option.splits)


definition sample_process :: "nat process" where
  "sample_process =
    \<lparr>pid = 1, parent_pid = 0, proc_name = ''/bin/init'', pstate = default_state [], pstatus = Ready, cr3 = 0x7000,
     end_addr = 0, entry_point = 0, file_handles = [(0, 0), (1, 1), (2, 2)], cwd = 0, load_bias = 0, loaded = False,
     user_stack_top = 0, exit_code = None, envp = [], argv = [], priority = DEFAULT_PRIORITY\<rparr>"

definition sample_shared :: "nat shared" where
  "sample_shared = \<lparr>open_files = replicate 3 \<lparr>of_inode = StdInode 0, of_cursor = 0, of_options = 0\<rparr>, std_inodes = [], next_pid = 2\<rparr>"


end
