(* ===== verification/Loader.thy ===== *)
theory Loader
  imports Process
begin

text \<open>
  Starting a program, \<open>Process::load\<close> and \<open>Process::prepare_run\<close> of
  \<open>zenos-kernel/src/process/mod.rs\<close>: the segments of an ELF file are copied into the new address space and
  the initial stack is laid out.  User memory is kept for every address space, by the physical
  address of its top-level table, and so is the mapper the \<open>x86_64\<close> crate builds for the active one.
\<close>

section \<open>Data\<close>

record 'pt machine =
  mach_kmem :: "'pt kmem"
  umem :: "u64 \<Rightarrow> memory"
  cpu_cr3 :: u64
  curr_pid :: u64
  curr_proc :: "nat option"

text \<open>What \<open>xmas_elf\<close> reads from a file; \<open>ph_sane\<close> is the outcome of its sanity check.\<close>

record phdr =
  ph_load :: bool
  ph_offset :: u64
  ph_vaddr :: u64
  ph_filesz :: u64
  ph_memsz :: u64
  ph_sane :: bool

record elf_file =
  elf_shared :: bool
  elf_entry :: u64
  elf_phdrs :: "phdr list"

definition unwrap :: "'s \<times> ('e fault, 'a) result \<Rightarrow> ('s, unit fault, 'a) run" where
  "unwrap = (\<lambda>(s, r). Some (s, case r of Inl _ \<Rightarrow> Inl Panic | Inr a \<Rightarrow> Inr a))"

definition virt_addr_new :: "u64 \<Rightarrow> (unit fault, u64) result" where
  "virt_addr_new a = (if canonical_addr a then Inr a else Inl Panic)"

definition virt_addr_add :: "u64 \<Rightarrow> u64 \<Rightarrow> (unit fault, u64) result" where
  "virt_addr_add a n = (if a + n < a then Inl Panic else virt_addr_new (a + n))"

definition virt_align_up :: "u64 \<Rightarrow> (unit fault, u64) result" where
  "virt_align_up a =
    (if a AND 0xFFF = 0 then Inr a
     else if (a OR 0xFFF) + 1 = 0 then Inl Panic
     else Inr (scast (ucast ((a OR 0xFFF) + 1) :: 48 word)))"

section \<open>Loading the image\<close>

partial_function (option) map_pages ::
  "('k \<Rightarrow> u64 \<Rightarrow> 'k \<times> (map_err fault, u64) result) \<Rightarrow> (u64 \<Rightarrow> (unit fault, u64) result) \<Rightarrow> u64 \<Rightarrow> u64 \<Rightarrow> 'k
    \<Rightarrow> ('k, unit fault, unit) run" where
  "map_pages alloc next_addr addr e k =
    (if addr < e then
       lbind (unwrap (alloc k addr)) (\<lambda>k _. lbind (Some (k, next_addr addr)) (\<lambda>k addr'. map_pages alloc next_addr addr' e k))
     else Some (k, Inr ()))"

definition compute_load_bias :: "elf_file \<Rightarrow> u64" where
  "compute_load_bias elf = (if elf_shared elf then DEFAULT_USER_BASE else 0)"

definition load_flags :: u64 where
  "load_flags = PRESENT OR USER_ACCESSIBLE OR WRITABLE"

text \<open>\<open>img\<close> is the memory from the start of the file buffer on: the source copies through a raw pointer.\<close>

definition load_segment ::
  "'pt mapper \<Rightarrow> memory \<Rightarrow> u64 \<Rightarrow> phdr \<Rightarrow> 'pt kmem \<times> memory \<Rightarrow> ('pt kmem \<times> memory, unit fault, unit) run" where
  "load_segment m img bias seg = (\<lambda>(k, mem).
    if \<not> ph_load seg then Some ((k, mem), Inr ())
    else
      lbind (Some ((k, mem), virt_addr_new (ph_vaddr seg + bias))) (\<lambda>(k, mem) seg_start.
      lbind (Some ((k, mem), virt_addr_new (ph_vaddr seg + ph_memsz seg + bias))) (\<lambda>(k, mem) seg_end.
      lbind (Some ((k, mem), virt_align_up seg_end)) (\<lambda>(k, mem) page_end.
      lbind (run_on (\<lambda>k. (k, mem))
          (map_pages (\<lambda>k a. ualloc_page_flags m k a Arbitrary load_flags) (\<lambda>a. virt_addr_add a 0x1000)
             (page_floor seg_start) page_end k)) (\<lambda>(k, mem) _.
        let mem = overwrite mem (unat (ph_vaddr seg + bias)) (span img (unat (ph_offset seg)) (unat (ph_filesz seg)));
            bss_len = ph_memsz seg - ph_filesz seg;
            mem = overwrite mem (unat (ph_vaddr seg + ph_filesz seg + bias)) (replicate (unat bss_len) 0)
        in Some ((k, mem), Inr ()))))))"

fun load_segments ::
  "'pt mapper \<Rightarrow> memory \<Rightarrow> u64 \<Rightarrow> phdr list \<Rightarrow> 'pt kmem \<times> memory \<Rightarrow> ('pt kmem \<times> memory, unit fault, unit) run" where
  "load_segments m img bias [] s = Some (s, Inr ())"
| "load_segments m img bias (seg # segs) s =
    lbind (load_segment m img bias seg s) (\<lambda>s _. load_segments m img bias segs s)"

definition image_end :: "elf_file \<Rightarrow> u64" where
  "image_end elf =
    foldl (\<lambda>max_end ph. if ph_load ph \<and> max_end < ph_vaddr ph + ph_memsz ph then ph_vaddr ph + ph_memsz ph else max_end)
      0 (elf_phdrs elf)"

text \<open>\<open>elf\<close> is the result of \<open>ElfFile::new\<close> on the buffer, \<open>None\<close> if it is not an ELF file.\<close>

definition internal_load ::
  "'pt mapper \<Rightarrow> memory \<Rightarrow> elf_file option \<Rightarrow> ('pt kmem \<times> memory) \<times> 'i process
    \<Rightarrow> (('pt kmem \<times> memory) \<times> 'i process, unit fault, unit) run" where
  "internal_load m img elf = (\<lambda>(s, p).
    case elf of
      None \<Rightarrow> Some ((s, p), Inl Panic)
    | Some elf \<Rightarrow>
        (let p = p\<lparr>load_bias := compute_load_bias elf, loaded := True\<rparr>
         in if \<not> list_all ph_sane (elf_phdrs elf) then Some ((s, p), Inl Panic)
            else lbind (run_on (\<lambda>s. (s, p)) (load_segments m img (load_bias p) (elf_phdrs elf) s)) (\<lambda>(s, p) _.
                   Some ((s, p\<lparr>end_addr := image_end elf, entry_point := elf_entry elf\<rparr>), Inr ()))))"

text \<open>The address space is switched for the load and switched back.\<close>

definition process_load ::
  "(u64 \<Rightarrow> 'pt mapper) \<Rightarrow> memory \<Rightarrow> elf_file option \<Rightarrow> 'pt machine \<times> 'i process
    \<Rightarrow> ('pt machine \<times> 'i process, unit fault, unit) run" where
  "process_load ms img elf = (\<lambda>(c, p).
    let a = cr3 p AND NOT 0xFFF
    in run_on (\<lambda>((k, mem), p). (c\<lparr>mach_kmem := k, umem := (umem c)(a := mem)\<rparr>, p))
         (internal_load (ms a) img elf ((mach_kmem c, umem c a), p)))"

section \<open>The initial stack\<close>

text \<open>The strings, pushed in the order of the list, with their addresses.\<close>

fun push_strings :: "bytes list \<Rightarrow> u64 \<times> memory \<Rightarrow> u64 list \<times> u64 \<times> memory" where
  "push_strings [] (sp, mem) = ([], sp, mem)"
| "push_strings (s # ss) (sp, mem) =
    (let sp = sp - of_nat (length s + 1);
         (ptrs, sp', mem') = push_strings ss (sp, overwrite mem (unat sp) (s @ [0]))
     in (sp # ptrs, sp', mem'))"

function align_16 :: "u64 \<Rightarrow> u64" where
  "align_16 sp = (if sp mod 16 \<noteq> 0 then align_16 (sp - 1) else sp)"
  by pat_completeness auto
termination
proof (relation "measure unat", simp, goal_cases)
  case (1 sp)
  then have "sp \<noteq> 0" by auto
  then show ?case by (simp add: unat_minus_one unat_gt_0)
qed

declare align_16.simps [simp del]

definition push :: "u64 \<Rightarrow> u64 \<times> memory \<Rightarrow> u64 \<times> memory" where
  "push val = (\<lambda>(sp, mem). (sp - 8, overwrite mem (unat (sp - 8)) (to_le 8 val)))"

definition lay_out_stack :: "bytes list \<Rightarrow> bytes list \<Rightarrow> u64 \<times> memory \<Rightarrow> u64 \<times> memory" where
  "lay_out_stack args envs s =
    (let (envp_ptrs, s) = push_strings (rev envs) s;
         (argv_ptrs, sp, mem) = push_strings (rev args) s;
         sp = align_16 sp;
         pointer_entries = 1 + length args + length envs + 2;
         temp_sp = sp - of_nat (pointer_entries * 8);
         sp = (if temp_sp mod 16 \<noteq> 0 then sp - 8 else sp);
         s = push 0 (push 0 (sp, mem));
         s = fold push envp_ptrs (push 0 s);
         s = fold push argv_ptrs (push 0 s)
     in push (of_nat (length args)) s)"

definition STACK_GAP :: u64 where "STACK_GAP = 0x20000"
definition STACK_SIZE :: u64 where "STACK_SIZE = 0x4000"

definition stack_top :: "'i process \<Rightarrow> u64" where
  "stack_top p = (load_bias p + end_addr p + STACK_GAP + 0xFFF) AND NOT 0xFFF"

definition map_stack :: "'pt mapper \<Rightarrow> u64 \<Rightarrow> u64 \<Rightarrow> 'pt kmem \<Rightarrow> ('pt kmem, unit fault, unit) run" where
  "map_stack m =
    map_pages (\<lambda>k a. if canonical_addr a then ualloc_page m k a Arbitrary else (k, Inl Panic)) (\<lambda>a. Inr (a + 0x1000))"

definition prepare_run ::
  "(u64 \<Rightarrow> 'pt mapper) \<Rightarrow> 'pt machine \<times> 'i process \<Rightarrow> ('pt machine \<times> 'i process, unit fault, (u64 \<times> u64) option) run" where
  "prepare_run ms = (\<lambda>(c, p).
    if \<not> loaded p then Some ((c, p), Inr None)
    else
      let a = cr3 p AND NOT 0xFFF;
          c = c\<lparr>cpu_cr3 := a, curr_pid := pid p\<rparr>
      in lbind
           (if user_stack_top p = 0 then
              let base = stack_top p; start = base - STACK_SIZE
              in lbind (run_on (\<lambda>k. (c\<lparr>mach_kmem := k\<rparr>, p)) (map_stack (ms a) start base (mach_kmem c))) (\<lambda>(c, p) _.
                   if \<not> start < base then Some ((c, p), Inl Panic)
                   else
                     let (sp, mem) = lay_out_stack (argv p) (envp p) (base, umem c a);
                         c = c\<lparr>umem := (umem c)(a := mem)\<rparr>
                     in if \<not> start \<le> sp then Some ((c, p), Inl Panic)
                        else
                          let p = p\<lparr>pstate := (pstate p)\<lparr>rsp := sp, rip := entry_point p + load_bias p\<rparr>, user_stack_top := base\<rparr>
                          in if sp mod 16 \<noteq> 0 then Some ((c, p), Inl Panic) else Some ((c, p), Inr ()))
            else Some ((c, p), Inr ()))
           (\<lambda>(c, p) _. let p = p\<lparr>pstatus := Running\<rparr> in Some ((c, p), Inr (Some (rip (pstate p), rsp (pstate p))))))"

section \<open>Mapping pages\<close>

text \<open>
  What the mapper of the \<open>x86_64\<close> crate promises about frames: entering a page takes at most three
  frames, for the tables of the lower levels, and does not run out while there are three.
\<close>

definition mapper_supply :: "'pt mapper \<Rightarrow> bool" where
  "mapper_supply m \<longleftrightarrow> (\<forall>pt al v p f tf. pa_inv al \<longrightarrow> 3 \<le> card (pa_free al) \<longrightarrow>
     (\<exists>pt' al' e. map_4k m pt al v p f tf = (pt', al', e) \<and> e \<noteq> Some FrameAllocationFailed \<and> pa_inv al'
        \<and> card (pa_free al) \<le> card (pa_free al') + 3))"

lemma flat_mapper_supply: "mapper_supply flat_mapper"
  by (auto simp: mapper_supply_def flat_mapper_def)

definition frames_for :: "nat \<Rightarrow> 'pt kmem \<Rightarrow> bool" where
  "frames_for n k \<longleftrightarrow> (\<exists>al. allocator k = Some al \<and> pa_inv al \<and> 4 * n \<le> card (pa_free al))"

lemma alloc_and_map_supply:
  assumes "mapper_supply m" "frames_for (Suc n) k"
  shows "\<exists>k' p. alloc_and_map m fl k v Arbitrary = (k', Inr p) \<and> frames_for n k'"
proof -
  obtain al where al: "allocator k = Some al" "pa_inv al" "4 * n + 4 \<le> card (pa_free al)"
    using assms(2) by (auto simp: frames_for_def)
  obtain al1 r where r: "page_alloc al Size4KiB None = (al1, r)" by fastforce
  have "r \<noteq> None" using pages.alloc_None [OF al(2)] al(3) r by force
  then obtain p where p: "r = Some p" by auto
  have s: "pa_inv al1" "p \<in> pa_free al" "pa_free al1 = pa_free al - {p}"
    using pages.alloc_Some [OF al(2) r [unfolded p]] by auto
  then have c: "card (pa_free al1) = card (pa_free al) - 1" using pages.finite_free [OF al(2)] by simp
  then have "3 \<le> card (pa_free al1)" using al(3) by simp
  with assms(1) s(1) obtain pt al2 e where
    m: "map_4k m (tables k) al1 v p (fl Arbitrary) (table_flags (fl Arbitrary)) = (pt, al2, e)"
      "e \<noteq> Some FrameAllocationFailed" "pa_inv al2" "card (pa_free al1) \<le> card (pa_free al2) + 3"
    unfolding mapper_supply_def by metis
  have "alloc_and_map m fl k v Arbitrary = (k\<lparr>allocator := Some al2, tables := pt\<rparr>, Inr p)"
    using al(1) r p m(1,2) by (auto simp: alloc_and_map_def allocate_frame_def map_page_def split: option.splits map_to_error.splits)
  moreover have "frames_for n (k\<lparr>allocator := Some al2, tables := pt\<rparr>)"
    using m(3,4) c al(3) by (auto simp: frames_for_def)
  ultimately show ?thesis by blast
qed

lemma map_pages_supply:
  assumes alloc: "\<And>n k a. frames_for (Suc n) k \<Longrightarrow> a < e \<Longrightarrow> \<exists>k' p. alloc k a = (k', Inr p) \<and> frames_for n k'"
    and nxt: "\<And>a. a < e \<Longrightarrow> 4096 dvd unat a \<Longrightarrow> next_addr a = Inr (a + 0x1000)"
    and "unat e = unat a + 4096 * n" "4096 dvd unat a" "frames_for (n + j) k"
  shows "\<exists>k'. map_pages alloc next_addr a e k = Some (k', Inr ()) \<and> frames_for j k'"
  using assms(3-5)
proof (induction n arbitrary: a k)
  case 0
  then have "e = a" by (simp add: word_unat_eq_iff)
  then show ?case using 0 by (simp add: map_pages.simps [of _ _ a])
next
  case (Suc n)
  have lt: "a < e" using Suc.prems(1) by (simp add: word_less_nat_alt)
  obtain k1 p where k1: "alloc k a = (k1, Inr p)" "frames_for (n + j) k1"
    using alloc [OF _ lt, of "n + j" k] Suc.prems(3) by auto
  have u: "unat (a + 0x1000) = unat a + 4096" using Suc.prems(1) unsigned_less [of e, where ?'a = nat] by (simp add: unat_word_ariths)
  have "unat e = unat (a + 0x1000) + 4096 * n" "4096 dvd unat (a + 0x1000)" using Suc.prems(1,2) u by simp_all
  from Suc.IH [OF this k1(2)] show ?case
    using lt k1(1) nxt [OF lt Suc.prems(2)] by (simp add: map_pages.simps [of _ _ a] unwrap_def)
qed

section \<open>The image\<close>

definition seg_addr :: "u64 \<Rightarrow> phdr \<Rightarrow> nat" where
  "seg_addr bias seg = unat bias + unat (ph_vaddr seg)"

definition seg_bytes :: "memory \<Rightarrow> phdr \<Rightarrow> bytes" where
  "seg_bytes img seg = span img (unat (ph_offset seg)) (unat (ph_filesz seg))
     @ replicate (unat (ph_memsz seg) - unat (ph_filesz seg)) 0"

definition seg_ok :: "u64 \<Rightarrow> phdr \<Rightarrow> bool" where
  "seg_ok bias seg \<longleftrightarrow> seg_addr bias seg + unat (ph_memsz seg) + 4096 \<le> 2 ^ 47 \<and> ph_filesz seg \<le> ph_memsz seg"

definition seg_pages :: "u64 \<Rightarrow> phdr \<Rightarrow> nat" where
  "seg_pages bias seg =
    (seg_addr bias seg + unat (ph_memsz seg) + 4095) div 4096 - seg_addr bias seg div 4096"

lemma length_seg_bytes [simp]: "ph_filesz seg \<le> ph_memsz seg \<Longrightarrow> length (seg_bytes img seg) = unat (ph_memsz seg)"
  by (simp add: seg_bytes_def word_le_nat_alt)

lemma canonical_lowI: "unat a < 2 ^ 47 \<Longrightarrow> canonical_addr a"
  by (simp add: canonical_low_iff HIGHER_HALF_BASE_def word_less_nat_alt)

lemma sign_extend_low:
  assumes "unat a < 2 ^ 47"
  shows "scast (ucast a :: 48 word) = (a :: u64)"
proof (rule bit_word_eqI)
  fix n assume n: "n < LENGTH(64)"
  have h: "bit a i \<longleftrightarrow> i < 47 \<and> bit a i" for i using bit_small [OF assms] by blast
  show "bit (scast (ucast a :: 48 word) :: u64) n \<longleftrightarrow> bit a n"
    using n h [of n] h [of 47] by (auto simp: bit_signed_iff bit_unsigned_iff min_def)
qed

lemma unat_low_bits: "unat (a AND 0xFFF) = unat (a :: u64) mod 4096"
proof -
  have "a AND 0xFFF = take_bit 12 a" by (simp add: take_bit_eq_mask mask_eq_exp_minus_1)
  then show ?thesis unfolding \<open>a AND 0xFFF = take_bit 12 a\<close> unsigned_take_bit_eq by (simp add: take_bit_eq_mod)
qed

lemma ceil_div_4096: "(x :: nat) mod 4096 \<noteq> 0 \<Longrightarrow> (x + 4095) div 4096 = x div 4096 + 1"
proof -
  assume r: "x mod 4096 \<noteq> 0"
  have "(x + 4095) div 4096 = (4096 * (x div 4096) + (x mod 4096 + 4095)) div 4096" by simp
  also have "\<dots> = x div 4096 + (x mod 4096 + 4095) div 4096" by (simp only: div_mult_self2 mult.commute add.commute)
  also have "(x mod 4096 + 4095) div 4096 = 1" using r mod_less_divisor [of 4096 x] by (intro div_nat_eqI) simp_all
  finally show ?thesis .
qed

lemma unat_or_low: "unat (a OR 0xFFF) = 4096 * (unat (a :: u64) div 4096) + 4095"
proof -
  have "a OR M = (a AND NOT M) + M" for M
  proof -
    have "(a AND NOT M) AND M = 0" by (simp add: and.assoc)
    then have "(a AND NOT M) + M = (a AND NOT M) OR M" by (rule disjunctive_add_eq_or)
    also have "\<dots> = a OR M" by (rule bit_word_eqI) (auto simp: bit_or_iff bit_and_iff bit_not_iff)
    finally show ?thesis by simp
  qed
  then have "a OR 0xFFF = page_floor a + 0xFFF" unfolding page_floor_def .
  moreover have "unat a div 4096 < 2 ^ 52" using unsigned_less [of a, where ?'a = nat] by (intro less_mult_imp_div_less) simp
  ultimately show ?thesis by (simp add: unat_word_ariths unat_page_floor)
qed

lemma virt_align_up_low:
  assumes "unat a + 4096 \<le> 2 ^ 47"
  shows "\<exists>b. virt_align_up a = Inr b \<and> unat b = 4096 * ((unat a + 4095) div 4096)"
proof (cases "a AND 0xFFF = 0")
  case True
  then have "unat a mod 4096 = 0" using unat_low_bits [of a] by simp
  then have "4096 * ((unat a + 4095) div 4096) = unat a" by auto
  then show ?thesis using True by (simp add: virt_align_up_def)
next
  case False
  let ?b = "(a OR 0xFFF) + 1"
  have r: "unat a mod 4096 \<noteq> 0" using False unat_low_bits [of a] by (metis unat_eq_zero)
  then have d: "(unat a + 4095) div 4096 = unat a div 4096 + 1" by (rule ceil_div_4096)
  have "4096 * (unat a div 4096) < unat a" using r mult_div_mod_eq [of 4096 "unat a"] by linarith
  then have "4096 * (unat a div 4096) + 4096 < 2 ^ 47" using assms by simp
  moreover from this have u: "unat ?b = 4096 * (unat a div 4096) + 4096" by (simp add: unat_word_ariths unat_or_low)
  ultimately have "unat ?b < 2 ^ 47" "?b \<noteq> 0" by (simp, auto)
  then show ?thesis using False u d by (simp add: virt_align_up_def sign_extend_low)
qed

lemma page_span: "4096 * ((x + n + 4095) div 4096) = 4096 * (x div 4096) + 4096 * ((x + n + 4095) div 4096 - x div 4096)"
  for x n :: nat
proof -
  have "x div 4096 \<le> (x + n + 4095) div 4096" by (intro div_le_mono) simp
  then show ?thesis by (simp add: diff_mult_distrib2)
qed

lemma load_segment_image:
  assumes "mapper_supply m" "ph_load seg" "seg_ok bias seg" "frames_for (seg_pages bias seg + j) k"
  shows "\<exists>k'. load_segment m img bias seg (k, mem) = Some ((k', overwrite mem (seg_addr bias seg) (seg_bytes img seg)), Inr ())
    \<and> frames_for j k'"
proof -
  let ?v = "ph_vaddr seg" and ?n = "ph_memsz seg" and ?f = "ph_filesz seg"
  have le: "seg_addr bias seg + unat ?n + 4096 \<le> 2 ^ 47" "unat ?f \<le> unat ?n"
    using assms(3) by (auto simp: seg_ok_def word_le_nat_alt)
  have s: "unat (?v + bias) = seg_addr bias seg" and e: "unat (?v + ?n + bias) = seg_addr bias seg + unat ?n"
    and b: "unat (?v + ?f + bias) = seg_addr bias seg + unat ?f"
    using le by (simp_all add: seg_addr_def unat_word_ariths)
  have c: "canonical_addr (?v + bias)" "canonical_addr (?v + ?n + bias)"
    using s e le by (auto intro!: canonical_lowI)
  obtain pe where pe: "virt_align_up (?v + ?n + bias) = Inr pe"
      "unat pe = 4096 * ((seg_addr bias seg + unat ?n + 4095) div 4096)"
    using virt_align_up_low [of "?v + ?n + bias"] le e by auto
  have pe_low: "unat pe < 2 ^ 47"
  proof -
    have "unat pe \<le> seg_addr bias seg + unat ?n + 4095" unfolding pe(2) by (rule times_div_less_eq_dividend)
    then show ?thesis using le(1) by simp
  qed
  have alloc: "\<exists>k' p. ualloc_page_flags m k a Arbitrary load_flags = (k', Inr p) \<and> frames_for n k'"
    if "frames_for (Suc n) k" for n k a
    unfolding ualloc_page_flags_def by (rule alloc_and_map_supply [OF assms(1) that])
  have nxt: "virt_addr_add a 0x1000 = Inr (a + 0x1000)" if "a < pe" "4096 dvd unat a" for a
  proof -
    have "unat a + 4096 \<le> unat pe" using that pe(2) by (auto simp: word_less_nat_alt elim!: dvdE)
    then have "unat (a + 0x1000) = unat a + 4096" "unat a + 4096 < 2 ^ 47" using pe_low by (simp_all add: unat_word_ariths)
    then show ?thesis by (simp add: virt_addr_add_def virt_addr_new_def canonical_lowI word_less_nat_alt)
  qed
  have "unat pe = unat (page_floor (?v + bias)) + 4096 * seg_pages bias seg"
    unfolding unat_page_floor s pe(2) seg_pages_def by (rule page_span)
  then obtain k' where k': "map_pages (\<lambda>k a. ualloc_page_flags m k a Arbitrary load_flags) (\<lambda>a. virt_addr_add a 0x1000)
      (page_floor (?v + bias)) pe k = Some (k', Inr ())" "frames_for j k'"
    using map_pages_supply [where e = pe and a = "page_floor (?v + bias)" and n = "seg_pages bias seg"
        and alloc = "\<lambda>k a. ualloc_page_flags m k a Arbitrary load_flags" and next_addr = "\<lambda>a. virt_addr_add a 0x1000",
        OF alloc nxt _ _ assms(4)] by (auto simp: unat_page_floor)
  have "unat (?n - ?f) = unat ?n - unat ?f" using le(2) by (intro unat_sub64) (simp add: word_le_nat_alt)
  then have "overwrite (overwrite mem (seg_addr bias seg) (span img (unat (ph_offset seg)) (unat ?f)))
        (seg_addr bias seg + unat ?f) (replicate (unat (?n - ?f)) 0)
      = overwrite mem (seg_addr bias seg) (seg_bytes img seg)"
    using overwrite_append [of mem "seg_addr bias seg" "span img (unat (ph_offset seg)) (unat ?f)"]
    by (simp add: seg_bytes_def)
  then show ?thesis using assms(2) c pe(1) k' s b
    by (simp add: load_segment_def virt_addr_new_def)
qed

lemma load_segments_image:
  assumes "mapper_supply m" "\<forall>seg \<in> set segs. ph_load seg \<longrightarrow> seg_ok bias seg"
    and "frames_for (sum_list (map (\<lambda>seg. if ph_load seg then seg_pages bias seg else 0) segs) + j) k"
  shows "\<exists>k'. load_segments m img bias segs (k, mem) =
      Some ((k', fold (\<lambda>seg mem. overwrite mem (seg_addr bias seg) (seg_bytes img seg)) (filter ph_load segs) mem), Inr ())
    \<and> frames_for j k'"
  using assms(2,3)
proof (induction segs arbitrary: k mem)
  case (Cons seg segs)
  show ?case
  proof (cases "ph_load seg")
    case True
    then have ok: "seg_ok bias seg" using Cons.prems(1) by simp
    have "frames_for (seg_pages bias seg + (sum_list (map (\<lambda>seg. if ph_load seg then seg_pages bias seg else 0) segs) + j)) k"
      using Cons.prems(2) True by (simp add: add.assoc)
    from load_segment_image [OF assms(1) True ok this, of img mem] Cons.IH Cons.prems(1) True show ?thesis by fastforce
  next
    case False
    then show ?thesis using Cons by (simp add: load_segment_def)
  qed
qed simp

text \<open>Segments that do not overlap are all in place afterwards, whatever their order.\<close>

definition segs_apart :: "u64 \<Rightarrow> phdr list \<Rightarrow> bool" where
  "segs_apart bias segs \<longleftrightarrow> sorted_wrt (\<lambda>s t. seg_addr bias s + unat (ph_memsz s) \<le> seg_addr bias t
     \<or> seg_addr bias t + unat (ph_memsz t) \<le> seg_addr bias s) segs"

lemma fold_overwrite_apart:
  assumes "segs_apart bias segs" "\<forall>seg \<in> set segs. ph_filesz seg \<le> ph_memsz seg"
  shows "(\<forall>seg \<in> set segs. span (fold (\<lambda>seg mem. overwrite mem (seg_addr bias seg) (seg_bytes img seg)) segs mem)
           (seg_addr bias seg) (unat (ph_memsz seg)) = seg_bytes img seg)
    \<and> (\<forall>a n. (\<forall>seg \<in> set segs. a + n \<le> seg_addr bias seg \<or> seg_addr bias seg + unat (ph_memsz seg) \<le> a) \<longrightarrow>
         span (fold (\<lambda>seg mem. overwrite mem (seg_addr bias seg) (seg_bytes img seg)) segs mem) a n = span mem a n)"
  using assms
proof (induction segs arbitrary: mem)
  case (Cons seg segs)
  let ?mem = "overwrite mem (seg_addr bias seg) (seg_bytes img seg)"
  have len: "length (seg_bytes img seg) = unat (ph_memsz seg)" using Cons.prems(2) by simp
  have ih: "segs_apart bias segs" "\<forall>seg \<in> set segs. ph_filesz seg \<le> ph_memsz seg"
    using Cons.prems by (auto simp: segs_apart_def)
  have apart: "\<forall>t \<in> set segs. seg_addr bias seg + unat (ph_memsz seg) \<le> seg_addr bias t
      \<or> seg_addr bias t + unat (ph_memsz t) \<le> seg_addr bias seg"
    using Cons.prems(1) by (simp add: segs_apart_def)
  have "span ?mem (seg_addr bias seg) (unat (ph_memsz seg)) = seg_bytes img seg"
    unfolding len [symmetric] by (rule span_overwrite_same)
  moreover have "span ?mem a n = span mem a n" if "a + n \<le> seg_addr bias seg \<or> seg_addr bias seg + unat (ph_memsz seg) \<le> a" for a n
    using that len by (intro span_overwrite_other) simp
  ultimately show ?case using Cons.IH [OF ih, of ?mem] apart by simp
qed simp

section \<open>The stack\<close>

text \<open>Two memories that agree outside a range.\<close>

definition same_outside :: "nat \<Rightarrow> nat \<Rightarrow> memory \<Rightarrow> memory \<Rightarrow> bool" where
  "same_outside lo hi mem mem' \<longleftrightarrow> (\<forall>a. a < lo \<or> hi \<le> a \<longrightarrow> mem' a = mem a)"

lemma same_outside_trans:
  "same_outside lo hi mem mem' \<Longrightarrow> same_outside lo' lo mem' mem'' \<Longrightarrow> lo' \<le> lo \<Longrightarrow> lo \<le> hi \<Longrightarrow> same_outside lo' hi mem mem''"
  by (auto simp: same_outside_def)

lemma same_outside_widen: "same_outside lo hi mem mem' \<Longrightarrow> lo' \<le> lo \<Longrightarrow> hi \<le> hi' \<Longrightarrow> same_outside lo' hi' mem mem'"
  by (auto simp: same_outside_def)

lemma same_outside_overwrite: "same_outside p (p + length bs) mem (overwrite mem p bs)"
  by (auto simp: same_outside_def overwrite_def)

lemma span_same_outside:
  "same_outside lo hi mem mem' \<Longrightarrow> a + n \<le> lo \<or> hi \<le> a \<Longrightarrow> span mem' a n = span mem a n"
  by (rule nth_equalityI) (auto simp: same_outside_def)

lemma words_same_outside:
  "same_outside lo hi mem mem' \<Longrightarrow> hi \<le> a \<Longrightarrow> words_at mem' a vs \<longleftrightarrow> words_at mem a vs"
  unfolding words_at_def by (subst span_same_outside) auto

definition strings_size :: "bytes list \<Rightarrow> nat" where
  "strings_size ss = sum_list (map (\<lambda>s. length s + 1) ss)"

definition strings_at :: "memory \<Rightarrow> nat \<Rightarrow> nat \<Rightarrow> u64 list \<Rightarrow> bytes list \<Rightarrow> bool" where
  "strings_at mem lo hi = list_all2 (\<lambda>ptr s. lo \<le> unat ptr \<and> unat ptr + length s + 1 \<le> hi \<and> span mem (unat ptr) (length s + 1) = s @ [0])"

lemma strings_same_outside:
  assumes "same_outside lo' hi' mem mem'" "hi' \<le> lo" "strings_at mem lo hi ptrs ss"
  shows "strings_at mem' lo hi ptrs ss"
  unfolding strings_at_def
proof (rule list_all2_mono [OF assms(3) [unfolded strings_at_def]])
  fix ptr :: u64 and s :: bytes
  assume "lo \<le> unat ptr \<and> unat ptr + length s + 1 \<le> hi \<and> span mem (unat ptr) (length s + 1) = s @ [0]"
  moreover from this have "span mem' (unat ptr) (length s + 1) = span mem (unat ptr) (length s + 1)"
    using assms(2) by (intro span_same_outside [OF assms(1)]) simp
  ultimately show "lo \<le> unat ptr \<and> unat ptr + length s + 1 \<le> hi \<and> span mem' (unat ptr) (length s + 1) = s @ [0]" by simp
qed

lemma unat_sub_nat: "n \<le> unat sp \<Longrightarrow> unat (sp - of_nat n :: u64) = unat sp - n"
proof -
  assume n: "n \<le> unat sp"
  then have "unat (of_nat n :: u64) = n" using unsigned_less [of sp, where ?'a = nat] by (intro unat_of_nat64) simp
  then show ?thesis using n by (subst unat_sub) (simp_all add: word_le_nat_alt)
qed

lemma push_strings_ok:
  assumes "strings_size ss \<le> unat sp"
  shows "\<exists>ptrs sp' mem'. push_strings ss (sp, mem) = (ptrs, sp', mem') \<and> unat sp' = unat sp - strings_size ss
    \<and> strings_at mem' (unat sp') (unat sp) ptrs ss \<and> same_outside (unat sp') (unat sp) mem mem'"
  using assms
proof (induction ss arbitrary: sp mem)
  case Nil
  then show ?case by (simp add: strings_size_def strings_at_def same_outside_def)
next
  case (Cons s ss)
  let ?sp = "sp - of_nat (length s + 1)" and ?n = "length s + 1"
  have n: "?n \<le> unat sp" "strings_size ss \<le> unat sp - ?n" "strings_size (s # ss) = ?n + strings_size ss"
    using Cons.prems by (simp_all add: strings_size_def)
  have sp: "unat ?sp = unat sp - ?n" by (rule unat_sub_nat [OF n(1)])
  let ?mem = "overwrite mem (unat ?sp) (s @ [0])"
  obtain ptrs sp' mem' where r: "push_strings ss (?sp, ?mem) = (ptrs, sp', mem')" "unat sp' = unat ?sp - strings_size ss"
      "strings_at mem' (unat sp') (unat ?sp) ptrs ss" "same_outside (unat sp') (unat ?sp) ?mem mem'"
    using Cons.IH [of ?sp ?mem] n(2) sp by auto
  have "span mem' (unat ?sp) (length (s @ [0])) = s @ [0]"
    by (rule trans [OF span_same_outside [OF r(4)] span_overwrite_same]) simp
  moreover have "same_outside (unat ?sp) (unat sp) mem ?mem"
    using same_outside_overwrite [of "unat ?sp" "s @ [0]" mem] sp n(1) by simp
  then have "same_outside (unat sp') (unat sp) mem mem'"
    using r(4) by (rule same_outside_trans) (use r(2) sp in auto)
  moreover have "strings_at mem' (unat sp') (unat sp) ptrs ss"
    using r(3) unfolding strings_at_def by (rule list_all2_mono) (use sp in auto)
  ultimately have "strings_at mem' (unat sp') (unat sp) (?sp # ptrs) (s # ss)"
    using r(2) sp n(1) by (simp add: strings_at_def)
  then show ?case using r(1,2) sp n(3) \<open>same_outside (unat sp') (unat sp) mem mem'\<close> by (simp add: Let_def)
qed

lemma push_apply: "push v (sp, mem) = (sp - 8, overwrite mem (unat (sp - 8)) (to_le 8 v))"
  by (simp add: push_def)

lemma push_words_ok:
  assumes "8 * length vs \<le> unat sp"
  shows "\<exists>sp' mem'. fold push vs (sp, mem) = (sp', mem') \<and> unat sp' = unat sp - 8 * length vs
    \<and> words_at mem' (unat sp') (rev vs) \<and> same_outside (unat sp') (unat sp) mem mem'"
  using assms
proof (induction vs arbitrary: sp mem)
  case Nil
  then show ?case by (simp add: same_outside_def)
next
  case (Cons v vs)
  let ?sp = "sp - 8" and ?mem = "overwrite mem (unat (sp - 8)) (to_le 8 v)"
  have sp: "unat ?sp = unat sp - 8" using unat_sub_nat [of 8 sp] Cons.prems by simp
  obtain sp' mem' where r: "fold push vs (?sp, ?mem) = (sp', mem')" "unat sp' = unat ?sp - 8 * length vs"
      "words_at mem' (unat sp') (rev vs)" "same_outside (unat sp') (unat ?sp) ?mem mem'"
    using Cons.IH [of ?sp ?mem] Cons.prems sp by (auto simp: le_diff_conv2)
  have at: "unat sp' + 8 * length (rev vs) = unat ?sp" using r(2) sp Cons.prems by simp
  have "words_at ?mem (unat ?sp) [v]"
    using span_overwrite_same [of mem "unat ?sp" "to_le 8 v"] by (simp add: words_at_def)
  then have "words_at mem' (unat ?sp) [v]" using words_same_outside [OF r(4) order_refl] by blast
  then have "words_at mem' (unat sp') (rev (v # vs))" using r(3) at unfolding rev.simps words_at_append by simp
  moreover have "same_outside (unat ?sp) (unat sp) mem ?mem"
    using same_outside_overwrite [of "unat ?sp" "to_le 8 v" mem] sp Cons.prems by simp
  then have "same_outside (unat sp') (unat sp) mem mem'"
    using r(4) by (rule same_outside_trans) (use r(2) sp in auto)
  moreover have "fold push (v # vs) (sp, mem) = (sp', mem')" "unat sp' = unat sp - 8 * length (v # vs)"
    using r(1,2) sp by (simp_all add: push_apply)
  ultimately show ?case by blast
qed

lemma unat_align_16: "unat (align_16 sp) = 16 * (unat sp div 16)"
proof (induction sp rule: align_16.induct)
  case (1 sp)
  have m: "sp mod 16 = 0 \<longleftrightarrow> unat sp mod 16 = 0" by (simp add: word_unat_eq_iff unat_mod)
  show ?case
  proof (cases "sp mod 16 = 0")
    case True
    then show ?thesis using m by (auto simp: align_16.simps [of sp])
  next
    case False
    then have "sp \<noteq> 0" by auto
    then have "unat (sp - 1) = unat sp - 1" by (rule unat_minus_one)
    moreover have "(unat sp - 1) div 16 = unat sp div 16" using False m by (metis Suc_pred' div_Suc mod_0 not_gr_zero diff_Suc_1 Suc_diff_1 mod_Suc)
    ultimately show ?thesis using 1 [OF False] False by (simp add: align_16.simps [of sp])
  qed
qed

lemma lay_out_stack_words:
  "lay_out_stack args envs s =
    (let (envp_ptrs, s) = push_strings (rev envs) s;
         (argv_ptrs, sp, mem) = push_strings (rev args) s;
         sp = align_16 sp;
         sp = (if (sp - of_nat ((length args + length envs + 3) * 8)) mod 16 \<noteq> 0 then sp - 8 else sp)
     in fold push ([0, 0, 0] @ envp_ptrs @ [0] @ argv_ptrs @ [of_nat (length args)]) (sp, mem))"
  by (simp add: lay_out_stack_def Let_def split_def add.commute add.left_commute)

definition stack_need :: "bytes list \<Rightarrow> bytes list \<Rightarrow> nat" where
  "stack_need args envs = strings_size args + strings_size envs + 8 * (length args + length envs) + 63"

text \<open>
  A stack as the start-up code of a C program expects it: the number of arguments, the pointers to
  them, a null pointer, the pointers to the environment, a null pointer and the empty auxiliary vector.
\<close>

definition stack_image :: "memory \<Rightarrow> u64 \<Rightarrow> bytes list \<Rightarrow> bytes list \<Rightarrow> bool" where
  "stack_image mem sp args envs \<longleftrightarrow> sp mod 16 = 0 \<and> load64 mem sp = of_nat (length args)
     \<and> read_argv mem (sp + 8) (length args) = Some args \<and> load64 mem (sp + 8 + 8 * of_nat (length args)) = 0
     \<and> read_envp mem (sp + 16 + 8 * of_nat (length args)) = Some envs
     \<and> load64 mem (sp + 24 + 8 * of_nat (length args + length envs)) = 0
     \<and> load64 mem (sp + 32 + 8 * of_nat (length args + length envs)) = 0"

lemma cstr_strings_at:
  assumes "strings_at mem lo hi ptrs ss" "\<forall>s \<in> set ss. 0 \<notin> set s" "0 < lo"
  shows "list_all2 (\<lambda>ptr s. cstr mem (unat ptr) = Some s) ptrs ss" "0 \<notin> set ptrs" "length ptrs = length ss"
proof -
  have l: "length ptrs = length ss" "\<And>i. i < length ss \<Longrightarrow> lo \<le> unat (ptrs ! i)
      \<and> span mem (unat (ptrs ! i)) (length (ss ! i) + 1) = ss ! i @ [0]"
    using assms(1) by (auto simp: strings_at_def list_all2_conv_all_nth)
  then show "length ptrs = length ss" by simp
  show "list_all2 (\<lambda>ptr s. cstr mem (unat ptr) = Some s) ptrs ss"
    unfolding list_all2_conv_all_nth using l assms(2) by (auto intro!: cstr_at)
  show "0 \<notin> set ptrs" using l assms(3) by (fastforce simp: in_set_conv_nth)
qed

lemma stack_imageI:
  assumes w: "words_at mem (unat sp) (of_nat (length args) # ap @ [0] @ ep @ [0, 0, 0])"
    and "unat sp + 8 * (length args + length envs + 5) < 2 ^ 64" "sp mod 16 = 0"
    and a: "list_all2 (\<lambda>ptr s. cstr mem (unat ptr) = Some s) ap args" "0 \<notin> set ap" "length ap = length args"
    and e: "list_all2 (\<lambda>ptr s. cstr mem (unat ptr) = Some s) ep envs" "0 \<notin> set ep" "length ep = length envs"
  shows "stack_image mem sp args envs"
proof -
  have off: "unat (sp + 8 * of_nat n) = unat sp + 8 * n" if "n < length args + length envs + 5" for n
  proof -
    have "sp + 8 * of_nat n = of_nat (unat sp + 8 * n)" by simp
    moreover have "unat sp + 8 * n < 2 ^ 64" using assms(2) that by simp
    ultimately show ?thesis by (simp only: unat_of_nat64)
  qed
  have w': "words_at mem (unat sp) [of_nat (length args)]" "words_at mem (unat sp + 8) ap"
      "words_at mem (unat sp + 8 + 8 * length args) [0]" "words_at mem (unat sp + 16 + 8 * length args) (ep @ [0])"
      "words_at mem (unat sp + 24 + 8 * (length args + length envs)) [0]"
      "words_at mem (unat sp + 32 + 8 * (length args + length envs)) [0]"
    using w a(3) e(3) by (simp_all add: algebra_simps)
  have u: "unat (sp + 8) = unat sp + 8" "unat (sp + 8 + 8 * of_nat (length args)) = unat sp + 8 + 8 * length args"
      "unat (sp + 16 + 8 * of_nat (length args)) = unat sp + 16 + 8 * length args"
      "unat (sp + 24 + 8 * of_nat (length args + length envs)) = unat sp + 24 + 8 * (length args + length envs)"
      "unat (sp + 32 + 8 * of_nat (length args + length envs)) = unat sp + 32 + 8 * (length args + length envs)"
    using off [of 1] off [of "1 + length args"] off [of "2 + length args"] off [of "3 + (length args + length envs)"]
      off [of "4 + (length args + length envs)"] by (simp_all add: algebra_simps)
  have "load64 mem sp = of_nat (length args)" using w'(1) by (rule load64_at)
  moreover have "read_argv mem (sp + 8) (length args) = Some args"
    using read_argv_at [of mem "sp + 8" ap args] w'(2) u(1) a assms(2) by simp
  moreover have "load64 mem (sp + 8 + 8 * of_nat (length args)) = 0" using w'(3) unfolding u(2) [symmetric] by (rule load64_at)
  moreover have "read_envp mem (sp + 16 + 8 * of_nat (length args)) = Some envs"
    using read_envp_at [of mem "sp + 16 + 8 * of_nat (length args)" ep envs] w'(4) u(3) e assms(2) by simp
  moreover have "load64 mem (sp + 24 + 8 * of_nat (length args + length envs)) = 0"
    using w'(5) unfolding u(4) [symmetric] by (rule load64_at)
  moreover have "load64 mem (sp + 32 + 8 * of_nat (length args + length envs)) = 0"
    using w'(6) unfolding u(5) [symmetric] by (rule load64_at)
  ultimately show ?thesis using assms(3) unfolding stack_image_def by blast
qed

lemma strings_at_rev: "strings_at mem lo hi ptrs (rev ss) \<Longrightarrow> strings_at mem lo hi (rev ptrs) ss"
  unfolding strings_at_def by (subst list_all2_rev [symmetric]) (simp only: rev_rev_ident)

lemma strings_size_rev [simp]: "strings_size (rev ss) = strings_size ss"
  by (simp add: strings_size_def rev_map [symmetric] sum_list_rev)

text \<open>The adjustment before the pointers makes the final stack pointer a multiple of 16.\<close>

lemma stack_adjust:
  fixes sp :: u64
  assumes "16 dvd unat sp" "8 * n + 24 \<le> unat sp"
  defines "sp' \<equiv> if (sp - of_nat (n * 8)) mod 16 \<noteq> 0 then sp - 8 else sp"
  shows "16 dvd unat sp' - (8 * n + 16)" "unat sp' \<le> unat sp" "unat sp \<le> unat sp' + 8"
proof -
  have "unat (sp - of_nat (n * 8)) = unat sp - 8 * n" using assms(2) unat_sub_nat [of "n * 8" sp] by (simp add: mult.commute)
  then have m: "(sp - of_nat (n * 8)) mod 16 = 0 \<longleftrightarrow> 16 dvd unat sp - 8 * n"
    by (simp add: word_unat_eq_iff unat_mod dvd_eq_mod_eq_0)
  have p: "16 dvd unat sp - 8 * n \<longleftrightarrow> even n" "\<not> even n \<Longrightarrow> 16 dvd unat sp - 8 - (8 * n + 16)"
      "even n \<Longrightarrow> 16 dvd unat sp - (8 * n + 16)"
    using assms(1,2) by presburger+
  have s: "unat (sp - 8) = unat sp - 8" using unat_sub_nat [of 8 sp] assms(2) by simp
  show "16 dvd unat sp' - (8 * n + 16)" "unat sp' \<le> unat sp" "unat sp \<le> unat sp' + 8"
    unfolding sp'_def using m p s by auto
qed

lemma lay_out_stack_ok:
  assumes "stack_need args envs + lo \<le> unat base" "0 < lo" "\<forall>s \<in> set args \<union> set envs. 0 \<notin> set s"
  shows "\<exists>sp mem'. lay_out_stack args envs (base, mem) = (sp, mem') \<and> lo \<le> unat sp \<and> unat sp \<le> unat base
    \<and> stack_image mem' sp args envs \<and> same_outside lo (unat base) mem mem'"
proof -
  define k where "k = length args + length envs + 3"
  have need: "strings_size args + strings_size envs + 8 * k + 39 + lo \<le> unat base"
    using assms(1) by (simp add: stack_need_def k_def algebra_simps)
  obtain ep sp1 m1 where p1: "push_strings (rev envs) (base, mem) = (ep, sp1, m1)" "unat sp1 = unat base - strings_size envs"
      "strings_at m1 (unat sp1) (unat base) ep (rev envs)" "same_outside (unat sp1) (unat base) mem m1"
    using push_strings_ok [of "rev envs" base mem] need by auto
  have n2: "strings_size (rev args) \<le> unat sp1" using need p1(2) by (simp add: le_diff_conv2)
  obtain ap sp2 m2 where p2: "push_strings (rev args) (sp1, m1) = (ap, sp2, m2)" "unat sp2 = unat sp1 - strings_size args"
      "strings_at m2 (unat sp2) (unat sp1) ap (rev args)" "same_outside (unat sp2) (unat sp1) m1 m2"
    using push_strings_ok [OF n2, of m1] by auto
  define sp3 where "sp3 = align_16 sp2"
  have sp3: "16 dvd unat sp3" "unat sp3 \<le> unat sp2" "unat sp2 \<le> unat sp3 + 15"
    unfolding sp3_def unat_align_16 by (simp, simp, presburger)
  define sp4 where "sp4 = (if (sp3 - of_nat (k * 8)) mod 16 \<noteq> 0 then sp3 - 8 else sp3)"
  have "8 * k + 24 \<le> unat sp3" using need p1(2) p2(2) sp3(3) by linarith
  note adj = stack_adjust [OF sp3(1) this, folded sp4_def]
  let ?vs = "[0, 0, 0] @ ep @ [0] @ ap @ [of_nat (length args)]"
  have el: "length ep = length envs" using p1(3) by (simp add: strings_at_def list_all2_lengthD)
  have al: "length ap = length args" using p2(3) by (simp add: strings_at_def list_all2_lengthD)
  have vl: "length ?vs = k + 2" using el al by (simp add: k_def)
  have low: "lo + 8 * k + 16 \<le> unat sp4" using need p1(2) p2(2) sp3(3) adj(3) by linarith
  then have "8 * length ?vs \<le> unat sp4" unfolding vl by simp
  from push_words_ok [OF this, of m2] obtain sp mem' where p3: "fold push ?vs (sp4, m2) = (sp, mem')"
      "unat sp = unat sp4 - (8 * k + 16)" "words_at mem' (unat sp) (rev ?vs)" "same_outside (unat sp) (unat sp4) m2 mem'"
    unfolding vl add_mult_distrib2 by (auto simp: add.commute)
  have r: "lay_out_stack args envs (base, mem) = (sp, mem')"
    unfolding lay_out_stack_words Let_def p1(1) case_prod_conv p2(1) sp3_def [symmetric] k_def [symmetric] sp4_def [symmetric]
    by (rule p3(1))
  have "same_outside (unat sp) (unat sp2) m2 mem'"
    using p3(4) adj(2) sp3(2) by (intro same_outside_widen [OF p3(4)]) simp_all
  then have o2: "same_outside (unat sp) (unat sp1) m1 mem'"
    by (rule same_outside_trans [OF p2(4)]) (use p3(2) adj(2) sp3(2) p2(2) in linarith)+
  then have o1: "same_outside (unat sp) (unat base) mem mem'"
    by (rule same_outside_trans [OF p1(4)]) (use p3(2) adj(2) sp3(2) p2(2) p1(2) in linarith)+
  have "strings_at mem' (unat sp2) (unat sp1) ap (rev args)"
    using adj(2) sp3(2) by (intro strings_same_outside [OF p3(4) _ p2(3)]) simp
  then have sa: "strings_at mem' (unat sp2) (unat sp1) (rev ap) args" by (rule strings_at_rev)
  have "strings_at mem' (unat sp1) (unat base) ep (rev envs)" by (rule strings_same_outside [OF o2 order_refl p1(3)])
  then have se: "strings_at mem' (unat sp1) (unat base) (rev ep) envs" by (rule strings_at_rev)
  have pos: "0 < unat sp2" "0 < unat sp1" using need p1(2) p2(2) by linarith+
  have "16 dvd unat sp" using adj(1) p3(2) by simp
  then have m16: "sp mod 16 = 0" by (simp add: word_unat_eq_iff unat_mod dvd_eq_mod_eq_0)
  have lt: "unat sp + 8 * (length args + length envs + 5) < 2 ^ 64"
    using p3(2) low adj(2) sp3(2) p2(2) p1(2) need unsigned_less [of base, where ?'a = nat] by (simp add: k_def)
  have "stack_image mem' sp args envs"
  proof (rule stack_imageI [OF _ lt m16])
    show "words_at mem' (unat sp) (of_nat (length args) # rev ap @ [0] @ rev ep @ [0, 0, 0])" using p3(3) by simp
  qed (use assms(3) pos cstr_strings_at [OF sa] cstr_strings_at [OF se] in blast)+
  moreover have "same_outside lo (unat base) mem mem'" "lo \<le> unat sp" "unat sp \<le> unat base"
    using o1 low p3(2) adj(2) sp3(2) p2(2) p1(2) by (auto intro: same_outside_widen)
  ultimately show ?thesis using r by blast
qed

section \<open>Starting a program\<close>

lemma fold_max_ge:
  "init \<le> foldl (\<lambda>m ph. if ph_load ph \<and> m < f ph then f ph else m) (init :: u64) phs
   \<and> (ph \<in> set phs \<longrightarrow> ph_load ph \<longrightarrow> f ph \<le> foldl (\<lambda>m ph. if ph_load ph \<and> m < f ph then f ph else m) init phs)"
proof (induction phs arbitrary: init)
  case (Cons p phs)
  let ?i = "if ph_load p \<and> init < f p then f p else init"
  have "init \<le> ?i" "ph_load p \<longrightarrow> f p \<le> ?i" by auto
  then show ?case using Cons.IH [of ?i] by (auto intro: order_trans)
qed simp

lemma image_end_ge:
  assumes "ph \<in> set (elf_phdrs elf)" "ph_load ph" "seg_ok bias ph"
  shows "unat (ph_vaddr ph) + unat (ph_memsz ph) \<le> unat (image_end elf)"
proof -
  have "ph_vaddr ph + ph_memsz ph \<le> image_end elf"
    using fold_max_ge [of 0 "\<lambda>ph. ph_vaddr ph + ph_memsz ph" "elf_phdrs elf" ph] assms(1,2)
    unfolding image_end_def by blast
  moreover have "unat (ph_vaddr ph + ph_memsz ph) = unat (ph_vaddr ph) + unat (ph_memsz ph)"
    using assms(3) by (intro unat_add64) (simp add: seg_ok_def seg_addr_def)
  ultimately show ?thesis by (simp add: word_le_nat_alt)
qed

definition image_pages :: "elf_file \<Rightarrow> nat" where
  "image_pages elf = sum_list (map (\<lambda>seg. if ph_load seg then seg_pages (compute_load_bias elf) seg else 0) (elf_phdrs elf))"

definition elf_ok :: "elf_file \<Rightarrow> bool" where
  "elf_ok elf \<longleftrightarrow> list_all ph_sane (elf_phdrs elf)
     \<and> (\<forall>seg \<in> set (elf_phdrs elf). ph_load seg \<longrightarrow> seg_ok (compute_load_bias elf) seg)
     \<and> segs_apart (compute_load_bias elf) (filter ph_load (elf_phdrs elf))
     \<and> unat (compute_load_bias elf) + unat (image_end elf) + 0x21000 \<le> 2 ^ 47"

definition image_in_place :: "memory \<Rightarrow> memory \<Rightarrow> elf_file \<Rightarrow> bool" where
  "image_in_place img mem elf \<longleftrightarrow> (\<forall>seg \<in> set (elf_phdrs elf). ph_load seg \<longrightarrow>
     span mem (seg_addr (compute_load_bias elf) seg) (unat (ph_memsz seg)) = seg_bytes img seg)"

lemma process_load_image:
  assumes "mapper_supply (ms a)" "a = cr3 p AND NOT 0xFFF" "elf_ok elf" "frames_for (image_pages elf + j) (mach_kmem c)"
  shows "\<exists>k mem. process_load ms img (Some elf) (c, p) =
      Some ((c\<lparr>mach_kmem := k, umem := (umem c)(a := mem)\<rparr>,
        p\<lparr>load_bias := compute_load_bias elf, loaded := True, end_addr := image_end elf, entry_point := elf_entry elf\<rparr>), Inr ())
    \<and> frames_for j k \<and> image_in_place img mem elf"
proof -
  let ?b = "compute_load_bias elf"
  have ok: "list_all ph_sane (elf_phdrs elf)" "\<forall>seg \<in> set (elf_phdrs elf). ph_load seg \<longrightarrow> seg_ok ?b seg"
      "segs_apart ?b (filter ph_load (elf_phdrs elf))"
    using assms(3) by (auto simp: elf_ok_def)
  let ?mem = "fold (\<lambda>seg mem. overwrite mem (seg_addr ?b seg) (seg_bytes img seg)) (filter ph_load (elf_phdrs elf)) (umem c a)"
  obtain k where k: "load_segments (ms a) img ?b (elf_phdrs elf) (mach_kmem c, umem c a) = Some ((k, ?mem), Inr ())"
      "frames_for j k"
    using load_segments_image [OF assms(1) ok(2) assms(4) [unfolded image_pages_def], of img "umem c a"] by (elim exE conjE)
  have "\<forall>seg \<in> set (filter ph_load (elf_phdrs elf)). ph_filesz seg \<le> ph_memsz seg"
    using ok(2) by (auto simp: seg_ok_def)
  from fold_overwrite_apart [OF ok(3) this, of img "umem c a"] have "image_in_place img ?mem elf"
    by (simp add: image_in_place_def)
  moreover have "process_load ms img (Some elf) (c, p) =
      Some ((c\<lparr>mach_kmem := k, umem := (umem c)(a := ?mem)\<rparr>,
        p\<lparr>load_bias := ?b, loaded := True, end_addr := image_end elf, entry_point := elf_entry elf\<rparr>), Inr ())"
    using ok(1) k(1) assms(2) by (simp add: process_load_def internal_load_def Let_def)
  ultimately show ?thesis using k(2) by blast
qed

lemma unat_stack_top:
  assumes "unat (load_bias p) + unat (end_addr p) + 0x21000 \<le> 2 ^ 47"
  shows "unat (stack_top p) < 2 ^ 47" "unat (load_bias p) + unat (end_addr p) + 0x20000 \<le> unat (stack_top p)"
    "4096 dvd unat (stack_top p)"
proof -
  let ?x = "unat (load_bias p) + unat (end_addr p) + 0x20FFF"
  have "unat (load_bias p + end_addr p + STACK_GAP + 0xFFF) = ?x"
    using assms by (simp add: STACK_GAP_def unat_word_ariths)
  then have u: "unat (stack_top p) = 4096 * (?x div 4096)"
    unfolding stack_top_def page_floor_def [symmetric] unat_page_floor by simp
  have "4096 * (?x div 4096) \<le> ?x" "?x < 4096 * (?x div 4096) + 4096"
    using mult_div_mod_eq [of 4096 ?x] mod_less_divisor [of 4096 ?x] by linarith+
  then show "unat (stack_top p) < 2 ^ 47" "unat (load_bias p) + unat (end_addr p) + 0x20000 \<le> unat (stack_top p)"
      "4096 dvd unat (stack_top p)"
    unfolding u using assms by simp_all
qed

lemma map_stack_supply:
  assumes "mapper_supply m" "unat base < 2 ^ 47" "4096 dvd unat base" "0x4000 \<le> unat base" "frames_for 4 k"
  shows "\<exists>k'. map_stack m (base - STACK_SIZE) base k = Some (k', Inr ())"
proof -
  have s: "unat (base - STACK_SIZE) = unat base - 0x4000"
    using assms(4) unat_sub_nat [of "0x4000" base] by (simp add: STACK_SIZE_def)
  have alloc: "\<exists>k' p. (if canonical_addr a then ualloc_page m k a Arbitrary else (k, Inl Panic)) = (k', Inr p) \<and> frames_for n k'"
    if "frames_for (Suc n) k" "a < base" for n k a
  proof -
    have "canonical_addr a" using that(2) assms(2) by (intro canonical_lowI) (simp add: word_less_nat_alt)
    then show ?thesis using alloc_and_map_supply [OF assms(1) that(1)] by (simp add: ualloc_page_def)
  qed
  have "\<exists>k'. map_pages (\<lambda>k a. if canonical_addr a then ualloc_page m k a Arbitrary else (k, Inl Panic)) (\<lambda>a. Inr (a + 0x1000))
      (base - STACK_SIZE) base k = Some (k', Inr ()) \<and> frames_for 0 k'"
  proof (rule map_pages_supply [where n = 4])
    show "4096 dvd unat (base - STACK_SIZE)" unfolding s using assms(3) by (intro dvd_diff_nat) simp_all
  qed (use alloc s assms(4,5) in simp_all)
  then show ?thesis unfolding map_stack_def by blast
qed

lemma prepare_run_stack:
  assumes "mapper_supply (ms a)" "a = cr3 p AND NOT 0xFFF" "loaded p" "user_stack_top p = 0"
    and "unat (load_bias p) + unat (end_addr p) + 0x21000 \<le> 2 ^ 47" "frames_for 4 (mach_kmem c)"
    and "stack_need (argv p) (envp p) \<le> 0x4000" "\<forall>s \<in> set (argv p) \<union> set (envp p). 0 \<notin> set s"
  shows "\<exists>k mem sp. prepare_run ms (c, p) =
      Some ((c\<lparr>cpu_cr3 := a, curr_pid := pid p, mach_kmem := k, umem := (umem c)(a := mem)\<rparr>,
        p\<lparr>pstate := (pstate p)\<lparr>rsp := sp, rip := entry_point p + load_bias p\<rparr>, user_stack_top := stack_top p, pstatus := Running\<rparr>),
        Inr (Some (entry_point p + load_bias p, sp)))
    \<and> stack_image mem sp (argv p) (envp p)
    \<and> same_outside (unat (stack_top p) - 0x4000) (unat (stack_top p)) (umem c a) mem"
proof -
  let ?base = "stack_top p" and ?c = "c\<lparr>cpu_cr3 := a, curr_pid := pid p\<rparr>"
  note t = unat_stack_top [OF assms(5)]
  have s: "unat (?base - STACK_SIZE) = unat ?base - 0x4000"
    using t(2) unat_sub_nat [of "0x4000" ?base] by (simp add: STACK_SIZE_def)
  have lt: "?base - STACK_SIZE < ?base" using s t(2) by (simp add: word_less_nat_alt)
  obtain k where k: "map_stack (ms a) (?base - STACK_SIZE) ?base (mach_kmem c) = Some (k, Inr ())"
    using map_stack_supply [OF assms(1) t(1,3) _ assms(6)] t(2) by auto
  have "stack_need (argv p) (envp p) + (unat ?base - 0x4000) \<le> unat ?base" "0 < unat ?base - 0x4000"
    using assms(7) t(2) by simp_all
  from lay_out_stack_ok [OF this assms(8), of "umem c a"] obtain sp mem where
    l: "lay_out_stack (argv p) (envp p) (?base, umem c a) = (sp, mem)" "unat ?base - 0x4000 \<le> unat sp"
      "stack_image mem sp (argv p) (envp p)" "same_outside (unat ?base - 0x4000) (unat ?base) (umem c a) mem"
    by (elim exE conjE)
  have le: "?base - STACK_SIZE \<le> sp" using l(2) s by (simp add: word_le_nat_alt)
  have m: "sp mod 16 = 0" using l(3) by (simp add: stack_image_def)
  have "prepare_run ms (c, p) =
      Some ((c\<lparr>cpu_cr3 := a, curr_pid := pid p, mach_kmem := k, umem := (umem c)(a := mem)\<rparr>,
        p\<lparr>pstate := (pstate p)\<lparr>rsp := sp, rip := entry_point p + load_bias p\<rparr>, user_stack_top := ?base, pstatus := Running\<rparr>),
        Inr (Some (entry_point p + load_bias p, sp)))"
    using assms(3,4) k lt l(1) le m unfolding assms(2) by (simp add: prepare_run_def Let_def)
  then show ?thesis using l(3,4) by blast
qed

lemma load_and_prepare:
  assumes "mapper_supply (ms a)" "a = cr3 p AND NOT 0xFFF" "elf_ok elf" "user_stack_top p = 0"
    and "frames_for (image_pages elf + 4) (mach_kmem c)"
    and "stack_need (argv p) (envp p) \<le> 0x4000" "\<forall>s \<in> set (argv p) \<union> set (envp p). 0 \<notin> set s"
  shows "\<exists>c1 p1 c2 p2 sp. process_load ms img (Some elf) (c, p) = Some ((c1, p1), Inr ())
    \<and> prepare_run ms (c1, p1) = Some ((c2, p2), Inr (Some (elf_entry elf + compute_load_bias elf, sp)))
    \<and> image_in_place img (umem c2 a) elf \<and> stack_image (umem c2 a) sp (argv p) (envp p)
    \<and> (\<forall>b. b \<noteq> a \<longrightarrow> umem c2 b = umem c b) \<and> cpu_cr3 c2 = a \<and> curr_pid c2 = pid p
    \<and> pstatus p2 = Running \<and> rip (pstate p2) = elf_entry elf + compute_load_bias elf \<and> rsp (pstate p2) = sp
    \<and> pid p2 = pid p \<and> file_handles p2 = file_handles p \<and> curr_proc c2 = curr_proc c"
proof -
  let ?b = "compute_load_bias elf"
  obtain k1 mem1 where l: "process_load ms img (Some elf) (c, p) =
      Some ((c\<lparr>mach_kmem := k1, umem := (umem c)(a := mem1)\<rparr>,
        p\<lparr>load_bias := ?b, loaded := True, end_addr := image_end elf, entry_point := elf_entry elf\<rparr>), Inr ())"
      "frames_for 4 k1" "image_in_place img mem1 elf"
    using process_load_image [where ms = ms and j = 4 and img = img, OF assms(1-3,5)] by (elim exE conjE)
  let ?c1 = "c\<lparr>mach_kmem := k1, umem := (umem c)(a := mem1)\<rparr>"
  let ?p1 = "p\<lparr>load_bias := ?b, loaded := True, end_addr := image_end elf, entry_point := elf_entry elf\<rparr>"
  have e: "unat (load_bias ?p1) + unat (end_addr ?p1) + 0x21000 \<le> 2 ^ 47" using assms(3) by (simp add: elf_ok_def)
  obtain k2 mem2 sp where r: "prepare_run ms (?c1, ?p1) =
      Some ((?c1\<lparr>cpu_cr3 := a, curr_pid := pid ?p1, mach_kmem := k2, umem := (umem ?c1)(a := mem2)\<rparr>,
        ?p1\<lparr>pstate := (pstate ?p1)\<lparr>rsp := sp, rip := entry_point ?p1 + load_bias ?p1\<rparr>, user_stack_top := stack_top ?p1,
          pstatus := Running\<rparr>), Inr (Some (entry_point ?p1 + load_bias ?p1, sp)))"
      "stack_image mem2 sp (argv ?p1) (envp ?p1)"
      "same_outside (unat (stack_top ?p1) - 0x4000) (unat (stack_top ?p1)) (umem ?c1 a) mem2"
    using prepare_run_stack [where ms = ms and p = ?p1 and c = ?c1, OF assms(1) _ _ _ e] assms(2,4,6,7) l(2) by auto
  have "image_in_place img mem2 elf"
    unfolding image_in_place_def
  proof (intro ballI impI)
    fix seg assume seg: "seg \<in> set (elf_phdrs elf)" "ph_load seg"
    then have "seg_ok ?b seg" using assms(3) by (simp add: elf_ok_def)
    from image_end_ge [OF seg this] unat_stack_top(2) [OF e]
    have "seg_addr ?b seg + unat (ph_memsz seg) \<le> unat (stack_top ?p1) - 0x4000" by (simp add: seg_addr_def)
    then have "span mem2 (seg_addr ?b seg) (unat (ph_memsz seg)) = span mem1 (seg_addr ?b seg) (unat (ph_memsz seg))"
      using span_same_outside [OF r(3), of "seg_addr ?b seg" "unat (ph_memsz seg)"] by simp
    then show "span mem2 (seg_addr ?b seg) (unat (ph_memsz seg)) = seg_bytes img seg"
      using l(3) seg by (simp add: image_in_place_def)
  qed
  moreover define c2 where "c2 = ?c1\<lparr>cpu_cr3 := a, curr_pid := pid p, mach_kmem := k2, umem := (umem c)(a := mem2)\<rparr>"
  moreover define p2 where "p2 = ?p1\<lparr>pstate := (pstate p)\<lparr>rsp := sp, rip := elf_entry elf + ?b\<rparr>, user_stack_top := stack_top ?p1,
      pstatus := Running\<rparr>"
  moreover have "prepare_run ms (?c1, ?p1) = Some ((c2, p2), Inr (Some (elf_entry elf + ?b, sp)))"
    unfolding c2_def p2_def using r(1) by simp
  ultimately show ?thesis using l(1) r(2)
    by (intro exI [of _ ?c1] exI [of _ ?p1] exI [of _ c2] exI [of _ p2] exI [of _ sp]) simp
qed

text \<open>
  C6: a program starts as it was linked. Given an ELF file whose segments fit in the user half and do not
  overlap, arguments and an environment that fit in the stack of 16 KiB, and enough free frames,
  \<open>load\<close> followed by \<open>prepare_run\<close> returns the entry point and a stack pointer that is a multiple of
  16; every segment is in memory at its address with the rest of its memory zero; the stack holds
  \<open>argc\<close>, the argument and the environment pointers, each array ended by a null pointer, and reading the
  strings back through them gives the arguments and the environment; the descriptors are kept, and no other
  address space has changed.
\<close>

theorem program_starts:
  assumes "mapper_supply (ms a)" "a = cr3 p AND NOT 0xFFF" "elf_ok elf" "user_stack_top p = 0"
    and "frames_for (image_pages elf + 4) (mach_kmem c)"
    and "stack_need (argv p) (envp p) \<le> 0x4000" "\<forall>s \<in> set (argv p) \<union> set (envp p). 0 \<notin> set s"
  shows "\<exists>c1 p1 c2 p2 sp. process_load ms img (Some elf) (c, p) = Some ((c1, p1), Inr ())
    \<and> prepare_run ms (c1, p1) = Some ((c2, p2), Inr (Some (elf_entry elf + compute_load_bias elf, sp)))
    \<and> image_in_place img (umem c2 a) elf \<and> stack_image (umem c2 a) sp (argv p) (envp p)
    \<and> (\<forall>b. b \<noteq> a \<longrightarrow> umem c2 b = umem c b) \<and> cpu_cr3 c2 = a \<and> curr_pid c2 = pid p
    \<and> pstatus p2 = Running \<and> rip (pstate p2) = elf_entry elf + compute_load_bias elf \<and> rsp (pstate p2) = sp
    \<and> pid p2 = pid p \<and> file_handles p2 = file_handles p \<and> curr_proc c2 = curr_proc c"
  by (rule load_and_prepare [where ms = ms and a = a and img = img, OF assms])

text \<open>A machine with 24 free frames, and a program of one segment with 3 bytes of data and 5 of zeros.\<close>

definition sample_machine :: "(u64 \<Rightarrow> u64 option) machine" where
  "sample_machine = \<lparr>mach_kmem = \<lparr>allocator = Some (initialize [(0x1000, 98304)]), tables = (\<lambda>_. None), dma_base = 0\<rparr>,
     umem = (\<lambda>_ _. 0xCC), cpu_cr3 = 0x1000, curr_pid = 0, curr_proc = None\<rparr>"

definition sample_elf :: elf_file where
  "sample_elf = \<lparr>elf_shared = True, elf_entry = 0x1001,
     elf_phdrs = [\<lparr>ph_load = True, ph_offset = 2, ph_vaddr = 0x1000, ph_filesz = 3, ph_memsz = 8, ph_sane = True\<rparr>]\<rparr>"

lemma sample_frames: "pa_inv (initialize [(0x1000, 98304)])" "24 \<le> card (pa_free (initialize [(0x1000, 98304)]))"
proof -
  have m: "memory_map_ok [(0x1000, 98304)]" by (simp add: region_ok_def)
  show inv: "pa_inv (initialize [(0x1000, 98304)])" by (rule initialize_sets [OF m])
  let ?f = "\<lambda>i. of_nat (4096 * i) :: u64"
  have u: "unat (?f i) = 4096 * i" if "i \<in> {1..24}" for i using that by (intro unat_of_nat64) simp
  have i: "inj_on ?f {1..24}"
  proof (rule inj_onI)
    fix x y :: nat assume xy: "x \<in> {1..24}" "y \<in> {1..24}" "?f x = ?f y"
    have "4096 * x = unat (?f x)" by (rule u [OF xy(1), symmetric])
    also have "\<dots> = 4096 * y" unfolding xy(3) by (rule u [OF xy(2)])
    finally show "x = y" by simp
  qed
  have "?f ` {1..24} \<subseteq> region_frames (0x1000, 98304)"
  proof
    fix f assume "f \<in> ?f ` {1..24}"
    then obtain i where "f = ?f i" "i \<in> {1..24}" by blast
    then have "unat f = 4096 * i" "i \<in> {1..24}" using u by simp_all
    then show "f \<in> region_frames (0x1000, 98304)" by (simp add: region_frames_def)
  qed
  then have "?f ` {1..24} \<subseteq> pa_free (initialize [(0x1000, 98304)])" using initialize_sets(3) [OF m] by auto
  from card_mono [OF pages.finite_free [OF inv] this]
  show "24 \<le> card (pa_free (initialize [(0x1000, 98304)]))" unfolding card_image [OF i] by simp
qed

theorem program_starts_witness:
  "\<exists>c1 p1 c2 p2 sp. process_load (\<lambda>_. flat_mapper) (\<lambda>i. of_nat i) (Some sample_elf)
      (sample_machine, sample_process\<lparr>argv := [[115, 104], [120]], envp := [[65, 61, 49]]\<rparr>) = Some ((c1, p1), Inr ())
    \<and> prepare_run (\<lambda>_. flat_mapper) (c1, p1) = Some ((c2, p2), Inr (Some (0x401001, sp)))
    \<and> span (umem c2 0x7000) 0x401000 8 = [2, 3, 4, 0, 0, 0, 0, 0]
    \<and> stack_image (umem c2 0x7000) sp [[115, 104], [120]] [[65, 61, 49]]"
proof -
  let ?p = "sample_process\<lparr>argv := [[115, 104], [120]], envp := [[65, 61, 49]]\<rparr>"
  have a: "0x7000 = cr3 ?p AND NOT 0xFFF" by (simp add: sample_process_def)
  have e: "elf_ok sample_elf"
    by (simp add: elf_ok_def sample_elf_def compute_load_bias_def DEFAULT_USER_BASE_def seg_ok_def seg_addr_def
        segs_apart_def image_end_def)
  have pg: "image_pages sample_elf = 1"
    by (simp add: image_pages_def sample_elf_def seg_pages_def seg_addr_def compute_load_bias_def DEFAULT_USER_BASE_def)
  have f: "frames_for (image_pages sample_elf + 4) (mach_kmem sample_machine)"
    using sample_frames unfolding pg by (auto simp: frames_for_def sample_machine_def)
  have n: "stack_need (argv ?p) (envp ?p) \<le> 0x4000" by (simp add: stack_need_def strings_size_def)
  have z: "\<forall>s \<in> set (argv ?p) \<union> set (envp ?p). 0 \<notin> set s" by simp
  have t: "user_stack_top ?p = 0" by (simp add: sample_process_def)
  have b: "elf_entry sample_elf + compute_load_bias sample_elf = 0x401001"
    by (simp add: sample_elf_def compute_load_bias_def DEFAULT_USER_BASE_def)
  have bs: "seg_bytes (\<lambda>i. of_nat i) (hd (elf_phdrs sample_elf)) = [2, 3, 4, 0, 0, 0, 0, 0]" by code_simp
  have i: "image_in_place (\<lambda>i. of_nat i) mem sample_elf \<Longrightarrow> span mem 0x401000 8 = [2, 3, 4, 0, 0, 0, 0, 0]" for mem
    unfolding bs [symmetric]
    by (simp add: image_in_place_def sample_elf_def seg_addr_def compute_load_bias_def DEFAULT_USER_BASE_def)
  show ?thesis
    using program_starts [where ms = "\<lambda>_. flat_mapper" and img = "\<lambda>i. of_nat i", OF flat_mapper_supply a e t f n z]
      i unfolding b by auto
qed

end
