(* ===== verification/Scheduler.thy ===== *)
theory Scheduler
  imports Loader
begin

text \<open>
  The scheduler, \<open>zenos-kernel/src/process/scheduler/mod.rs\<close>, and the process list of
  \<open>zenos-kernel/src/process/mod.rs\<close>.  The per-CPU pointer to the current process points into the process
  list, so it is an index.  The counter \<open>times_scheduled\<close> exists in the debug profile only.
\<close>

section \<open>The kernel state\<close>

record scheduler =
  sched_current :: "u64 option"
  quantum :: u64
  sched_time :: u64

record ('pt, 'i) kernel =
  mach :: "'pt machine"
  procs :: "'i process list"
  sched :: scheduler
  lock_flags :: "nat \<Rightarrow> bool"
  kshared :: "'i shared"

text \<open>The kernel selectors, the idle loop and its stack, and the floating-point state of a fresh context.\<close>

record idle_task =
  idle_cs :: u64
  idle_ss :: u64
  idle_rip :: u64
  idle_rsp :: u64
  idle_fx :: bytes

definition PROCESSES_MAX :: nat where "PROCESSES_MAX = 256"

definition scheduler_new :: scheduler where
  "scheduler_new = \<lparr>sched_current = None, quantum = 5, sched_time = 0\<rparr>"

definition set_current :: "u64 \<Rightarrow> nat \<Rightarrow> ('pt, 'i) kernel \<Rightarrow> ('pt, 'i) kernel" where
  "set_current p proc_ptr k =
    k\<lparr>sched := (sched k)\<lparr>sched_current := Some p\<rparr>, mach := (mach k)\<lparr>curr_pid := p, curr_proc := Some proc_ptr\<rparr>\<rparr>"

definition force_reschedule :: "scheduler \<Rightarrow> scheduler" where
  "force_reschedule s = s\<lparr>sched_time := quantum s\<rparr>"

definition current_proc :: "('pt, 'i) kernel \<Rightarrow> 'i process option" where
  "current_proc k = Option.bind (curr_proc (mach k)) (\<lambda>i. if i < length (procs k) then Some (procs k ! i) else None)"

definition idle_state :: "idle_task \<Rightarrow> process_state" where
  "idle_state t = (default_state (idle_fx t))
     \<lparr>rflags := 0x202, cs_sel := idle_cs t, ss_sel := idle_ss t, rip := idle_rip t, rsp := idle_rsp t\<rparr>"

definition create_idle_task :: "idle_task \<Rightarrow> 'i \<Rightarrow> ('pt, 'i) kernel \<Rightarrow> ('pt, 'i) kernel \<times> (unit fault, unit) result" where
  "create_idle_task t root k =
    (if PROCESSES_MAX \<le> length (procs k) then (k, Inl Panic)
     else (k\<lparr>procs := procs k @
        [\<lparr>pid = 0, parent_pid = 0, proc_name = ''[kidle]'', pstate = idle_state t, pstatus = Ready, cr3 = cpu_cr3 (mach k),
          end_addr = 0, entry_point = idle_rip t, file_handles = [], cwd = root, load_bias = 0, loaded = True,
          user_stack_top = idle_rsp t, exit_code = None, envp = [], argv = [], priority = 255\<rparr>]\<rparr>, Inr ()))"

section \<open>Scheduling\<close>

fun update_first :: "('a \<Rightarrow> bool) \<Rightarrow> ('a \<Rightarrow> 'a) \<Rightarrow> 'a list \<Rightarrow> 'a list" where
  "update_first P f [] = []"
| "update_first P f (x # xs) = (if P x then f x # xs else x # update_first P f xs)"

fun list_position :: "('a \<Rightarrow> bool) \<Rightarrow> 'a list \<Rightarrow> nat option" where
  "list_position P [] = None"
| "list_position P (x # xs) = (if P x then Some 0 else map_option Suc (list_position P xs))"

definition list_remove :: "nat \<Rightarrow> 'a list \<Rightarrow> 'a list" where
  "list_remove i xs = take i xs @ drop (Suc i) xs"

definition suspend :: "process_state \<Rightarrow> 'i process \<Rightarrow> 'i process" where
  "suspend ctx p =
    (case pstatus p of
       Running \<Rightarrow> (save_context ctx p)\<lparr>pstatus := Ready\<rparr>
     | Blocked _ \<Rightarrow> save_context ctx p
     | _ \<Rightarrow> p)"

definition save_current :: "process_state \<Rightarrow> ('pt, 'i) kernel \<Rightarrow> 'i process list" where
  "save_current ctx k =
    (case sched_current (sched k) of
       Some c \<Rightarrow> update_first (\<lambda>p. pid p = c) (suspend ctx) (procs k)
     | None \<Rightarrow> procs k)"

record scan_state =
  best_idx :: "nat option"
  best_priority :: u8
  reap_idx :: "nat option"
  wake_idx :: "(nat \<times> u64) option"

text \<open>A process whose wait is over: the exit code it is woken with and the place of the process it waited for.\<close>

definition waking :: "'i process list \<Rightarrow> 'i process \<Rightarrow> (u64 \<times> nat option) option" where
  "waking ps p =
    (case pstatus p of
       WaitingFor target \<Rightarrow>
         (let target_idx = list_position (\<lambda>t. pid t = target) ps;
              ec = Option.bind target_idx (\<lambda>i. exit_code (ps ! i))
          in if ec \<noteq> None \<or> target_idx = None then Some (case ec of Some c \<Rightarrow> c | None \<Rightarrow> - 1, target_idx) else None)
     | _ \<Rightarrow> None)"

definition unblocked :: "(nat \<Rightarrow> bool) \<Rightarrow> 'i process \<Rightarrow> bool" where
  "unblocked flags p = (case pstatus p of Blocked f \<Rightarrow> \<not> flags f | _ \<Rightarrow> False)"

definition scan_step :: "(nat \<Rightarrow> bool) \<Rightarrow> 'i process list \<Rightarrow> nat \<times> 'i process \<Rightarrow> scan_state \<Rightarrow> scan_state" where
  "scan_step flags ps = (\<lambda>(i, p) sc.
    case waking ps p of
      Some (ec, target_idx) \<Rightarrow>
        (if priority p < best_priority sc
         then sc\<lparr>best_priority := priority p, best_idx := Some i, wake_idx := Some (i, ec), reap_idx := target_idx\<rparr>
         else sc)
    | None \<Rightarrow>
        (if unblocked flags p then
           (if priority p < best_priority sc then sc\<lparr>best_priority := priority p, best_idx := Some i\<rparr> else sc)
         else if status_eq flags (pstatus p) Ready \<and> priority p < best_priority sc
         then sc\<lparr>best_priority := priority p, best_idx := Some i\<rparr>
         else sc))"

definition scan :: "(nat \<Rightarrow> bool) \<Rightarrow> 'i process list \<Rightarrow> scan_state" where
  "scan flags ps = fold (scan_step flags ps) (enumerate 0 ps)
     \<lparr>best_idx = None, best_priority = 255, reap_idx = None, wake_idx = None\<rparr>"

text \<open>\<open>unlocked\<close> says whether \<open>try_lock\<close> gets the process list.\<close>

definition schedule ::
  "idle_task \<Rightarrow> bool \<Rightarrow> process_state \<Rightarrow> ('pt, 'i) kernel \<Rightarrow> ('pt, 'i) kernel \<times> (u64 \<times> u64 \<times> process_state) option" where
  "schedule t unlocked ctx k =
    (if sched_time (sched k) \<le> quantum (sched k) then
       if \<not> unlocked then (k, None)
       else
         let ps = save_current ctx k
         in if ps = [] then (k\<lparr>procs := ps\<rparr>, None)
            else
              let sc = scan (lock_flags k) ps
              in case best_idx sc of
                   None \<Rightarrow> (k\<lparr>procs := ps\<rparr>, Some (0, cpu_cr3 (mach k), idle_state t))
                 | Some b \<Rightarrow>
                     (let ps = (case wake_idx sc of
                            Some (_, ec) \<Rightarrow> ps[b := (ps ! b)\<lparr>pstate := (pstate (ps ! b))\<lparr>rax := ec\<rparr>\<rparr>]
                          | None \<Rightarrow> ps);
                          next_proc = ps ! b;
                          ps = ps[b := next_proc\<lparr>pstatus := Running\<rparr>];
                          k = set_current (pid next_proc) b k;
                          ps = (case reap_idx sc of Some i \<Rightarrow> list_remove i ps | None \<Rightarrow> ps)
                      in (k\<lparr>procs := ps, sched := (sched k)\<lparr>sched_time := 0\<rparr>\<rparr>,
                          Some (pid next_proc, cr3 next_proc, pstate next_proc)))
     else (k\<lparr>sched := (sched k)\<lparr>sched_time := sched_time (sched k) + 1\<rparr>\<rparr>, None))"

section \<open>The process that runs next\<close>

definition runnable :: "(nat \<Rightarrow> bool) \<Rightarrow> 'i process list \<Rightarrow> 'i process \<Rightarrow> bool" where
  "runnable flags ps p \<longleftrightarrow> waking ps p \<noteq> None \<or> unblocked flags p \<or> pstatus p = Ready"

text \<open>The first of the runnable processes of the least priority number, which must be below 255.\<close>

definition selected :: "(nat \<Rightarrow> bool) \<Rightarrow> 'i process list \<Rightarrow> nat \<Rightarrow> bool" where
  "selected flags ps b \<longleftrightarrow> b < length ps \<and> runnable flags ps (ps ! b) \<and> priority (ps ! b) < 255
     \<and> (\<forall>j < length ps. runnable flags ps (ps ! j) \<longrightarrow> priority (ps ! b) \<le> priority (ps ! j))
     \<and> (\<forall>j < b. runnable flags ps (ps ! j) \<longrightarrow> priority (ps ! b) < priority (ps ! j))"

lemma status_eq_Ready: "status_eq flags s Ready \<longleftrightarrow> s = Ready"
  by (cases s) simp_all

text \<open>What the scan has found after the first \<open>n\<close> processes.\<close>

definition scan_inv :: "(nat \<Rightarrow> bool) \<Rightarrow> 'i process list \<Rightarrow> nat \<Rightarrow> scan_state \<Rightarrow> bool" where
  "scan_inv flags ps n sc \<longleftrightarrow>
     (\<forall>j < n. runnable flags ps (ps ! j) \<longrightarrow> best_priority sc \<le> priority (ps ! j))
     \<and> (case best_idx sc of
          None \<Rightarrow> best_priority sc = 255
        | Some b \<Rightarrow> b < n \<and> runnable flags ps (ps ! b) \<and> priority (ps ! b) = best_priority sc \<and> best_priority sc < 255
            \<and> (\<forall>j < b. runnable flags ps (ps ! j) \<longrightarrow> best_priority sc < priority (ps ! j))
            \<and> (\<forall>ec ti. waking ps (ps ! b) = Some (ec, ti) \<longrightarrow> wake_idx sc = Some (b, ec) \<and> reap_idx sc = ti))
     \<and> ((\<forall>j < n. waking ps (ps ! j) = None) \<longrightarrow> wake_idx sc = None \<and> reap_idx sc = None)"

lemma below_255: "a < b \<Longrightarrow> a < (255 :: u8)"
  using unsigned_less [of b, where ?'a = nat] by (simp add: word_less_nat_alt)

lemma scan_step_inv:
  assumes "scan_inv flags ps n sc" "n < length ps"
  shows "scan_inv flags ps (Suc n) (scan_step flags ps (n, ps ! n) sc)"
proof -
  let ?p = "ps ! n" and ?sc = "scan_step flags ps (n, ps ! n) sc"
  consider (keep) "?sc = sc" "runnable flags ps ?p \<longrightarrow> best_priority sc \<le> priority ?p"
    | (wake) ec ti where "waking ps ?p = Some (ec, ti)" "priority ?p < best_priority sc"
        "?sc = sc\<lparr>best_priority := priority ?p, best_idx := Some n, wake_idx := Some (n, ec), reap_idx := ti\<rparr>"
    | (better) "waking ps ?p = None" "priority ?p < best_priority sc" "runnable flags ps ?p"
        "?sc = sc\<lparr>best_priority := priority ?p, best_idx := Some n\<rparr>"
  proof (cases "waking ps ?p")
    case None
    show thesis
    proof (cases "runnable flags ps ?p \<and> priority ?p < best_priority sc")
      case True
      then show thesis using None by (intro better) (auto simp: scan_step_def runnable_def status_eq_Ready)
    next
      case False
      then show thesis using None by (intro keep) (auto simp: scan_step_def runnable_def status_eq_Ready not_less)
    qed
  next
    case (Some w)
    obtain ec ti where "w = (ec, ti)" by (cases w)
    then show thesis using Some keep wake [of ec ti] by (cases "priority ?p < best_priority sc") (auto simp: scan_step_def not_less)
  qed
  then show ?thesis
  proof cases
    case keep
    then show ?thesis using assms(1) by (auto simp: scan_inv_def less_Suc_eq split: option.splits)
  next
    case wake
    then show ?thesis using assms(1) below_255 [OF wake(2)] by (auto simp: scan_inv_def less_Suc_eq runnable_def split: option.splits)
  next
    case better
    then show ?thesis using assms(1) below_255 [OF better(2)] by (auto simp: scan_inv_def less_Suc_eq split: option.splits)
  qed
qed

lemma scan_prefix_inv:
  "n \<le> length ps \<Longrightarrow> scan_inv flags ps n (fold (scan_step flags ps) (take n (enumerate 0 ps))
     \<lparr>best_idx = None, best_priority = 255, reap_idx = None, wake_idx = None\<rparr>)"
proof (induction n)
  case 0
  then show ?case by (simp add: scan_inv_def)
next
  case (Suc n)
  have "take (Suc n) (enumerate 0 ps) = take n (enumerate 0 ps) @ [(n, ps ! n)]"
    using Suc.prems by (simp add: take_Suc_conv_app_nth nth_enumerate_eq)
  then show ?case using scan_step_inv [of flags ps n] Suc by simp
qed

lemma scan_result: "scan_inv flags ps (length ps) (scan flags ps)"
  using scan_prefix_inv [of "length ps" ps flags] by (simp add: scan_def)

lemma scan_selected: "best_idx (scan flags ps) = Some b \<Longrightarrow> selected flags ps b"
  using scan_result [of flags ps] by (auto simp: scan_inv_def selected_def)

lemma scan_none:
  assumes "best_idx (scan flags ps) = None" "p \<in> set ps" "runnable flags ps p"
  shows "priority p = 255"
proof -
  obtain j where "j < length ps" "p = ps ! j" using assms(2) by (auto simp: in_set_conv_nth)
  then have "255 \<le> priority p" using scan_result [of flags ps] assms(1,3) by (auto simp: scan_inv_def)
  moreover have "unat (priority p) \<le> 255" using unsigned_less [of "priority p", where ?'a = nat] by simp
  ultimately show ?thesis by (simp add: word_le_nat_alt word_unat_eq_iff)
qed

lemma schedule_best:
  assumes "sched_time (sched k) \<le> quantum (sched k)" "ps = save_current ctx k" "sc = scan (lock_flags k) ps" "best_idx sc = Some b"
    and "st = (case wake_idx sc of Some (_, ec) \<Rightarrow> (pstate (ps ! b))\<lparr>rax := ec\<rparr> | None \<Rightarrow> pstate (ps ! b))"
    and "q = (ps ! b)\<lparr>pstate := st, pstatus := Running\<rparr>"
  shows "schedule t True ctx k =
    ((set_current (pid q) b k)\<lparr>procs := (case reap_idx sc of Some i \<Rightarrow> list_remove i (ps[b := q]) | None \<Rightarrow> ps[b := q]),
        sched := (sched k)\<lparr>sched_current := Some (pid q), sched_time := 0\<rparr>\<rparr>, Some (pid q, cr3 q, st))"
proof -
  have "b < length ps" using scan_selected [of "lock_flags k" ps b] assms(3,4) by (simp add: selected_def)
  then show ?thesis using assms by (auto simp: schedule_def set_current_def Let_def split: option.splits)
qed


definition sample_kernel :: "nat process list \<Rightarrow> u64 \<Rightarrow> (u64 \<Rightarrow> u64 option, nat) kernel" where
  "sample_kernel ps c = \<lparr>mach = sample_machine, procs = ps, sched = scheduler_new\<lparr>sched_current := Some c\<rparr>,
     lock_flags = (\<lambda>_. False), kshared = sample_shared\<rparr>"

definition sample_idle :: idle_task where
  "sample_idle = \<lparr>idle_cs = 8, idle_ss = 16, idle_rip = 0x9000, idle_rsp = 0xA000, idle_fx = []\<rparr>"

definition sample_waiter :: "nat process" where
  "sample_waiter = sample_process\<lparr>pid := 1, pstatus := WaitingFor 2\<rparr>"

definition sample_zombie :: "nat process" where
  "sample_zombie = sample_process\<lparr>pid := 2, pstatus := Exited, exit_code := Some 7\<rparr>"

definition sample_ready :: "u8 \<Rightarrow> nat process" where
  "sample_ready prio = sample_process\<lparr>pid := 3, priority := prio\<rparr>"

lemma sample_fields [simp]:
  "pid sample_waiter = 1" "pid sample_zombie = 2" "pid (sample_ready n) = 3"
  "pstatus sample_waiter = WaitingFor 2" "pstatus sample_zombie = Exited" "pstatus (sample_ready n) = Ready"
  "priority sample_waiter = 15" "priority sample_zombie = 15" "priority (sample_ready n) = n"
  "exit_code sample_waiter = None" "exit_code sample_zombie = Some 7" "cr3 sample_waiter = 0x7000"
  by (simp_all add: sample_waiter_def sample_zombie_def sample_ready_def sample_process_def DEFAULT_PRIORITY_def)

lemma sample_kernel_fields [simp]:
  "procs (sample_kernel ps c) = ps" "sched_current (sched (sample_kernel ps c)) = Some c"
  "lock_flags (sample_kernel ps c) = (\<lambda>_. False)"
  "sched_time (sched (sample_kernel ps c)) = 0" "quantum (sched (sample_kernel ps c)) = 5"
  by (simp_all add: sample_kernel_def scheduler_new_def)


section \<open>One process runs at a time\<close>

definition sched_inv :: "('pt, 'i) kernel \<Rightarrow> bool" where
  "sched_inv k \<longleftrightarrow> distinct (map pid (procs k))
     \<and> (\<forall>p \<in> set (procs k). pstatus p = Running \<longrightarrow> sched_current (sched k) = Some (pid p))"

lemma update_first_map: "(\<And>x. g (f x) = g x) \<Longrightarrow> map g (update_first P f xs) = map g xs"
  by (induction xs) auto

lemma pid_suspend [simp]: "pid (suspend ctx p) = pid p"
  by (simp add: suspend_def save_context_def split: process_status.splits)

lemma suspend_not_running: "pstatus (suspend ctx p) \<noteq> Running"
  by (simp add: suspend_def save_context_def split: process_status.splits)

lemma save_current_pids: "map pid (save_current ctx k) = map pid (procs k)"
  by (simp add: save_current_def update_first_map split: option.splits)

lemma update_first_cases:
  "p \<in> set (update_first P f xs) \<Longrightarrow> (p \<in> set xs \<and> (distinct (map g xs) \<longrightarrow> (\<forall>x \<in> set xs. P x \<longleftrightarrow> g x = c) \<longrightarrow> \<not> P p))
     \<or> (\<exists>x \<in> set xs. P x \<and> p = f x)"
proof (induction xs)
  case (Cons x xs)
  show ?case
  proof (cases "P x")
    case True
    then show ?thesis using Cons.prems by (fastforce simp: image_iff)
  next
    case False
    then show ?thesis using Cons by auto
  qed
qed simp

lemma save_current_not_running:
  assumes "sched_inv k" "p \<in> set (save_current ctx k)"
  shows "pstatus p \<noteq> Running"
proof (cases "sched_current (sched k)")
  case None
  then show ?thesis using assms by (auto simp: save_current_def sched_inv_def)
next
  case (Some c)
  then have "p \<in> set (update_first (\<lambda>p. pid p = c) (suspend ctx) (procs k))" using assms(2) by (simp add: save_current_def)
  from update_first_cases [OF this, of pid c] consider "p \<in> set (procs k)" "pid p \<noteq> c" | x where "p = suspend ctx x"
    using assms(1) by (auto simp: sched_inv_def)
  then show ?thesis using assms(1) Some suspend_not_running by cases (auto simp: sched_inv_def)
qed

lemma set_list_remove: "set (list_remove i xs) \<subseteq> set xs"
  by (auto simp: list_remove_def dest: in_set_takeD in_set_dropD)

lemma distinct_list_remove: "distinct (map f xs) \<Longrightarrow> distinct (map f (list_remove i xs))"
proof -
  assume d: "distinct (map f xs)"
  have "map f xs = map f (take i xs) @ map f (drop i xs)" by (simp flip: map_append)
  then have "distinct (map f (take i xs) @ map f (drop i xs))" using d by simp
  moreover have "set (drop (Suc i) xs) \<subseteq> set (drop i xs)" by (rule set_drop_subset_set_drop) simp
  moreover have "distinct (map f (drop (Suc i) xs))" using d by (metis distinct_drop drop_map)
  ultimately show ?thesis by (auto simp: list_remove_def)
qed

lemma sched_invI:
  assumes "distinct (map pid ps)" "\<forall>p \<in> set ps. pstatus p \<noteq> Running" "b < length ps" "pid q = pid (ps ! b)"
    and "procs k = (case ri of Some i \<Rightarrow> list_remove i (ps[b := q]) | None \<Rightarrow> ps[b := q])" "sched_current (sched k) = Some (pid q)"
  shows "sched_inv k"
proof -
  have "map pid (ps[b := q]) = map pid ps" using assms(3,4) by (simp add: map_update list_update_same_conv)
  then have d: "distinct (map pid (ps[b := q]))" using assms(1) by simp
  have "pstatus p = Running \<longrightarrow> p = q" if "p \<in> set (ps[b := q])" for p
    using that assms(2) set_update_subset_insert [of ps b q] by auto
  then show ?thesis using d assms(5,6) set_list_remove [of _ "ps[b := q]"] distinct_list_remove [OF d]
    by (auto simp: sched_inv_def split: option.splits)
qed

text \<open>
  C13: one process runs at a time. With distinct process numbers, if the only process marked as running
  is the current one, then the same holds after \<open>schedule\<close>, whatever it decides: the context switch
  never leaves two processes marked as running.
\<close>

theorem schedule_keeps_inv:
  assumes "sched_inv k" "schedule t unlocked ctx k = (k', r)"
  shows "sched_inv k'"
proof -
  let ?ps = "save_current ctx k"
  let ?sc = "scan (lock_flags k) ?ps"
  have d: "distinct (map pid ?ps)" using assms(1) by (simp add: save_current_pids sched_inv_def)
  have n: "\<forall>p \<in> set ?ps. pstatus p \<noteq> Running" using save_current_not_running [OF assms(1)] by blast
  have same: "sched_inv (k\<lparr>procs := ?ps\<rparr>)" using d n by (simp add: sched_inv_def)
  show ?thesis
  proof (cases "sched_time (sched k) \<le> quantum (sched k) \<and> unlocked \<and> ?ps \<noteq> [] \<and> best_idx ?sc \<noteq> None")
    case False
    then consider "k' = k" | "k' = k\<lparr>procs := ?ps\<rparr>" | "k' = k\<lparr>sched := (sched k)\<lparr>sched_time := sched_time (sched k) + 1\<rparr>\<rparr>"
      using assms(2) by (auto simp: schedule_def Let_def split: if_splits)
    then show ?thesis using same assms(1) by cases (simp_all add: sched_inv_def)
  next
    case True
    then obtain b where b: "best_idx ?sc = Some b" by auto
    have l: "b < length ?ps" using scan_selected [OF b] by (simp add: selected_def)
    let ?st = "case wake_idx ?sc of Some (_, ec) \<Rightarrow> (pstate (?ps ! b))\<lparr>rax := ec\<rparr> | None \<Rightarrow> pstate (?ps ! b)"
    let ?q = "(?ps ! b)\<lparr>pstate := ?st, pstatus := Running\<rparr>"
    have "procs k' = (case reap_idx ?sc of Some i \<Rightarrow> list_remove i (?ps[b := ?q]) | None \<Rightarrow> ?ps[b := ?q])"
        "sched_current (sched k') = Some (pid ?q)"
      using assms(2) True schedule_best [OF _ refl refl b refl refl, of t] by auto
    then show ?thesis by (intro sched_invI [OF d n l, where q = ?q and ri = "reap_idx ?sc"]) simp_all
  qed
qed

theorem schedule_keeps_inv_witness:
  "sched_inv (sample_kernel [sample_waiter, sample_zombie, sample_ready 20] 3)
   \<and> sched_inv (fst (schedule sample_idle True (default_state []) (sample_kernel [sample_waiter, sample_zombie, sample_ready 20] 3)))"
proof -
  have i: "sched_inv (sample_kernel [sample_waiter, sample_zombie, sample_ready 20] 3)" by (simp add: sched_inv_def)
  show ?thesis using i schedule_keeps_inv [OF i prod.collapse [symmetric]] by blast
qed

section \<open>Where the scheduler departs from its description\<close>

text \<open>
  The indices of a process to wake and of one to reap are kept when a later process with a smaller
  priority number is preferred: the preferred process loses its \<open>rax\<close>, and the exit status is reaped
  although the waiting process has not been woken.
\<close>

lemma schedule_clobbers_rax:
  "\<exists>k' st. schedule sample_idle True (default_state []) (sample_kernel [sample_waiter, sample_zombie, sample_ready 10] 1)
      = (k', Some (3, 0x7000, st))
    \<and> rax (pstate (sample_ready 10)) = 0 \<and> rax st = 7 \<and> map pid (procs k') = [1, 3] \<and> pstatus (procs k' ! 0) = WaitingFor 2"
proof -
  let ?ps = "[sample_waiter, sample_zombie, sample_ready 10]"
  have ps: "?ps = save_current (default_state []) (sample_kernel ?ps 1)" by (simp add: save_current_def suspend_def)
  have sc: "scan (lock_flags (sample_kernel ?ps 1)) ?ps =
      \<lparr>best_idx = Some 2, best_priority = 10, reap_idx = Some 1, wake_idx = Some (0, 7)\<rparr>"
    by (simp add: scan_def scan_step_def waking_def unblocked_def)
  show ?thesis
    using schedule_best [OF _ ps sc [symmetric], of 2 _ _ sample_idle] by (simp add: list_remove_def) (simp add: sample_ready_def sample_process_def default_state_def)
qed

text \<open>After a process in front of the chosen one is reaped, the pointer to the current process is off by one.\<close>

lemma schedule_stale_pointer:
  "\<exists>k' r. schedule sample_idle True (default_state []) (sample_kernel [sample_zombie, sample_waiter] 1) = (k', r)
    \<and> sched_current (sched k') = Some 1 \<and> map pid (procs k') = [1] \<and> current_proc k' = None"
proof -
  let ?ps = "[sample_zombie, sample_waiter]"
  have ps: "?ps = save_current (default_state []) (sample_kernel ?ps 1)" by (simp add: save_current_def suspend_def)
  have sc: "scan (lock_flags (sample_kernel ?ps 1)) ?ps =
      \<lparr>best_idx = Some 1, best_priority = 15, reap_idx = Some 0, wake_idx = Some (1, 7)\<rparr>"
    by (simp add: scan_def scan_step_def waking_def unblocked_def)
  show ?thesis
    using schedule_best [OF _ ps sc [symmetric], of 1 _ _ sample_idle] by (simp add: list_remove_def current_proc_def set_current_def)
qed

text \<open>A process that never blocks keeps every process of the same priority behind it in the list from running.\<close>

lemma schedule_starves:
  assumes "procs k = p # ps" "sched_current (sched k) = Some (pid p)" "pstatus p = Running"
    and "\<forall>q \<in> set ps. pstatus q = Ready \<and> priority p \<le> priority q" "priority p < 255" "sched_time (sched k) \<le> quantum (sched k)"
  shows "\<exists>k' p'. schedule t True ctx k = (k', Some (pid p, cr3 p, ctx)) \<and> procs k' = p' # ps \<and> pid p' = pid p \<and> cr3 p' = cr3 p
    \<and> sched_current (sched k') = Some (pid p') \<and> pstatus p' = Running \<and> priority p' = priority p
    \<and> sched_time (sched k') \<le> quantum (sched k')"
proof -
  let ?p = "p\<lparr>pstate := ctx, pstatus := Ready\<rparr>"
  let ?sc = "scan (lock_flags k) (?p # ps)"
  have ps: "?p # ps = save_current ctx k" using assms(1-3) by (simp add: save_current_def suspend_def save_context_def)
  have run: "runnable (lock_flags k) (?p # ps) q" if "q \<in> set (?p # ps)" for q
    using that assms(4) by (auto simp: runnable_def)
  have no: "waking (?p # ps) q = None" if "q \<in> set (?p # ps)" for q using that assms(4) by (auto simp: waking_def)
  have "best_idx ?sc \<noteq> None"
  proof
    assume "best_idx ?sc = None"
    then have "priority p = 255" using scan_none [of "lock_flags k" "?p # ps" ?p] run [of ?p] by simp
    then show False using assms(5) by simp
  qed
  then obtain b where b: "best_idx ?sc = Some b" by auto
  have sel: "selected (lock_flags k) (?p # ps) b" by (rule scan_selected [OF b])
  have "b = 0"
  proof (rule ccontr)
    assume nz: "b \<noteq> 0"
    then have "priority ((?p # ps) ! b) < priority p" using sel run [of ?p] by (force simp: selected_def)
    moreover have "(?p # ps) ! b \<in> set ps" using sel nz by (auto simp: selected_def nth_Cons')
    ultimately show False using assms(4) by (auto simp: not_less [symmetric])
  qed
  moreover have "wake_idx ?sc = None" "reap_idx ?sc = None"
    using scan_result [of "lock_flags k" "?p # ps"] no nth_mem [of _ "?p # ps"] by (auto simp: scan_inv_def)
  ultimately show ?thesis
    using schedule_best [OF assms(6) ps refl b refl refl, of t]
    by (intro exI [of _ "fst (schedule t True ctx k)"] exI [of _ "p\<lparr>pstate := ctx, pstatus := Running\<rparr>"]) simp
qed

end
