(* ===== verification/Isolation.thy ===== *)
theory Isolation
  imports Paging
begin

text \<open>
  Address spaces, \<open>zenos-kernel/src/process/isolation.rs\<close>: cloning the page tables of a process for fork with
  copy-on-write, the fault handler that copies a page, and tearing an address space down.  Physical
  memory is seen by pages of 512 words; \<open>kalloc_page\<close> and \<open>kleak_page\<close> on a scratch address change the
  kernel's own tables, which are the mapper's.
\<close>

section \<open>Data\<close>

definition COW_FLAG :: u64 where "COW_FLAG = 0x200"
definition KERNEL_CR3_SCRATCH :: u64 where "KERNEL_CR3_SCRATCH = 0xFFFFFF7000000000"

record 'pt space =
  sp_kmem :: "'pt kmem"
  pmem :: table_mem
  refcounts :: "u64 \<Rightarrow> u32 option"
  scratch_counter :: u64

text \<open>The flags of an entry are all its bits but the address; \<open>set_addr\<close> joins the two.\<close>

definition entry_flag_bits :: "u64 \<Rightarrow> u64" where
  "entry_flag_bits e = e AND NOT 0x000FFFFFFFFFF000"

definition has_flag :: "u64 \<Rightarrow> u64 \<Rightarrow> bool" where
  "has_flag e f \<longleftrightarrow> entry_flag_bits e AND f = f"

definition set_entry :: "u64 \<Rightarrow> nat \<Rightarrow> u64 \<Rightarrow> 'pt space \<Rightarrow> 'pt space" where
  "set_entry t i e s = s\<lparr>pmem := (pmem s)(t := (pmem s t)(i := e))\<rparr>"

section \<open>Reference counts\<close>

definition refcount_inc :: "u64 \<Rightarrow> 'pt space \<Rightarrow> 'pt space" where
  "refcount_inc phys s = s\<lparr>refcounts := (refcounts s)(phys \<mapsto> (case refcounts s phys of Some c \<Rightarrow> c + 1 | None \<Rightarrow> 2))\<rparr>"

definition refcount_dec :: "u64 \<Rightarrow> 'pt space \<Rightarrow> 'pt space \<times> bool" where
  "refcount_dec phys s =
    (case refcounts s phys of
       Some old \<Rightarrow>
         (if old = 1 then (s\<lparr>refcounts := (refcounts s)(phys := None)\<rparr>, True)
          else (s\<lparr>refcounts := (refcounts s)(phys \<mapsto> old - 1)\<rparr>, False))
     | None \<Rightarrow> (s, False))"

definition refcount_get :: "u64 \<Rightarrow> 'pt space \<Rightarrow> u32" where
  "refcount_get phys s = (case refcounts s phys of Some c \<Rightarrow> c | None \<Rightarrow> 1)"

section \<open>Allocating pages\<close>

definition get_scratch_addr :: "'pt space \<Rightarrow> 'pt space \<times> u64" where
  "get_scratch_addr s =
    (s\<lparr>scratch_counter := scratch_counter s + 1\<rparr>, KERNEL_CR3_SCRATCH + 0x100000 + (scratch_counter s mod 256) * 4096)"

definition alloc_filled :: "'pt mapper \<Rightarrow> (table_mem \<Rightarrow> nat \<Rightarrow> u64) \<Rightarrow> 'pt space \<Rightarrow> 'pt space \<times> u64 option" where
  "alloc_filled m contents s =
    (let (s, scratch_addr) = get_scratch_addr s;
         (k, r) = kalloc_page m (sp_kmem s) scratch_addr Arbitrary
     in case r of
          Inl _ \<Rightarrow> (s\<lparr>sp_kmem := k\<rparr>, None)
        | Inr phys \<Rightarrow>
            (let pm = (pmem s)(phys := contents (pmem s));
                 (k, _) = kleak_page m k scratch_addr Arbitrary
             in (s\<lparr>sp_kmem := k, pmem := pm\<rparr>, Some phys)))"

definition alloc_page_table :: "'pt mapper \<Rightarrow> 'pt space \<Rightarrow> 'pt space \<times> u64 option" where
  "alloc_page_table m = alloc_filled m (\<lambda>_ _. 0)"

definition alloc_and_copy_page :: "'pt mapper \<Rightarrow> u64 \<Rightarrow> 'pt space \<Rightarrow> 'pt space \<times> u64 option" where
  "alloc_and_copy_page m src_phys = alloc_filled m (\<lambda>pm. pm src_phys)"

section \<open>Cloning\<close>

text \<open>
  One entry of the loop; \<open>rec\<close> clones a table of the level below and is used above level 1.  The result
  is false when memory runs out.
\<close>

definition cow_entry ::
  "(u64 \<Rightarrow> 'pt space \<Rightarrow> 'pt space \<times> u64 option) \<Rightarrow> bool \<Rightarrow> u64 \<Rightarrow> u64 \<Rightarrow> nat \<Rightarrow> 'pt space \<Rightarrow> 'pt space \<times> bool" where
  "cow_entry rec level_1 src_phys new_phys i s =
    (let entry = pmem s src_phys i
     in if \<not> has_flag entry PRESENT then (s, True)
        else
          let entry_phys = entry_addr entry; flags = entry_flag_bits entry
          in if has_flag entry HUGE_PAGE then (set_entry new_phys i entry s, True)
             else if level_1 then
               (if has_flag entry WRITABLE then
                  let cow_flags = (flags AND NOT WRITABLE) OR COW_FLAG;
                      s = set_entry src_phys i (entry_phys OR cow_flags) s;
                      s = set_entry new_phys i (entry_phys OR cow_flags) s
                  in (refcount_inc entry_phys s, True)
                else (set_entry new_phys i entry s, True))
             else
               (case rec entry_phys s of
                  (s, None) \<Rightarrow> (s, False)
                | (s, Some cloned) \<Rightarrow> (set_entry new_phys i (cloned OR flags) s, True)))"

fun cow_loop ::
  "(nat \<Rightarrow> 'pt space \<Rightarrow> 'pt space \<times> bool) \<Rightarrow> nat list \<Rightarrow> 'pt space \<Rightarrow> 'pt space \<times> bool" where
  "cow_loop step [] s = (s, True)"
| "cow_loop step (i # is) s = (case step i s of (s, False) \<Rightarrow> (s, False) | (s, True) \<Rightarrow> cow_loop step is s)"

text \<open>The level counts down to 1; there is no level 0.\<close>

primrec cow_clone_table :: "nat \<Rightarrow> 'pt mapper \<Rightarrow> u64 \<Rightarrow> 'pt space \<Rightarrow> 'pt space \<times> u64 option" where
  "cow_clone_table 0 m src_phys s = (s, None)"
| "cow_clone_table (Suc l) m src_phys s =
    (case alloc_page_table m s of
       (s, None) \<Rightarrow> (s, None)
     | (s, Some new_phys) \<Rightarrow>
         (case cow_loop (cow_entry (cow_clone_table l m) (l = 0) src_phys new_phys) [0..<512] s of
            (s, False) \<Rightarrow> (s, None)
          | (s, True) \<Rightarrow> (s, Some new_phys)))"

definition clone_l4_entry :: "'pt mapper \<Rightarrow> u64 \<Rightarrow> u64 \<Rightarrow> nat \<Rightarrow> 'pt space \<Rightarrow> 'pt space \<times> bool" where
  "clone_l4_entry m active_l4 new_l4 i s =
    (let entry = pmem s active_l4 i
     in if \<not> has_flag entry PRESENT then (s, True)
        else
          (case cow_clone_table 3 m (entry_addr entry) s of
             (s, None) \<Rightarrow> (s, False)
           | (s, Some cloned) \<Rightarrow> (set_entry new_l4 i (cloned OR entry_flag_bits entry) s, True)))"

definition copy_kernel_half :: "u64 \<Rightarrow> u64 \<Rightarrow> 'pt space \<Rightarrow> 'pt space" where
  "copy_kernel_half active_l4 new_l4 s =
    fold (\<lambda>i s. set_entry new_l4 i (pmem s active_l4 i) s) [256..<512] s"

definition clone_address_space :: "'pt mapper \<Rightarrow> u64 \<Rightarrow> 'pt space \<Rightarrow> 'pt space \<times> (unit, u64) result" where
  "clone_address_space m active_l4 s =
    (case alloc_page_table m s of
       (s, None) \<Rightarrow> (s, Inl ())
     | (s, Some new_l4) \<Rightarrow>
         (case cow_loop (clone_l4_entry m active_l4 new_l4) [0..<256] (copy_kernel_half active_l4 new_l4 s) of
            (s, False) \<Rightarrow> (s, Inl ())
          | (s, True) \<Rightarrow> (set_entry new_l4 511 ((new_l4 AND NOT 0xFFF) OR (PRESENT OR WRITABLE)) s, Inr new_l4)))"

definition new_user_address_space :: "'pt mapper \<Rightarrow> u64 \<Rightarrow> 'pt space \<Rightarrow> 'pt space \<times> (unit, u64) result" where
  "new_user_address_space m active_l4 s =
    (case alloc_page_table m s of
       (s, None) \<Rightarrow> (s, Inl ())
     | (s, Some new_l4) \<Rightarrow> (copy_kernel_half active_l4 new_l4 s, Inr new_l4))"

section \<open>The write fault\<close>

definition handle_cow_fault :: "'pt mapper \<Rightarrow> u64 \<Rightarrow> u64 \<Rightarrow> 'pt space \<Rightarrow> 'pt space \<times> bool" where
  "handle_cow_fault m p4 fault_addr s =
    (let p4e = pmem s p4 (table_index 4 fault_addr)
     in if \<not> has_flag p4e PRESENT then (s, False)
        else
          let p3e = pmem s (entry_addr p4e) (table_index 3 fault_addr)
          in if \<not> has_flag p3e PRESENT then (s, False)
             else
               let p2e = pmem s (entry_addr p3e) (table_index 2 fault_addr)
               in if \<not> has_flag p2e PRESENT then (s, False)
                  else
                    let p1 = entry_addr p2e;
                        i = table_index 1 fault_addr;
                        p1e = pmem s p1 i
                    in if \<not> has_flag p1e PRESENT then (s, False)
                       else if \<not> has_flag p1e COW_FLAG then (s, False)
                       else
                         let old_phys = entry_addr p1e;
                             new_flags = (entry_flag_bits p1e AND NOT COW_FLAG) OR WRITABLE
                         in if refcount_get old_phys s = 1 then (set_entry p1 i (old_phys OR new_flags) s, True)
                            else
                              (case alloc_and_copy_page m old_phys s of
                                 (s, None) \<Rightarrow> (s, False)
                               | (s, Some new_phys) \<Rightarrow>
                                   (fst (refcount_dec old_phys (set_entry p1 i (new_phys OR new_flags) s)), True)))"

section \<open>Tearing down\<close>

definition free_frame :: "u64 \<Rightarrow> 'pt space \<Rightarrow> 'pt space" where
  "free_frame phys s = s\<lparr>sp_kmem := fst (free_phys_page (sp_kmem s) phys)\<rparr>"

definition free_entry :: "(u64 \<Rightarrow> 'pt space \<Rightarrow> 'pt space) \<Rightarrow> bool \<Rightarrow> u64 \<Rightarrow> nat \<Rightarrow> 'pt space \<Rightarrow> 'pt space" where
  "free_entry rec level_1 table_phys i s =
    (let entry = pmem s table_phys i; entry_phys = entry_addr entry
     in if \<not> has_flag entry PRESENT then s
        else if has_flag entry HUGE_PAGE then s
        else if level_1 then
          (if has_flag entry COW_FLAG then
             (case refcount_dec entry_phys s of (s, True) \<Rightarrow> free_frame entry_phys s | (s, False) \<Rightarrow> s)
           else free_frame entry_phys s)
        else rec entry_phys s)"

primrec free_page_table_recursive :: "nat \<Rightarrow> u64 \<Rightarrow> 'pt space \<Rightarrow> 'pt space" where
  "free_page_table_recursive 0 table_phys s = s"
| "free_page_table_recursive (Suc l) table_phys s =
    free_frame table_phys (fold (free_entry (free_page_table_recursive l) (l = 0) table_phys) [0..<512] s)"

definition teardown_address_space :: "u64 \<Rightarrow> 'pt space \<Rightarrow> 'pt space" where
  "teardown_address_space l4 s =
    free_frame l4 (fold (\<lambda>i s. if has_flag (pmem s l4 i) PRESENT then free_page_table_recursive 3 (entry_addr (pmem s l4 i)) s else s)
      [0..<256] s)"

section \<open>Entries\<close>

abbreviation ADDR_MASK :: u64 where "ADDR_MASK \<equiv> 0x000FFFFFFFFFF000"

definition frame_addr :: "u64 \<Rightarrow> bool" where
  "frame_addr a \<longleftrightarrow> a AND ADDR_MASK = a"

lemma frame_entry_addr: "frame_addr (entry_addr e)"
  by (simp add: frame_addr_def entry_addr_def and.assoc)

lemma flag_bits_mask: "entry_flag_bits e AND ADDR_MASK = 0"
proof -
  have "(e AND NOT M) AND M = 0" for M :: u64 by (simp add: and.assoc)
  then show ?thesis unfolding entry_flag_bits_def .
qed

lemma join_entry:
  assumes "frame_addr a" "f AND ADDR_MASK = 0"
  shows "entry_addr (a OR f) = a" "entry_flag_bits (a OR f) = f"
  using entry_flags [OF assms(2), of a] assms(1)
  by (simp_all add: frame_addr_def entry_addr_def [of a] entry_flag_bits_def)

lemma has_flag_bit:
  assumes "n < 64" "n < 12 \<or> 52 \<le> n"
  shows "has_flag e (2 ^ n) \<longleftrightarrow> bit e n"
proof -
  have "bit (ADDR_MASK) n \<longleftrightarrow> 12 \<le> n \<and> n < 52"
  proof -
    have eq: "(ADDR_MASK) = push_bit 12 (mask 40)" by (simp add: mask_eq_exp_minus_1 push_bit_eq_mult)
    show ?thesis unfolding eq using assms(1) by (auto simp: bit_push_bit_iff bit_mask_iff)
  qed
  then have b: "bit (entry_flag_bits e) n \<longleftrightarrow> bit e n"
    using assms unfolding entry_flag_bits_def bit_and_iff bit_not_iff by auto
  have "w AND 2 ^ n = 2 ^ n \<longleftrightarrow> bit w n" for w :: u64
  proof
    assume "w AND 2 ^ n = 2 ^ n"
    then show "bit w n" using assms(1) bit_exp64 [of n n] by (metis bit_and_iff)
  next
    assume w: "bit w n"
    show "w AND 2 ^ n = 2 ^ n" by (rule bit_word_eqI) (use w assms(1) in \<open>auto simp: bit_and_iff bit_exp64\<close>)
  qed
  then show ?thesis using b by (simp add: has_flag_def)
qed

lemma has_flag_bits:
  "has_flag e PRESENT \<longleftrightarrow> bit e 0" "has_flag e WRITABLE \<longleftrightarrow> bit e 1" "has_flag e HUGE_PAGE \<longleftrightarrow> bit e 7"
  "has_flag e COW_FLAG \<longleftrightarrow> bit e 9"
  using has_flag_bit [of 0 e] has_flag_bit [of 1 e] has_flag_bit [of 7 e] has_flag_bit [of 9 e]
  by (simp_all add: PRESENT_def WRITABLE_def HUGE_PAGE_def COW_FLAG_def)

lemma not_present_0 [simp]: "\<not> has_flag 0 PRESENT"
  by (simp add: has_flag_bits)

text \<open>What cloning does to a leaf entry: a writable 4 KiB page becomes read-only and marked.\<close>

definition cow_mark :: "u64 \<Rightarrow> u64" where
  "cow_mark e =
    (if has_flag e HUGE_PAGE \<or> \<not> has_flag e WRITABLE then e
     else entry_addr e OR ((entry_flag_bits e AND NOT WRITABLE) OR COW_FLAG))"

lemma cow_flags_mask: "((entry_flag_bits e AND NOT WRITABLE) OR COW_FLAG) AND ADDR_MASK = 0"
proof -
  have "((a AND b) OR c) AND M = ((a AND M) AND b) OR (c AND M)" for a b c M :: u64
    by (rule bit_word_eqI) (auto simp: bit_or_iff bit_and_iff)
  moreover have "COW_FLAG AND ADDR_MASK = 0" by (simp add: COW_FLAG_def)
  ultimately show ?thesis by (simp only: flag_bits_mask) simp
qed

lemma cow_mark_addr [simp]: "entry_addr (cow_mark e) = entry_addr e"
  using join_entry(1) [OF frame_entry_addr cow_flags_mask] by (simp add: cow_mark_def)

lemma bit_flag_bits: "bit (entry_flag_bits e) n \<longleftrightarrow> bit e n \<and> \<not> bit (ADDR_MASK) n"
  unfolding entry_flag_bits_def bit_and_iff bit_not_iff by (auto dest: bit_imp_le_length)

lemma cow_mark_flags:
  "has_flag (cow_mark e) PRESENT \<longleftrightarrow> has_flag e PRESENT" "has_flag (cow_mark e) HUGE_PAGE \<longleftrightarrow> has_flag e HUGE_PAGE"
  "\<not> has_flag e HUGE_PAGE \<Longrightarrow> \<not> has_flag (cow_mark e) WRITABLE"
proof -
  let ?f = "(entry_flag_bits e AND NOT WRITABLE) OR COW_FLAG"
  have j: "entry_flag_bits (entry_addr e OR ?f) = ?f" by (rule join_entry [OF frame_entry_addr cow_flags_mask])
  have b: "bit ?f 0 \<longleftrightarrow> bit e 0" "bit ?f 7 \<longleftrightarrow> bit e 7" "\<not> bit ?f 1"
    by (simp_all add: bit_or_iff bit_and_iff bit_not_iff bit_flag_bits WRITABLE_def COW_FLAG_def)
  have h: "bit (entry_addr e OR ?f) n \<longleftrightarrow> bit ?f n" if "n \<in> {0, 1, 7}" for n
    using bit_flag_bits [of "entry_addr e OR ?f" n] that unfolding j by auto
  have w: "bit (entry_addr e OR ?f) 0 \<longleftrightarrow> bit e 0" "bit (entry_addr e OR ?f) 7 \<longleftrightarrow> bit e 7" "\<not> bit (entry_addr e OR ?f) 1"
    using h b by simp_all
  show "has_flag (cow_mark e) PRESENT \<longleftrightarrow> has_flag e PRESENT" "has_flag (cow_mark e) HUGE_PAGE \<longleftrightarrow> has_flag e HUGE_PAGE"
      "\<not> has_flag e HUGE_PAGE \<Longrightarrow> \<not> has_flag (cow_mark e) WRITABLE"
    unfolding has_flag_bits cow_mark_def using w by auto
qed

section \<open>Trees of page tables\<close>

text \<open>The leaf entry a path of indices leads to, in tables of a number of levels.\<close>

fun leaf_entry :: "table_mem \<Rightarrow> nat \<Rightarrow> u64 \<Rightarrow> nat list \<Rightarrow> u64 option" where
  "leaf_entry tm (Suc l) t (i # is) =
    (if i < 512 \<and> has_flag (tm t i) PRESENT
     then (if has_flag (tm t i) HUGE_PAGE \<or> l = 0 then Some (tm t i) else leaf_entry tm l (entry_addr (tm t i)) is)
     else None)"
| "leaf_entry tm _ t _ = None"

definition subtable :: "u64 \<Rightarrow> bool" where
  "subtable e \<longleftrightarrow> has_flag e PRESENT \<and> \<not> has_flag e HUGE_PAGE"

primrec tables_of :: "nat \<Rightarrow> table_mem \<Rightarrow> u64 \<Rightarrow> u64 set" where
  "tables_of 0 tm t = {}"
| "tables_of (Suc l) tm t = insert t (\<Union>i \<in> {i. i < 512 \<and> subtable (tm t i)}. tables_of l tm (entry_addr (tm t i)))"

text \<open>No table is used twice.\<close>

primrec tree :: "nat \<Rightarrow> table_mem \<Rightarrow> u64 \<Rightarrow> bool" where
  "tree 0 tm t \<longleftrightarrow> True"
| "tree (Suc l) tm t \<longleftrightarrow>
    (\<forall>i < 512. subtable (tm t i) \<longrightarrow> tree l tm (entry_addr (tm t i)) \<and> t \<notin> tables_of l tm (entry_addr (tm t i)))
    \<and> (\<forall>i < 512. \<forall>j < 512. i \<noteq> j \<longrightarrow> subtable (tm t i) \<longrightarrow> subtable (tm t j) \<longrightarrow>
         tables_of l tm (entry_addr (tm t i)) \<inter> tables_of l tm (entry_addr (tm t j)) = {})"

lemma tables_cong:
  "\<forall>p \<in> tables_of l tm t. tm' p = tm p \<Longrightarrow>
     tables_of l tm' t = tables_of l tm t \<and> (tree l tm' t \<longleftrightarrow> tree l tm t) \<and> leaf_entry tm' l t is = leaf_entry tm l t is"
proof (induction l arbitrary: t "is")
  case (Suc l)
  have t: "tm' t = tm t" using Suc.prems by simp
  have sub: "tables_of l tm' (entry_addr (tm t i)) = tables_of l tm (entry_addr (tm t i))
      \<and> (tree l tm' (entry_addr (tm t i)) \<longleftrightarrow> tree l tm (entry_addr (tm t i)))
      \<and> leaf_entry tm' l (entry_addr (tm t i)) is' = leaf_entry tm l (entry_addr (tm t i)) is'"
    if "i < 512" "subtable (tm t i)" for i is'
    using that Suc.prems by (intro Suc.IH) auto
  have "leaf_entry tm' (Suc l) t is = leaf_entry tm (Suc l) t is"
    using sub t by (cases "is") (auto simp: subtable_def)
  then show ?case using sub t by (auto simp: t)
qed simp

section \<open>Allocation\<close>

definition free_of :: "'pt space \<Rightarrow> u64 set" where
  "free_of s = (case allocator (sp_kmem s) of Some al \<Rightarrow> pa_free al | None \<Rightarrow> {})"

text \<open>The allocator is well formed and its free frames are addresses a page table entry can hold.\<close>

definition space_ok :: "'pt space \<Rightarrow> bool" where
  "space_ok s \<longleftrightarrow> (\<exists>al. allocator (sp_kmem s) = Some al \<and> pa_inv al) \<and> (\<forall>f \<in> free_of s. frame_addr f)"

lemma alloc_filledE:
  assumes "mapper_frames m" "space_ok s" "alloc_filled m c s = (s', Some p)"
  shows "space_ok s'" "p \<in> free_of s" "p \<notin> free_of s'" "free_of s' \<subseteq> free_of s" "pmem s' = (pmem s)(p := c (pmem s))"
    "refcounts s' = refcounts s" "frame_addr p"
proof -
  obtain al where al: "allocator (sp_kmem s) = Some al" "pa_inv al" using assms(2) by (auto simp: space_ok_def)
  let ?v = "snd (get_scratch_addr s)"
  obtain k where k: "kalloc_page m (sp_kmem s) ?v Arbitrary = (k, Inr p)"
      "sp_kmem s' = fst (kleak_page m k ?v Arbitrary)" "pmem s' = (pmem s)(p := c (pmem s))" "refcounts s' = refcounts s"
  proof -
    have "snd (kalloc_page m (sp_kmem s) ?v Arbitrary) = Inr p"
      "sp_kmem s' = fst (kleak_page m (fst (kalloc_page m (sp_kmem s) ?v Arbitrary)) ?v Arbitrary)"
      "pmem s' = (pmem s)(p := c (pmem s))" "refcounts s' = refcounts s"
      using assms(3) by (auto simp: alloc_filled_def get_scratch_addr_def Let_def split_def split: sum.splits)
    then show thesis by (intro that [of "fst (kalloc_page m (sp_kmem s) ?v Arbitrary)"]) (simp_all add: prod_eq_iff)
  qed
  obtain al' where a: "allocator k = Some al'" "pa_inv al'" "p \<in> pa_free al" "p \<notin> pa_free al'" "pa_free al' \<subseteq> pa_free al"
    using kalloc_arbitrary_frame [OF assms(1) al k(1)] by auto
  have "allocator (sp_kmem s') = Some al'" unfolding k(2) using a(1) by (simp add: kleak_page_def Let_def split_def)
  then have f: "free_of s' = pa_free al'" "free_of s = pa_free al" using al(1) by (simp_all add: free_of_def)
  show "space_ok s'" "p \<in> free_of s" "p \<notin> free_of s'" "free_of s' \<subseteq> free_of s" "pmem s' = (pmem s)(p := c (pmem s))"
      "refcounts s' = refcounts s" "frame_addr p"
    using a f k(3,4) assms(2) \<open>allocator (sp_kmem s') = Some al'\<close> by (auto simp: space_ok_def)
qed

lemma set_entry_simps [simp]:
  "sp_kmem (set_entry t i e s) = sp_kmem s" "free_of (set_entry t i e s) = free_of s" "space_ok (set_entry t i e s) = space_ok s"
  "refcounts (set_entry t i e s) = refcounts s" "pmem (set_entry t i e s) p j = (if p = t \<and> j = i then e else pmem s p j)"
  by (auto simp: set_entry_def free_of_def space_ok_def)

lemma set_entry_page: "p \<noteq> t \<Longrightarrow> pmem (set_entry t i e s) p = pmem s p"
  by (simp add: set_entry_def)

lemma refcount_inc_simps [simp]:
  "sp_kmem (refcount_inc p s) = sp_kmem s" "free_of (refcount_inc p s) = free_of s" "space_ok (refcount_inc p s) = space_ok s"
  "pmem (refcount_inc p s) = pmem s"
  by (auto simp: refcount_inc_def free_of_def space_ok_def)

text \<open>The part of a table below an index, which for the top level is the user half.\<close>

definition tables_upto :: "nat \<Rightarrow> nat \<Rightarrow> table_mem \<Rightarrow> u64 \<Rightarrow> u64 set" where
  "tables_upto b l tm t = insert t (\<Union>i \<in> {i. i < b \<and> subtable (tm t i)}. tables_of l tm (entry_addr (tm t i)))"

definition tree_upto :: "nat \<Rightarrow> nat \<Rightarrow> table_mem \<Rightarrow> u64 \<Rightarrow> bool" where
  "tree_upto b l tm t \<longleftrightarrow>
    (\<forall>i < b. subtable (tm t i) \<longrightarrow> tree l tm (entry_addr (tm t i)) \<and> t \<notin> tables_of l tm (entry_addr (tm t i)))
    \<and> (\<forall>i < b. \<forall>j < b. i \<noteq> j \<longrightarrow> subtable (tm t i) \<longrightarrow> subtable (tm t j) \<longrightarrow>
         tables_of l tm (entry_addr (tm t i)) \<inter> tables_of l tm (entry_addr (tm t j)) = {})"

lemmas upto_defs [simp] = tables_upto_def tree_upto_def

lemma whole_table: "tables_of (Suc l) tm t = tables_upto 512 l tm t" "tree (Suc l) tm t = tree_upto 512 l tm t"
  by simp_all

section \<open>Cloning a tree\<close>

definition clone_result :: "nat \<Rightarrow> u64 \<Rightarrow> 'pt space \<Rightarrow> 'pt space \<Rightarrow> u64 \<Rightarrow> u64 set \<Rightarrow> bool" where
  "clone_result l src s s' new N \<longleftrightarrow>
     space_ok s' \<and> N \<subseteq> free_of s \<and> N \<inter> free_of s' = {} \<and> free_of s' \<subseteq> free_of s \<and> new \<in> N
     \<and> (\<forall>p. p \<notin> tables_of l (pmem s) src \<union> N \<longrightarrow> pmem s' p = pmem s p)
     \<and> tables_of l (pmem s') new \<subseteq> N
     \<and> tables_of l (pmem s') src = tables_of l (pmem s) src \<and> tree l (pmem s') src
     \<and> (\<forall>is. leaf_entry (pmem s') l src is = map_option cow_mark (leaf_entry (pmem s) l src is))
     \<and> (\<forall>is. leaf_entry (pmem s') l new is = leaf_entry (pmem s') l src is)"

text \<open>
  The state of one entry once the loop has passed it; \<open>tm0\<close> is memory before the loop, \<open>tm\<close> memory now
  and \<open>N\<close> the frames taken for tables of the level below.
\<close>

definition entry_done :: "nat \<Rightarrow> table_mem \<Rightarrow> u64 \<Rightarrow> u64 \<Rightarrow> u64 set \<Rightarrow> nat \<Rightarrow> table_mem \<Rightarrow> bool" where
  "entry_done l tm0 src new N j tm \<longleftrightarrow>
    (let e = tm0 src j
     in if \<not> has_flag e PRESENT then tm src j = e \<and> tm new j = tm0 new j
        else if has_flag e HUGE_PAGE \<or> l = 0 then tm src j = cow_mark e \<and> tm new j = cow_mark e
        else tm src j = e \<and> (\<exists>c. frame_addr c \<and> tm new j = c OR entry_flag_bits e \<and> tables_of l tm c \<subseteq> N
          \<and> tables_of l tm (entry_addr e) = tables_of l tm0 (entry_addr e) \<and> tree l tm (entry_addr e)
          \<and> (\<forall>is. leaf_entry tm l (entry_addr e) is = map_option cow_mark (leaf_entry tm0 l (entry_addr e) is))
          \<and> (\<forall>is. leaf_entry tm l c is = leaf_entry tm l (entry_addr e) is)))"

definition loop_inv :: "nat \<Rightarrow> nat \<Rightarrow> u64 \<Rightarrow> u64 \<Rightarrow> 'pt space \<Rightarrow> u64 set \<Rightarrow> nat \<Rightarrow> 'pt space \<Rightarrow> bool" where
  "loop_inv b l src new s0 N i s \<longleftrightarrow>
     space_ok s \<and> N \<subseteq> free_of s0 \<and> N \<inter> free_of s = {} \<and> free_of s \<subseteq> free_of s0
     \<and> (\<forall>p. p \<notin> tables_upto b l (pmem s0) src \<union> insert new N \<longrightarrow> pmem s p = pmem s0 p)
     \<and> (\<forall>j. i \<le> j \<longrightarrow> pmem s src j = pmem s0 src j \<and> pmem s new j = pmem s0 new j
          \<and> (j < b \<longrightarrow> subtable (pmem s0 src j) \<longrightarrow> (\<forall>p \<in> tables_of l (pmem s0) (entry_addr (pmem s0 src j)). pmem s p = pmem s0 p)))
     \<and> (\<forall>j < i. entry_done l (pmem s0) src new N j (pmem s))"

lemma entry_done_frame:
  assumes "entry_done l tm0 src new N j tm" "tm' src j = tm src j" "tm' new j = tm new j" "N \<subseteq> N'"
    and "\<forall>p \<in> N. tm' p = tm p"
    and "subtable (tm0 src j) \<longrightarrow> (\<forall>p \<in> tables_of l tm0 (entry_addr (tm0 src j)). tm' p = tm p)"
  shows "entry_done l tm0 src new N' j tm'"
proof (cases "subtable (tm0 src j) \<and> l \<noteq> 0")
  case False
  then show ?thesis using assms(1-3) by (auto simp: entry_done_def Let_def subtable_def)
next
  case True
  let ?e = "tm0 src j"
  obtain c where c: "frame_addr c" "tm new j = c OR entry_flag_bits ?e" "tables_of l tm c \<subseteq> N"
      "tables_of l tm (entry_addr ?e) = tables_of l tm0 (entry_addr ?e)" "tree l tm (entry_addr ?e)"
      "\<forall>is. leaf_entry tm l (entry_addr ?e) is = map_option cow_mark (leaf_entry tm0 l (entry_addr ?e) is)"
      "\<forall>is. leaf_entry tm l c is = leaf_entry tm l (entry_addr ?e) is" "tm src j = ?e"
    using assms(1) True by (auto simp: entry_done_def Let_def subtable_def)
  have c': "tables_of l tm' c = tables_of l tm c \<and> leaf_entry tm' l c is = leaf_entry tm l c is" for "is"
    using tables_cong [of l tm c tm' "is"] c(3) assms(5) by blast
  have e': "tables_of l tm' (entry_addr ?e) = tables_of l tm (entry_addr ?e) \<and> tree l tm' (entry_addr ?e)
      \<and> leaf_entry tm' l (entry_addr ?e) is = leaf_entry tm l (entry_addr ?e) is" for "is"
    using tables_cong [of l tm "entry_addr ?e" tm' "is"] c(4,5) assms(6) True by simp
  have "\<exists>c. frame_addr c \<and> tm' new j = c OR entry_flag_bits ?e \<and> tables_of l tm' c \<subseteq> N'
      \<and> tables_of l tm' (entry_addr ?e) = tables_of l tm0 (entry_addr ?e) \<and> tree l tm' (entry_addr ?e)
      \<and> (\<forall>is. leaf_entry tm' l (entry_addr ?e) is = map_option cow_mark (leaf_entry tm0 l (entry_addr ?e) is))
      \<and> (\<forall>is. leaf_entry tm' l c is = leaf_entry tm' l (entry_addr ?e) is)"
    using c c' e' assms(3,4) by (intro exI [of _ c]) auto
  then show ?thesis using True assms(2) c(8) by (simp add: entry_done_def Let_def subtable_def)
qed

lemma clone_resultD:
  assumes "clone_result l src s s' new N"
  shows "space_ok s'" "N \<subseteq> free_of s" "N \<inter> free_of s' = {}" "free_of s' \<subseteq> free_of s" "new \<in> N"
    "p \<notin> tables_of l (pmem s) src \<Longrightarrow> p \<notin> N \<Longrightarrow> pmem s' p = pmem s p"
    "tables_of l (pmem s') new \<subseteq> N" "tables_of l (pmem s') src = tables_of l (pmem s) src" "tree l (pmem s') src"
    "leaf_entry (pmem s') l src is = map_option cow_mark (leaf_entry (pmem s) l src is)"
    "leaf_entry (pmem s') l new is = leaf_entry (pmem s') l src is"
  using assms by (simp_all add: clone_result_def)

lemma loop_inv_step:
  assumes inv: "loop_inv b l src new s0 N i s" and i: "i < b" and tr: "tree_upto b l (pmem s0) src"
    and dis: "tables_upto b l (pmem s0) src \<inter> insert new (free_of s0) = {}" and new: "new \<notin> free_of s0"
    and ok: "space_ok s'" "N1 \<subseteq> free_of s" "N1 \<inter> free_of s' = {}" "free_of s' \<subseteq> free_of s"
    and D: "D = {} \<or> (subtable (pmem s0 src i) \<and> D = tables_of l (pmem s0) (entry_addr (pmem s0 src i)))"
    and same: "\<forall>p. p \<notin> D \<union> N1 \<union> {src, new} \<longrightarrow> pmem s' p = pmem s p"
    and other: "\<forall>j. j \<noteq> i \<longrightarrow> pmem s' src j = pmem s src j \<and> pmem s' new j = pmem s new j"
    and at: "entry_done l (pmem s0) src new (N \<union> N1) i (pmem s')"
  shows "loop_inv b l src new s0 (N \<union> N1) (Suc i) s'"
proof -
  note inv = inv [unfolded loop_inv_def]
  have N: "N \<subseteq> free_of s0" "N \<inter> free_of s = {}" "N1 \<subseteq> free_of s0" using inv ok(2) by auto
  have sub: "\<forall>p \<in> tables_of l (pmem s0) (entry_addr (pmem s0 src j)). pmem s' p = pmem s p"
    if "j < b" "j \<noteq> i" "subtable (pmem s0 src j)" for j
  proof
    fix p assume p: "p \<in> tables_of l (pmem s0) (entry_addr (pmem s0 src j))"
    have "p \<in> tables_upto b l (pmem s0) src" using p that by auto
    then have "p \<noteq> new" "p \<notin> N1" using dis N(3) by auto
    moreover have "p \<noteq> src" using tr that p by auto
    moreover have "p \<notin> D" using D tr that(1-3) i p by fastforce
    ultimately show "pmem s' p = pmem s p" using same by auto
  qed
  have D': "D \<subseteq> tables_upto b l (pmem s0) src" using D i by auto
  have keepN: "\<forall>p \<in> N. pmem s' p = pmem s p"
  proof
    fix p assume "p \<in> N"
    then have "p \<in> free_of s0" "p \<notin> free_of s" using N by auto
    moreover have "src \<in> tables_upto b l (pmem s0) src" by simp
    ultimately have "p \<notin> D \<union> N1 \<union> {src, new}" using D' dis new ok(2) by blast
    then show "pmem s' p = pmem s p" using same by simp
  qed
  have "entry_done l (pmem s0) src new (N \<union> N1) j (pmem s')" if "j < Suc i" for j
  proof (cases "j = i")
    case False
    then have "entry_done l (pmem s0) src new N j (pmem s)" using inv that by simp
    then show ?thesis
      by (rule entry_done_frame) (use False that other keepN sub [of j] i in \<open>simp_all\<close>)
  qed (use at in simp)
  moreover have "pmem s' p = pmem s0 p" if "p \<notin> tables_upto b l (pmem s0) src \<union> insert new (N \<union> N1)" for p
  proof -
    have "p \<notin> D \<union> N1 \<union> {src, new}" using that D' by auto
    then show ?thesis using same inv that by simp
  qed
  moreover have "pmem s' src j = pmem s0 src j \<and> pmem s' new j = pmem s0 new j
      \<and> (j < b \<longrightarrow> subtable (pmem s0 src j) \<longrightarrow> (\<forall>p \<in> tables_of l (pmem s0) (entry_addr (pmem s0 src j)). pmem s' p = pmem s0 p))"
    if j: "Suc i \<le> j" for j
  proof -
    have "j \<noteq> i" "i \<le> j" using j by simp_all
    moreover have "pmem s src j = pmem s0 src j \<and> pmem s new j = pmem s0 new j
        \<and> (j < b \<longrightarrow> subtable (pmem s0 src j) \<longrightarrow> (\<forall>p \<in> tables_of l (pmem s0) (entry_addr (pmem s0 src j)). pmem s p = pmem s0 p))"
      using inv \<open>i \<le> j\<close> by blast
    ultimately show ?thesis using other sub [of j] by auto
  qed
  moreover have "N \<union> N1 \<subseteq> free_of s0" "(N \<union> N1) \<inter> free_of s' = {}" "free_of s' \<subseteq> free_of s0"
    using ok(2-4) inv N by blast+
  ultimately show ?thesis unfolding loop_inv_def using ok(1) by (intro conjI allI impI) blast+
qed

definition clones :: "nat \<Rightarrow> (u64 \<Rightarrow> 'pt space \<Rightarrow> 'pt space \<times> u64 option) \<Rightarrow> bool" where
  "clones l rec \<longleftrightarrow>
    (\<forall>src s s' new. rec src s = (s', Some new) \<longrightarrow> space_ok s \<longrightarrow> tree l (pmem s) src \<longrightarrow>
       tables_of l (pmem s) src \<inter> free_of s = {} \<longrightarrow> (\<exists>N. clone_result l src s s' new N))"

lemma flag_join:
  assumes "frame_addr a"
  shows "entry_addr (a OR entry_flag_bits e) = a" "has_flag (a OR entry_flag_bits e) f \<longleftrightarrow> has_flag e f"
  using join_entry [OF assms flag_bits_mask, of e] by (simp_all add: has_flag_def)

lemma cow_entry_step:
  assumes inv: "loop_inv b l src new s0 N i s" and i: "i < b" and tr: "tree_upto b l (pmem s0) src"
    and dis: "tables_upto b l (pmem s0) src \<inter> insert new (free_of s0) = {}" and new: "new \<notin> free_of s0"
    and rec: "l \<noteq> 0 \<Longrightarrow> clones l rec" and step: "cow_entry rec (l = 0) src new i s = (s', True)"
  shows "\<exists>N'. loop_inv b l src new s0 N' (Suc i) s'"
proof -
  note inv' = inv [unfolded loop_inv_def]
  let ?e = "pmem s0 src i"
  have e: "pmem s src i = ?e" "pmem s new i = pmem s0 new i" using inv' i by simp_all
  have ne: "src \<noteq> new" using dis by auto
  note frame = loop_inv_step [OF inv i tr dis new]
  consider "\<not> has_flag ?e PRESENT" | "has_flag ?e PRESENT" "has_flag ?e HUGE_PAGE \<or> l = 0"
    | "subtable ?e" "l \<noteq> 0" by (auto simp: subtable_def)
  then show ?thesis
  proof cases
    case 1
    then have "s' = s" using step e by (simp add: cow_entry_def)
    then have "loop_inv b l src new s0 (N \<union> {}) (Suc i) s'"
      by (intro frame [where D = "{}"]) (use inv' 1 e in \<open>auto simp: entry_done_def\<close>)
    then show ?thesis by blast
  next
    case 2
    have s': "pmem s' src i = cow_mark ?e" "pmem s' new i = cow_mark ?e" "space_ok s' = space_ok s" "free_of s' = free_of s"
        "\<forall>p. p \<notin> {src, new} \<longrightarrow> pmem s' p = pmem s p"
        "\<forall>j. j \<noteq> i \<longrightarrow> pmem s' src j = pmem s src j \<and> pmem s' new j = pmem s new j"
      using step 2 e ne by (auto simp: cow_entry_def Let_def cow_mark_def set_entry_page split: if_splits)
    have "loop_inv b l src new s0 (N \<union> {}) (Suc i) s'"
      by (intro frame [where D = "{}"]) (use inv' 2 s' in \<open>auto simp: entry_done_def\<close>)
    then show ?thesis by blast
  next
    case 3
    let ?c = "entry_addr ?e"
    obtain s1 c where s1: "rec ?c s = (s1, Some c)" "s' = set_entry new i (c OR entry_flag_bits ?e) s1"
      using step 3 e by (auto simp: cow_entry_def Let_def subtable_def split: option.splits prod.splits)
    have keep: "\<forall>p \<in> tables_of l (pmem s0) ?c. pmem s p = pmem s0 p"
      using inv' i 3(1) le_refl [of i] by (elim conjE) blast
    have eq: "tables_of l (pmem s) ?c = tables_of l (pmem s0) ?c" "tree l (pmem s) ?c \<longleftrightarrow> tree l (pmem s0) ?c"
        "leaf_entry (pmem s) l ?c is = leaf_entry (pmem s0) l ?c is" for "is"
      using tables_cong [OF keep, of "is"] by auto
    have t0: "tree l (pmem s0) ?c" "src \<notin> tables_of l (pmem s0) ?c" using tr i 3 by auto
    have sub: "tables_of l (pmem s0) ?c \<subseteq> tables_upto b l (pmem s0) src" using i 3 by auto
    have fs: "free_of s \<subseteq> free_of s0" "space_ok s" using inv' by blast+
    have "tables_of l (pmem s) ?c \<inter> free_of s = {}" unfolding eq(1) using sub dis fs(1) by blast
    then obtain N1 where "clone_result l ?c s s1 c N1"
      using rec [OF 3(2), unfolded clones_def, rule_format, OF s1(1) fs(2)] t0 eq(2) by auto
    note cr = clone_resultD [OF this]
    have N1: "N1 \<subseteq> free_of s0" "new \<notin> N1" "src \<notin> N1" "frame_addr c"
    proof -
      show "N1 \<subseteq> free_of s0" "new \<notin> N1" "frame_addr c" using cr(2,5) fs new by (auto simp: space_ok_def)
      moreover have "src \<in> tables_upto b l (pmem s0) src" by simp
      ultimately show "src \<notin> N1" using dis by blast
    qed
    have nt: "new \<notin> tables_of l (pmem s0) ?c" using sub dis by blast
    have tm: "pmem s' p = pmem s1 p" if "p \<noteq> new" for p unfolding s1(2) using that by (rule set_entry_page)
    have keep': "\<forall>p \<in> tables_of l (pmem s1) c. pmem s' p = pmem s1 p" "\<forall>p \<in> tables_of l (pmem s1) ?c. pmem s' p = pmem s1 p"
      using tm cr(7,8) N1(2) nt eq(1) by (metis subsetD)+
    have le: "tables_of l (pmem s') c \<subseteq> N1" "leaf_entry (pmem s') l c is = leaf_entry (pmem s') l ?c is"
        "tables_of l (pmem s') ?c = tables_of l (pmem s0) ?c" "tree l (pmem s') ?c"
        "leaf_entry (pmem s') l ?c is = map_option cow_mark (leaf_entry (pmem s0) l ?c is)" for "is"
      using tables_cong [OF keep'(1), of "is"] tables_cong [OF keep'(2), of "is"] cr(7-9) cr(10,11) [of "is"] eq by simp_all
    have at: "pmem s' new i = c OR entry_flag_bits ?e" unfolding s1(2) by simp
    have src: "pmem s1 src = pmem s src" "pmem s1 new = pmem s new" using cr(6) t0(2) nt N1 eq(1) by simp_all
    have at': "pmem s' src i = ?e" using src(1) tm [OF ne] e(1) by simp
    have "entry_done l (pmem s0) src new (N \<union> N1) i (pmem s')"
      unfolding entry_done_def Let_def using 3 at' at N1(4) le(1) le(2-4) le(5)
      by (auto simp: subtable_def intro!: exI [of _ c])
    moreover have "\<forall>p. p \<notin> tables_of l (pmem s0) ?c \<union> N1 \<union> {src, new} \<longrightarrow> pmem s' p = pmem s p"
      using tm cr(6) eq(1) by simp
    moreover have "\<forall>j. j \<noteq> i \<longrightarrow> pmem s' src j = pmem s src j \<and> pmem s' new j = pmem s new j"
      using tm [OF ne] src s1(2) by simp
    ultimately have "loop_inv b l src new s0 (N \<union> N1) (Suc i) s'"
      by (intro frame [where D = "tables_of l (pmem s0) ?c"]) (use cr(1-4) s1(2) 3(1) in \<open>simp_all\<close>)
    then show ?thesis by blast
  qed
qed

lemma cow_loop_inv:
  assumes "\<And>i s s'. a \<le> i \<Longrightarrow> i < b \<Longrightarrow> P i s \<Longrightarrow> step i s = (s', True) \<Longrightarrow> P (Suc i) s'"
    and "cow_loop step [a..<b] s = (s', True)" "P a s" "a \<le> b"
  shows "P b s'"
  using assms
proof (induction "b - a" arbitrary: a s)
  case (Suc n)
  then have ab: "a < b" by simp
  obtain s1 where s1: "step a s = (s1, True)" "cow_loop step [Suc a..<b] s1 = (s', True)"
    using Suc.prems(2) ab by (auto simp: upt_rec [of a b] split: prod.splits bool.splits)
  have "P (Suc a) s1" using Suc.prems(1) [OF _ ab Suc.prems(3) s1(1)] by simp
  then show ?case
    by (intro Suc.hyps(1) [OF _ _ s1(2)]) (use Suc.prems(1) Suc.hyps(2) ab in \<open>auto\<close>)
qed simp

lemma entry_done_leaf:
  assumes "entry_done l tm0 src new N j tm" "j < 512" "tm0 new j = 0"
  shows "leaf_entry tm (Suc l) src (j # is) = map_option cow_mark (leaf_entry tm0 (Suc l) src (j # is))"
    "leaf_entry tm (Suc l) new (j # is) = leaf_entry tm (Suc l) src (j # is)"
    "subtable (tm src j) \<longleftrightarrow> subtable (tm0 src j)" "entry_addr (tm src j) = entry_addr (tm0 src j)"
    "subtable (tm0 src j) \<Longrightarrow> tables_of l tm (entry_addr (tm0 src j)) = tables_of l tm0 (entry_addr (tm0 src j))
      \<and> tree l tm (entry_addr (tm0 src j))"
    "subtable (tm new j) \<Longrightarrow> tables_of l tm (entry_addr (tm new j)) \<subseteq> N"
proof -
  let ?e = "tm0 src j"
  have "leaf_entry tm (Suc l) src (j # is) = map_option cow_mark (leaf_entry tm0 (Suc l) src (j # is))
    \<and> leaf_entry tm (Suc l) new (j # is) = leaf_entry tm (Suc l) src (j # is)
    \<and> (subtable (tm src j) \<longleftrightarrow> subtable (tm0 src j)) \<and> entry_addr (tm src j) = entry_addr (tm0 src j)
    \<and> (subtable (tm0 src j) \<longrightarrow> tables_of l tm (entry_addr (tm0 src j)) = tables_of l tm0 (entry_addr (tm0 src j))
        \<and> tree l tm (entry_addr (tm0 src j)))
    \<and> (subtable (tm new j) \<longrightarrow> tables_of l tm (entry_addr (tm new j)) \<subseteq> N)"
  proof (cases "subtable ?e \<and> l \<noteq> 0")
    case False
    show ?thesis
    proof (cases "has_flag ?e PRESENT")
      case True
      then have "has_flag ?e HUGE_PAGE \<or> l = 0" using False by (auto simp: subtable_def)
      then show ?thesis using assms True cow_mark_flags [of ?e] by (auto simp: entry_done_def subtable_def Let_def)
    qed (use assms in \<open>simp add: entry_done_def subtable_def\<close>)
  next
    case True
    then obtain c where c: "frame_addr c" "tm new j = c OR entry_flag_bits ?e" "tables_of l tm c \<subseteq> N"
        "tables_of l tm (entry_addr ?e) = tables_of l tm0 (entry_addr ?e)" "tree l tm (entry_addr ?e)"
        "leaf_entry tm l (entry_addr ?e) is = map_option cow_mark (leaf_entry tm0 l (entry_addr ?e) is)"
        "leaf_entry tm l c is = leaf_entry tm l (entry_addr ?e) is" "tm src j = ?e"
      using assms(1) by (auto simp: entry_done_def Let_def subtable_def)
    show ?thesis using True assms(2) c flag_join [OF c(1), of ?e] by (simp add: subtable_def)
  qed
  then show "leaf_entry tm (Suc l) src (j # is) = map_option cow_mark (leaf_entry tm0 (Suc l) src (j # is))"
    "leaf_entry tm (Suc l) new (j # is) = leaf_entry tm (Suc l) src (j # is)"
    "subtable (tm src j) \<longleftrightarrow> subtable (tm0 src j)" "entry_addr (tm src j) = entry_addr (tm0 src j)"
    "subtable (tm0 src j) \<Longrightarrow> tables_of l tm (entry_addr (tm0 src j)) = tables_of l tm0 (entry_addr (tm0 src j))
      \<and> tree l tm (entry_addr (tm0 src j))"
    "subtable (tm new j) \<Longrightarrow> tables_of l tm (entry_addr (tm new j)) \<subseteq> N"
    by blast+
qed

lemma loop_inv_done:
  assumes inv: "loop_inv b l src new s0 N b s" and b: "b \<le> 512" and z: "\<forall>j < b. pmem s0 new j = 0"
    and tr: "tree_upto b l (pmem s0) src"
  shows "tables_upto b l (pmem s) src = tables_upto b l (pmem s0) src" "tree_upto b l (pmem s) src"
    "tables_upto b l (pmem s) new \<subseteq> insert new N"
    "j < b \<Longrightarrow> leaf_entry (pmem s) (Suc l) src (j # is) = map_option cow_mark (leaf_entry (pmem s0) (Suc l) src (j # is))"
    "j < b \<Longrightarrow> leaf_entry (pmem s) (Suc l) new (j # is) = leaf_entry (pmem s) (Suc l) src (j # is)"
    "j < b \<Longrightarrow> subtable (pmem s new j) \<Longrightarrow> tables_of l (pmem s) (entry_addr (pmem s new j)) \<subseteq> N"
proof -
  have d: "entry_done l (pmem s0) src new N j (pmem s)" "j < 512" "pmem s0 new j = 0" if "j < b" for j
    using that inv b z by (simp_all add: loop_inv_def)
  note e = entry_done_leaf [OF d]
  show "tables_upto b l (pmem s) src = tables_upto b l (pmem s0) src" using e(3-5) by auto
  show "tree_upto b l (pmem s) src" using e(3-5) tr by auto
  show "tables_upto b l (pmem s) new \<subseteq> insert new N" using e(6) by auto
  show "j < b \<Longrightarrow> leaf_entry (pmem s) (Suc l) src (j # is) = map_option cow_mark (leaf_entry (pmem s0) (Suc l) src (j # is))"
    "j < b \<Longrightarrow> leaf_entry (pmem s) (Suc l) new (j # is) = leaf_entry (pmem s) (Suc l) src (j # is)"
    "j < b \<Longrightarrow> subtable (pmem s new j) \<Longrightarrow> tables_of l (pmem s) (entry_addr (pmem s new j)) \<subseteq> N"
    by (blast intro: e(1), blast intro: e(2)) (blast dest: e(6))
qed

lemma cow_clone_table_clones:
  assumes "mapper_frames m"
  shows "clones l (cow_clone_table l m)"
proof (induction l)
  case 0
  then show ?case by (simp add: clones_def)
next
  case (Suc l)
  show ?case unfolding clones_def
  proof (intro allI impI)
    fix src and s s' :: "'a space" and new
    assume run: "cow_clone_table (Suc l) m src s = (s', Some new)" and ok: "space_ok s" and tr: "tree (Suc l) (pmem s) src"
      and dis: "tables_of (Suc l) (pmem s) src \<inter> free_of s = {}"
    obtain s0 where s0: "alloc_page_table m s = (s0, Some new)"
        "cow_loop (cow_entry (cow_clone_table l m) (l = 0) src new) [0..<512] s0 = (s', True)"
      using run by (auto split: prod.splits option.splits bool.splits)
    note al = alloc_filledE [OF assms ok s0(1) [unfolded alloc_page_table_def]]
    have "\<forall>p \<in> tables_of (Suc l) (pmem s) src. pmem s0 p = pmem s p" using al(2,5) dis by auto
    note same = tables_cong [OF this]
    have z: "\<forall>j < 512. pmem s0 new j = 0" using al(5) by simp
    have tr0: "tree_upto 512 l (pmem s0) src" using same tr by (simp only: whole_table)
    have dis0: "tables_upto 512 l (pmem s0) src \<inter> insert new (free_of s0) = {}"
      using same dis al(2,4) unfolding whole_table by blast
    have "loop_inv 512 l src new s0 {} 0 s0" using al(1) by (simp add: loop_inv_def)
    then have "\<exists>N. loop_inv 512 l src new s0 N 512 s'"
      by (intro cow_loop_inv [where P = "\<lambda>i s. \<exists>N. loop_inv 512 l src new s0 N i s", OF _ s0(2)])
        (auto intro: cow_entry_step [OF _ _ tr0 dis0 al(3) Suc])
    then obtain N where inv: "loop_inv 512 l src new s0 N 512 s'" by blast
    note fin = loop_inv_done [OF inv order_refl z tr0]
    have leaf: "leaf_entry (pmem s') (Suc l) src is = map_option cow_mark (leaf_entry (pmem s) (Suc l) src is)
        \<and> leaf_entry (pmem s') (Suc l) new is = leaf_entry (pmem s') (Suc l) src is" for "is"
    proof (cases "is")
      case (Cons j js)
      show ?thesis
      proof (cases "j < 512")
        case True
        then show ?thesis unfolding Cons using fin(4,5) [OF True, of js] same [of "j # js"] by metis
      qed (simp add: Cons)
    qed simp
    have "clone_result (Suc l) src s s' new (insert new N)"
      unfolding clone_result_def whole_table using fin(1-3) leaf same inv al tr0 z
      unfolding whole_table loop_inv_def by (auto simp del: upto_defs leaf_entry.simps)
    then show "\<exists>N. clone_result (Suc l) src s s' new N" by blast
  qed
qed

section \<open>Cloning succeeds\<close>

primrec ntables :: "nat \<Rightarrow> table_mem \<Rightarrow> u64 \<Rightarrow> nat" where
  "ntables 0 tm t = 0"
| "ntables (Suc l) tm t = Suc (\<Sum>i = 0..<512. if subtable (tm t i) then ntables l tm (entry_addr (tm t i)) else 0)"

lemma ntables_cong: "\<forall>p \<in> tables_of l tm t. tm' p = tm p \<Longrightarrow> ntables l tm' t = ntables l tm t"
proof (induction l arbitrary: t)
  case (Suc l)
  have t: "tm' t = tm t" using Suc.prems by simp
  have "ntables l tm' (entry_addr (tm t i)) = ntables l tm (entry_addr (tm t i))" if "i < 512" "subtable (tm t i)" for i
    using Suc.prems that by (intro Suc.IH) auto
  then show ?case by (auto simp: t intro!: sum.cong)
qed simp

definition scratch_pages :: "u64 set" where
  "scratch_pages = {KERNEL_CR3_SCRATCH + 0x100000 + (c mod 256) * 4096 | c. True}"

text \<open>The scratch pages are unmapped and there are enough frames.\<close>

definition supplied :: "'pt mapper \<Rightarrow> nat \<Rightarrow> 'pt space \<Rightarrow> bool" where
  "supplied m n s \<longleftrightarrow> space_ok s \<and> (\<forall>v \<in> scratch_pages. translate m (tables (sp_kmem s)) v = None)
     \<and> finite (free_of s) \<and> n \<le> card (free_of s)"

lemma supplied_simps [simp]:
  "supplied m n (set_entry t i e s) = supplied m n s" "supplied m n (refcount_inc p s) = supplied m n s"
  by (simp_all add: supplied_def)

lemma supplied_mono: "supplied m n s \<Longrightarrow> k \<le> n \<Longrightarrow> supplied m k s"
  by (simp add: supplied_def)

lemma alloc_filled_ok:
  assumes "mapper_frames m" "mapper_exact m scratch_pages" "supplied m (Suc n) s"
  obtains s' p where "alloc_filled m c s = (s', Some p)" "supplied m n s'"
proof -
  obtain al where al: "allocator (sp_kmem s) = Some al" "pa_inv al" and ok: "space_ok s"
    using assms(3) by (auto simp: supplied_def space_ok_def)
  let ?v = "snd (get_scratch_addr s)"
  have fr: "free_of s = pa_free al" using al by (simp add: free_of_def)
  have v: "?v \<in> scratch_pages" by (auto simp: get_scratch_addr_def scratch_pages_def)
  have ne: "pa_free al \<noteq> {}" "translate m (tables (sp_kmem s)) ?v = None" using assms(3) fr v by (auto simp: supplied_def)
  obtain al' p pt where k: "kalloc_page m (sp_kmem s) ?v Arbitrary = ((sp_kmem s)\<lparr>allocator := Some al', tables := pt\<rparr>, Inr p)"
      "p \<in> pa_free al" "pa_free al' = pa_free al - {p}" "unmap_4k m pt ?v = (tables (sp_kmem s), None)"
    using kalloc_exact [OF assms(2) v al ne] by metis
  obtain s' where s': "alloc_filled m c s = (s', Some p)" "allocator (sp_kmem s') = Some al'" "tables (sp_kmem s') = tables (sp_kmem s)"
    using k(1,4) by (simp add: alloc_filled_def get_scratch_addr_def Let_def split_def kleak_page_def)
  have "free_of s' = free_of s - {p}" using s'(2) k(3) fr by (simp add: free_of_def)
  moreover have "space_ok s'" by (rule alloc_filledE [OF assms(1) ok s'(1)])
  ultimately have "supplied m n s'" using assms(3) s'(3) k(2) fr by (auto simp: supplied_def)
  with s'(1) show thesis by (rule that)
qed

definition clones_ok :: "nat \<Rightarrow> 'pt mapper \<Rightarrow> (u64 \<Rightarrow> 'pt space \<Rightarrow> 'pt space \<times> u64 option) \<Rightarrow> bool" where
  "clones_ok l m rec \<longleftrightarrow>
    (\<forall>src s n. supplied m (ntables l (pmem s) src + n) s \<longrightarrow> tree l (pmem s) src \<longrightarrow>
       tables_of l (pmem s) src \<inter> free_of s = {} \<longrightarrow> (\<exists>s' new. rec src s = (s', Some new) \<and> supplied m n s'))"

definition tables_from :: "nat \<Rightarrow> nat \<Rightarrow> nat \<Rightarrow> table_mem \<Rightarrow> u64 \<Rightarrow> nat" where
  "tables_from i b l tm t = (\<Sum>j = i..<b. if subtable (tm t j) then ntables l tm (entry_addr (tm t j)) else 0)"

lemma tables_from_step:
  "i < b \<Longrightarrow> tables_from i b l tm t = (if subtable (tm t i) then ntables l tm (entry_addr (tm t i)) else 0) + tables_from (Suc i) b l tm t"
  unfolding tables_from_def by (simp add: sum.atLeast_Suc_lessThan)

lemma cow_entry_ok:
  assumes inv: "loop_inv b l src new s0 N i s" and i: "i < b" and tr: "tree_upto b l (pmem s0) src"
    and dis: "tables_upto b l (pmem s0) src \<inter> insert new (free_of s0) = {}"
    and rec: "l \<noteq> 0 \<Longrightarrow> clones_ok l m rec" and sup: "supplied m (tables_from i b l (pmem s0) src + n) s"
  shows "\<exists>s'. cow_entry rec (l = 0) src new i s = (s', True) \<and> supplied m (tables_from (Suc i) b l (pmem s0) src + n) s'"
proof -
  note inv' = inv [unfolded loop_inv_def]
  let ?e = "pmem s0 src i"
  let ?n = "tables_from (Suc i) b l (pmem s0) src + n"
  have e: "pmem s src i = ?e" using inv' by blast
  show ?thesis
  proof (cases "subtable ?e \<and> l \<noteq> 0")
    case False
    have "supplied m ?n s" using sup i by (intro supplied_mono [OF sup]) (simp add: tables_from_step)
    then show ?thesis using False e by (auto simp: cow_entry_def Let_def subtable_def)
  next
    case True
    let ?c = "entry_addr ?e"
    have keep: "\<forall>p \<in> tables_of l (pmem s0) ?c. pmem s p = pmem s0 p" using inv' i True le_refl [of i] by (elim conjE) blast
    note eq = tables_cong [OF keep] ntables_cong [OF keep]
    have "supplied m (ntables l (pmem s) ?c + ?n) s" using sup i True eq by (simp add: tables_from_step ac_simps)
    moreover have "tree l (pmem s) ?c" using eq tr i True by simp
    moreover have "tables_of l (pmem s) ?c \<inter> free_of s = {}"
    proof -
      have "tables_of l (pmem s0) ?c \<subseteq> tables_upto b l (pmem s0) src" using i True by auto
      moreover have "free_of s \<subseteq> free_of s0" using inv' by blast
      ultimately show ?thesis using dis eq(1) by blast
    qed
    ultimately obtain s1 c where "rec ?c s = (s1, Some c)" "supplied m ?n s1"
      using rec [unfolded clones_ok_def] True by blast
    then show ?thesis using True e by (simp add: cow_entry_def Let_def subtable_def)
  qed
qed

lemma cow_loop_ok:
  assumes "\<And>i s. a \<le> i \<Longrightarrow> i < b \<Longrightarrow> P i s \<Longrightarrow> \<exists>s'. step i s = (s', True) \<and> P (Suc i) s'" "P a s" "a \<le> b"
  shows "\<exists>s'. cow_loop step [a..<b] s = (s', True) \<and> P b s'"
  using assms
proof (induction "b - a" arbitrary: a s)
  case (Suc n)
  then have ab: "a < b" by simp
  obtain s1 where s1: "step a s = (s1, True)" "P (Suc a) s1" using Suc.prems(1) [OF _ ab Suc.prems(2)] by auto
  have "\<exists>s'. cow_loop step [Suc a..<b] s1 = (s', True) \<and> P b s'"
    by (intro Suc.hyps(1) [OF _ _ s1(2)]) (use Suc.prems(1) Suc.hyps(2) ab in \<open>auto\<close>)
  then show ?case using s1(1) ab by (simp add: upt_rec [of a b])
qed simp

lemma cow_clone_table_ok:
  assumes "mapper_frames m" "mapper_exact m scratch_pages"
  shows "0 < l \<Longrightarrow> clones_ok l m (cow_clone_table l m)"
proof (induction l)
  case (Suc l)
  have rec: "l \<noteq> 0 \<Longrightarrow> clones_ok l m (cow_clone_table l m)" using Suc.IH by simp
  show ?case unfolding clones_ok_def
  proof (intro allI impI)
    fix src and s :: "'a space" and n
    assume sup: "supplied m (ntables (Suc l) (pmem s) src + n) s" and tr: "tree (Suc l) (pmem s) src"
      and dis: "tables_of (Suc l) (pmem s) src \<inter> free_of s = {}"
    have "supplied m (Suc (tables_from 0 512 l (pmem s) src + n)) s" using sup by (simp add: tables_from_def)
    then obtain s0 new where s0: "alloc_filled m (\<lambda>_ _. 0) s = (s0, Some new)" "supplied m (tables_from 0 512 l (pmem s) src + n) s0"
      by (rule alloc_filled_ok [OF assms])
    have ok: "space_ok s" using sup by (simp add: supplied_def)
    note al = alloc_filledE [OF assms(1) ok s0(1)]
    have keep: "\<forall>p \<in> tables_of (Suc l) (pmem s) src. pmem s0 p = pmem s p" using al(2,5) dis by auto
    note same = tables_cong [OF keep] ntables_cong [OF keep]
    have nt: "tables_from 0 512 l (pmem s0) src = tables_from 0 512 l (pmem s) src" using same(2) by (simp add: tables_from_def)
    have tr0: "tree_upto 512 l (pmem s0) src" using same tr by (simp only: whole_table)
    have dis0: "tables_upto 512 l (pmem s0) src \<inter> insert new (free_of s0) = {}"
      using same dis al(2,4) unfolding whole_table by blast
    let ?P = "\<lambda>i s. (\<exists>N. loop_inv 512 l src new s0 N i s) \<and> supplied m (tables_from i 512 l (pmem s0) src + n) s"
    let ?step = "cow_entry (cow_clone_table l m) (l = 0) src new"
    have step: "\<exists>s'. ?step i s = (s', True) \<and> ?P (Suc i) s'" if i: "i < 512" and P: "?P i s" for i s
    proof -
      obtain N where N: "loop_inv 512 l src new s0 N i s" using P by blast
      obtain s' where s': "?step i s = (s', True)" "supplied m (tables_from (Suc i) 512 l (pmem s0) src + n) s'"
        using cow_entry_ok [OF N i tr0 dis0 rec] P by blast
      with cow_entry_step [OF N i tr0 dis0 al(3) cow_clone_table_clones [OF assms(1)] s'(1)] show ?thesis by blast
    qed
    have "loop_inv 512 l src new s0 {} 0 s0" using al(1) by (simp add: loop_inv_def)
    then have "?P 0 s0" using s0(2) nt by auto
    then have "\<exists>s'. cow_loop ?step [0..<512] s0 = (s', True) \<and> ?P 512 s'" by (intro cow_loop_ok step) simp_all
    then show "\<exists>s' new. cow_clone_table (Suc l) m src s = (s', Some new) \<and> supplied m n s'"
      using s0(1) by (auto simp: alloc_page_table_def tables_from_def)
  qed
qed simp

section \<open>Cloning an address space\<close>

lemma copy_kernel_half:
  assumes "l4 \<noteq> new"
  shows "pmem (copy_kernel_half l4 new s) = (pmem s)(new := (\<lambda>j. if 256 \<le> j \<and> j < 512 then pmem s l4 j else pmem s new j))"
    "sp_kmem (copy_kernel_half l4 new s) = sp_kmem s" "free_of (copy_kernel_half l4 new s) = free_of s"
    "space_ok (copy_kernel_half l4 new s) = space_ok s" "supplied m n (copy_kernel_half l4 new s) = supplied m n s"
proof -
  have "pmem (fold (\<lambda>i s. set_entry new i (pmem s l4 i) s) is s) = (pmem s)(new := (\<lambda>j. if j \<in> set is then pmem s l4 j else pmem s new j))
      \<and> sp_kmem (fold (\<lambda>i s. set_entry new i (pmem s l4 i) s) is s) = sp_kmem s" for "is"
    using assms by (induction "is" arbitrary: s) (auto simp: set_entry_def fun_eq_iff)
  note f = this [of "[256..<512]", folded copy_kernel_half_def, unfolded set_upt atLeastLessThan_iff]
  show "pmem (copy_kernel_half l4 new s) = (pmem s)(new := (\<lambda>j. if 256 \<le> j \<and> j < 512 then pmem s l4 j else pmem s new j))"
    by (rule f [THEN conjunct1])
  show k: "sp_kmem (copy_kernel_half l4 new s) = sp_kmem s" by (rule f [THEN conjunct2])
  show "free_of (copy_kernel_half l4 new s) = free_of s" by (simp add: free_of_def k)
  then show "space_ok (copy_kernel_half l4 new s) = space_ok s" "supplied m n (copy_kernel_half l4 new s) = supplied m n s"
    by (simp_all add: space_ok_def supplied_def k)
qed

lemma clone_l4_entry_cow:
  "\<not> has_flag (pmem s l4 i) HUGE_PAGE \<Longrightarrow> clone_l4_entry m l4 new i s = cow_entry (cow_clone_table 3 m) (3 = (0 :: nat)) l4 new i s"
  by (simp add: clone_l4_entry_def cow_entry_def Let_def)

lemma upto_cong:
  assumes "\<forall>i < b. tm' t i = tm t i" "\<forall>i < b. subtable (tm t i) \<longrightarrow> (\<forall>p \<in> tables_of l tm (entry_addr (tm t i)). tm' p = tm p)"
  shows "tables_upto b l tm' t = tables_upto b l tm t" "tree_upto b l tm' t \<longleftrightarrow> tree_upto b l tm t"
    "i < b \<Longrightarrow> leaf_entry tm' (Suc l) t (i # is) = leaf_entry tm (Suc l) t (i # is)"
    "tables_from 0 b l tm' t = tables_from 0 b l tm t"
proof -
  have c: "tables_of l tm' (entry_addr (tm t i)) = tables_of l tm (entry_addr (tm t i))
      \<and> (tree l tm' (entry_addr (tm t i)) \<longleftrightarrow> tree l tm (entry_addr (tm t i)))
      \<and> leaf_entry tm' l (entry_addr (tm t i)) is' = leaf_entry tm l (entry_addr (tm t i)) is'
      \<and> ntables l tm' (entry_addr (tm t i)) = ntables l tm (entry_addr (tm t i))"
    if "i < b" "subtable (tm t i)" for i is'
    using tables_cong [of l tm "entry_addr (tm t i)" tm' is'] ntables_cong [of l tm "entry_addr (tm t i)" tm'] assms(2) that
    by blast
  show "tables_upto b l tm' t = tables_upto b l tm t" using assms(1) c by auto
  show "tree_upto b l tm' t \<longleftrightarrow> tree_upto b l tm t" using assms(1) c by auto
  show "i < b \<Longrightarrow> leaf_entry tm' (Suc l) t (i # is) = leaf_entry tm (Suc l) t (i # is)"
    using assms(1) c [of i "is"] by (auto simp: subtable_def)
  show "tables_from 0 b l tm' t = tables_from 0 b l tm t" unfolding tables_from_def using assms(1) c by (auto intro!: sum.cong)
qed

lemma upto_cong_pages:
  assumes "\<forall>p \<in> tables_upto b l tm t. tm' p = tm p"
  shows "tables_upto b l tm' t = tables_upto b l tm t" "tree_upto b l tm' t \<longleftrightarrow> tree_upto b l tm t"
    "i < b \<Longrightarrow> leaf_entry tm' (Suc l) t (i # is) = leaf_entry tm (Suc l) t (i # is)"
    "tables_from 0 b l tm' t = tables_from 0 b l tm t"
  by (intro upto_cong; use assms in auto)+

lemma clone_user_half:
  assumes m: "mapper_frames m" "mapper_exact m scratch_pages" and sup: "supplied m (tables_from 0 256 3 (pmem s0) l4) s0"
    and tr: "tree_upto 256 3 (pmem s0) l4" and dis: "tables_upto 256 3 (pmem s0) l4 \<inter> insert new (free_of s0) = {}"
    and new: "new \<notin> free_of s0" and huge: "\<forall>i < 256. \<not> has_flag (pmem s0 l4 i) HUGE_PAGE"
  shows "\<exists>s' N. cow_loop (clone_l4_entry m l4 new) [0..<256] s0 = (s', True) \<and> loop_inv 256 3 l4 new s0 N 256 s'"
proof -
  let ?P = "\<lambda>i s. (\<exists>N. loop_inv 256 3 l4 new s0 N i s) \<and> supplied m (tables_from i 256 3 (pmem s0) l4 + 0) s"
  have step: "\<exists>s'. clone_l4_entry m l4 new i s = (s', True) \<and> ?P (Suc i) s'" if i: "i < 256" and P: "?P i s" for i s
  proof -
    obtain N where N: "loop_inv 256 3 l4 new s0 N i s" using P by blast
    have "pmem s l4 i = pmem s0 l4 i" using N unfolding loop_inv_def by blast
    then have eq: "clone_l4_entry m l4 new i s = cow_entry (cow_clone_table 3 m) (3 = (0 :: nat)) l4 new i s"
      using huge i by (intro clone_l4_entry_cow) simp
    obtain s' where s': "clone_l4_entry m l4 new i s = (s', True)" "supplied m (tables_from (Suc i) 256 3 (pmem s0) l4 + 0) s'"
      using cow_entry_ok [OF N i tr dis cow_clone_table_ok [OF m], of 0] P unfolding eq by auto
    with cow_entry_step [OF N i tr dis new cow_clone_table_clones [OF m(1)]] show ?thesis unfolding eq by blast
  qed
  have "loop_inv 256 3 l4 new s0 {} 0 s0" using sup by (simp add: loop_inv_def supplied_def)
  then have "?P 0 s0" using sup by auto
  then have "\<exists>s'. cow_loop (clone_l4_entry m l4 new) [0..<256] s0 = (s', True) \<and> ?P 256 s'"
    by (intro cow_loop_ok step) simp_all
  then show ?thesis by blast
qed

lemma clone_isolates:
  assumes "mapper_frames m" "mapper_exact m scratch_pages" "supplied m (Suc (tables_from 0 256 3 (pmem s) l4)) s"
    and "tree_upto 256 3 (pmem s) l4" "tables_upto 256 3 (pmem s) l4 \<inter> free_of s = {}"
    and "\<forall>i < 256. \<not> has_flag (pmem s l4 i) HUGE_PAGE"
  shows "\<exists>s' new. clone_address_space m l4 s = (s', Inr new)
    \<and> (\<forall>i < 256. \<forall>is. leaf_entry (pmem s') 4 l4 (i # is) = map_option cow_mark (leaf_entry (pmem s) 4 l4 (i # is)))
    \<and> (\<forall>i < 256. \<forall>is. leaf_entry (pmem s') 4 new (i # is) = leaf_entry (pmem s') 4 l4 (i # is))
    \<and> (\<forall>i < 256. \<forall>is e. leaf_entry (pmem s') 4 new (i # is) = Some e \<longrightarrow> \<not> has_flag e HUGE_PAGE \<longrightarrow> \<not> has_flag e WRITABLE)
    \<and> (\<forall>i. 256 \<le> i \<longrightarrow> i < 511 \<longrightarrow> pmem s' new i = pmem s l4 i)
    \<and> pmem s' new 511 = (new AND NOT 0xFFF) OR (PRESENT OR WRITABLE)
    \<and> tables_upto 256 3 (pmem s') new \<subseteq> free_of s - free_of s'
    \<and> tables_upto 256 3 (pmem s') l4 = tables_upto 256 3 (pmem s) l4
    \<and> (\<forall>p. p \<notin> tables_upto 256 3 (pmem s) l4 \<union> free_of s \<longrightarrow> pmem s' p = pmem s p)"
proof -
  obtain s1 new where s1: "alloc_filled m (\<lambda>_ _. 0) s = (s1, Some new)" "supplied m (tables_from 0 256 3 (pmem s) l4) s1"
    by (rule alloc_filled_ok [OF assms(1-3)])
  have ok: "space_ok s" using assms(3) by (simp add: supplied_def)
  note al = alloc_filledE [OF assms(1) ok s1(1)]
  let ?s0 = "copy_kernel_half l4 new s1"
  have ne: "l4 \<noteq> new" using al(2) assms(5) by auto
  note ck = copy_kernel_half [OF ne, where s = s1]
  have pm: "pmem ?s0 p = pmem s p" if "p \<noteq> new" for p using that by (simp add: ck(1) al(5))
  have nt: "p \<noteq> new" if "p \<in> tables_upto 256 3 (pmem s) l4" for p using that al(2) assms(5) by blast
  have keep: "\<forall>p \<in> tables_upto 256 3 (pmem s) l4. pmem ?s0 p = pmem s p" by (intro ballI pm nt)
  note same = upto_cong_pages [OF keep]
  have tr: "tree_upto 256 3 (pmem ?s0) l4" using same(2) assms(4) by simp
  have dis: "tables_upto 256 3 (pmem ?s0) l4 \<inter> insert new (free_of ?s0) = {}"
    unfolding same(1) ck(3) using assms(5) al(2,4) by blast
  have "\<exists>s' N. cow_loop (clone_l4_entry m l4 new) [0..<256] ?s0 = (s', True) \<and> loop_inv 256 3 l4 new ?s0 N 256 s'"
    by (intro clone_user_half [OF assms(1,2) _ tr dis])
      (use s1(2) same(4) ck(3,5) al(3) assms(6) pm [OF ne] in \<open>simp_all\<close>)
  then obtain s2 N where s2: "cow_loop (clone_l4_entry m l4 new) [0..<256] ?s0 = (s2, True)" "loop_inv 256 3 l4 new ?s0 N 256 s2"
    by blast
  note inv = s2(2) [unfolded loop_inv_def]
  let ?s' = "set_entry new 511 ((new AND NOT 0xFFF) OR (PRESENT OR WRITABLE)) s2"
  have z: "\<forall>j < 256. pmem ?s0 new j = 0" by (simp add: ck(1) al(5))
  note fin = loop_inv_done [OF s2(2) _ z tr]
  have N: "new \<notin> N" "N \<subseteq> free_of s" "N \<inter> free_of s2 = {}" "free_of s2 \<subseteq> free_of s1"
    using inv al(3,4) unfolding ck(3) by blast+
  have other: "pmem ?s' p = pmem s2 p" if "p \<noteq> new" for p using that by (rule set_entry_page)
  have "new \<notin> tables_of 3 (pmem s2) (entry_addr (pmem s2 new i))" if "i < 256" "subtable (pmem s2 new i)" for i
    using fin(6) that N(1) by auto
  then have k1: "\<forall>i < 256. subtable (pmem s2 new i) \<longrightarrow> (\<forall>p \<in> tables_of 3 (pmem s2) (entry_addr (pmem s2 new i)). pmem ?s' p = pmem s2 p)"
    by (intro allI impI ballI other) auto
  note child = upto_cong [of 256 "pmem ?s'" new "pmem s2" 3, OF _ k1]
  have src: "tables_upto 256 3 (pmem s2) l4 = tables_upto 256 3 (pmem s) l4" using fin(1) same(1) by simp
  have "\<forall>p \<in> tables_upto 256 3 (pmem s2) l4. pmem ?s' p = pmem s2 p" unfolding src by (intro ballI other nt)
  note parent = upto_cong_pages [OF this]
  have leaf: "leaf_entry (pmem ?s') 4 l4 (i # is) = map_option cow_mark (leaf_entry (pmem s) 4 l4 (i # is))
      \<and> leaf_entry (pmem ?s') 4 new (i # is) = leaf_entry (pmem ?s') 4 l4 (i # is)" if "i < 256" for i "is"
    using child(3) [OF _ that, of "is"] parent(3) [OF that, of "is"] fin(4,5) [OF _ that, of "is"] same(3) [OF that, of "is"]
    by (simp add: numeral_eq_Suc del: leaf_entry.simps)
  have "\<not> has_flag e WRITABLE" if "i < 256" "leaf_entry (pmem ?s') 4 new (i # is) = Some e" "\<not> has_flag e HUGE_PAGE" for i "is" e
    using leaf [OF that(1), of "is"] that(2,3) cow_mark_flags(2,3) by auto
  moreover have "clone_address_space m l4 s = (?s', Inr new)"
    using s1(1) s2(1) by (simp add: clone_address_space_def alloc_page_table_def del: upt_conv_Cons_Cons)
  moreover have "pmem ?s' new i = pmem s l4 i" if "256 \<le> i" "i < 511" for i
  proof -
    have "pmem s2 new i = pmem ?s0 new i" using inv that(1) by blast
    then show ?thesis using that by (simp add: ck(1) al(5) ne)
  qed
  moreover have "tables_upto 256 3 (pmem ?s') new \<subseteq> free_of s - free_of ?s'"
    using child(1) fin(3) N al(2,3) by auto
  moreover have "tables_upto 256 3 (pmem ?s') l4 = tables_upto 256 3 (pmem s) l4" using parent(1) src by simp
  moreover have "pmem ?s' p = pmem s p" if "p \<notin> tables_upto 256 3 (pmem s) l4 \<union> free_of s" for p
  proof -
    have "p \<noteq> new" "p \<notin> N" using that N(2) al(2) by blast+
    moreover have "p \<notin> tables_upto 256 3 (pmem ?s0) l4 \<union> insert new N" using calculation that same(1) by blast
    ultimately show ?thesis using inv other pm by metis
  qed
  ultimately show ?thesis using leaf by (intro exI [of _ ?s'] exI [of _ new]) simp
qed

text \<open>
  C3: Forking an address space isolates the child.  With a page table tree in the user half and as many free
  frames as it has tables, and one more, cloning succeeds.  Parent and child then have the same leaf
  entries in the user half, which are the parent's old ones with every writable page read-only and
  marked copy-on-write, so that neither can write a 4 KiB page of the other; the kernel half is shared; the
  child's tables are frames that were free, none of them a table of the parent, and no other page of
  memory is changed.
\<close>

theorem clone_address_space_isolates:
  assumes "mapper_frames m" "mapper_exact m scratch_pages" "supplied m (Suc (tables_from 0 256 3 (pmem s) l4)) s"
    and "tree_upto 256 3 (pmem s) l4" "tables_upto 256 3 (pmem s) l4 \<inter> free_of s = {}"
    and "\<forall>i < 256. \<not> has_flag (pmem s l4 i) HUGE_PAGE"
  shows "\<exists>s' new. clone_address_space m l4 s = (s', Inr new)
    \<and> (\<forall>i < 256. \<forall>is. leaf_entry (pmem s') 4 l4 (i # is) = map_option cow_mark (leaf_entry (pmem s) 4 l4 (i # is)))
    \<and> (\<forall>i < 256. \<forall>is. leaf_entry (pmem s') 4 new (i # is) = leaf_entry (pmem s') 4 l4 (i # is))
    \<and> (\<forall>i < 256. \<forall>is e. leaf_entry (pmem s') 4 new (i # is) = Some e \<longrightarrow> \<not> has_flag e HUGE_PAGE \<longrightarrow> \<not> has_flag e WRITABLE)
    \<and> (\<forall>i. 256 \<le> i \<longrightarrow> i < 511 \<longrightarrow> pmem s' new i = pmem s l4 i)
    \<and> pmem s' new 511 = (new AND NOT 0xFFF) OR (PRESENT OR WRITABLE)
    \<and> tables_upto 256 3 (pmem s') new \<subseteq> free_of s - free_of s'
    \<and> tables_upto 256 3 (pmem s') l4 = tables_upto 256 3 (pmem s) l4
    \<and> (\<forall>p. p \<notin> tables_upto 256 3 (pmem s) l4 \<union> free_of s \<longrightarrow> pmem s' p = pmem s p)"
  by (rule clone_isolates [OF assms])

text \<open>A process with one writable page, in the tables 0x10000 to 0x13000.\<close>

definition sample_tables :: table_mem where
  "sample_tables p i =
    (if i = 0 then (if p = 0x10000 then 0x11007 else if p = 0x11000 then 0x12007 else if p = 0x12000 then 0x13007
       else if p = 0x13000 then 0x20007 else 0) else 0)"

definition sample_space :: "(u64 \<Rightarrow> u64 option) space" where
  "sample_space = \<lparr>sp_kmem = small_kmem, pmem = sample_tables, refcounts = (\<lambda>_. None), scratch_counter = 0\<rparr>"

lemma sample_frames4: "free_of sample_space = {0x1000, 0x2000, 0x3000, 0x4000}"
  by (simp add: free_of_def sample_space_def small_kmem_ok)

lemma sample_supplied: "n \<le> 4 \<Longrightarrow> supplied flat_mapper n sample_space"
proof -
  assume n: "n \<le> 4"
  have c: "card {0x1000, 0x2000, 0x3000, 0x4000 :: u64} = 4" by simp
  have t: "tables small_kmem = (\<lambda>_. None)" by (simp add: small_kmem_def init_memory_def)
  show ?thesis unfolding supplied_def space_ok_def sample_frames4 c using n small_kmem_ok
    by (simp add: sample_space_def frame_addr_def flat_mapper_def t)
qed

lemma sample_subtable:
  "subtable (sample_tables t i) \<longleftrightarrow> i = 0 \<and> (t = 0x10000 \<or> t = 0x11000 \<or> t = 0x12000 \<or> t = 0x13000)"
  by (simp add: sample_tables_def subtable_def has_flag_bits bit_iff_odd)

lemma sample_addr:
  "entry_addr (sample_tables 0x10000 0) = 0x11000" "entry_addr (sample_tables 0x11000 0) = 0x12000"
  "entry_addr (sample_tables 0x12000 0) = 0x13000" "entry_addr (sample_tables 0x13000 0) = 0x20000"
  by (simp_all add: sample_tables_def entry_addr_def)

text \<open>What a table with a single entry, the first, contributes.\<close>

lemma sample_level:
  assumes "t \<in> {0x10000, 0x11000, 0x12000, 0x13000}"
  shows "tables_upto b l sample_tables t = insert t (if 0 < b then tables_of l sample_tables (entry_addr (sample_tables t 0)) else {})"
    "tree_upto b l sample_tables t \<longleftrightarrow> (0 < b \<longrightarrow> tree l sample_tables (entry_addr (sample_tables t 0))
       \<and> t \<notin> tables_of l sample_tables (entry_addr (sample_tables t 0)))"
    "0 < b \<Longrightarrow> tables_from 0 b l sample_tables t = ntables l sample_tables (entry_addr (sample_tables t 0))"
proof -
  have st: "subtable (sample_tables t i) \<longleftrightarrow> i = 0" for i using assms by (auto simp: sample_subtable)
  show "tables_upto b l sample_tables t = insert t (if 0 < b then tables_of l sample_tables (entry_addr (sample_tables t 0)) else {})"
    "tree_upto b l sample_tables t \<longleftrightarrow> (0 < b \<longrightarrow> tree l sample_tables (entry_addr (sample_tables t 0))
       \<and> t \<notin> tables_of l sample_tables (entry_addr (sample_tables t 0)))"
    by (auto simp: st)
  show "0 < b \<Longrightarrow> tables_from 0 b l sample_tables t = ntables l sample_tables (entry_addr (sample_tables t 0))"
    unfolding tables_from_def st by (subst sum.delta) simp_all
qed

lemma ntables_Suc: "ntables (Suc l) tm t = Suc (tables_from 0 512 l tm t)"
  by (simp add: tables_from_def)

lemma sample_tree:
  "tables_of 3 sample_tables 0x11000 = {0x11000, 0x12000, 0x13000} \<and> tree 3 sample_tables 0x11000 \<and> ntables 3 sample_tables 0x11000 = 3"
proof -
  have 1: "tables_of 1 sample_tables 0x13000 = {0x13000}" "tree 1 sample_tables 0x13000" "ntables 1 sample_tables 0x13000 = 1"
    unfolding One_nat_def whole_table ntables_Suc by (simp_all add: sample_level del: upto_defs)
  have 2: "tables_of 2 sample_tables 0x12000 = {0x12000, 0x13000}" "tree 2 sample_tables 0x12000" "ntables 2 sample_tables 0x12000 = 2"
    unfolding Suc_1 [symmetric] whole_table ntables_Suc
    using 1 by (simp_all add: sample_level sample_addr del: upto_defs tables_of.simps tree.simps ntables.simps One_nat_def)
  show ?thesis
    unfolding numeral_3_eq_3 numeral_2_eq_2 [symmetric] whole_table ntables_Suc
    using 2 by (simp add: sample_level sample_addr del: upto_defs tables_of.simps tree.simps ntables.simps)
qed

lemma sample_user_half:
  "tables_upto 256 3 sample_tables 0x10000 = {0x10000, 0x11000, 0x12000, 0x13000}" "tree_upto 256 3 sample_tables 0x10000"
  "tables_from 0 256 3 sample_tables 0x10000 = 3"
  using sample_tree by (simp_all add: sample_level sample_addr del: upto_defs)

theorem clone_address_space_isolates_witness:
  "\<exists>s' new. clone_address_space flat_mapper 0x10000 sample_space = (s', Inr new)
    \<and> leaf_entry (pmem s') 4 new [0, 0, 0, 0] = Some 0x20205 \<and> leaf_entry (pmem s') 4 0x10000 [0, 0, 0, 0] = Some 0x20205
    \<and> new \<in> {0x1000, 0x2000, 0x3000, 0x4000}"
proof -
  have pm: "pmem sample_space = sample_tables" by (simp add: sample_space_def)
  have l: "leaf_entry sample_tables 4 0x10000 [0, 0, 0, 0] = Some 0x20007" by code_simp
  have c: "cow_mark 0x20007 = 0x20205" by code_simp
  have h: "\<forall>i < 256. \<not> has_flag (pmem sample_space 0x10000 i) HUGE_PAGE"
    by (simp add: pm sample_tables_def has_flag_bits bit_iff_odd)
  have "\<exists>s' new. clone_address_space flat_mapper 0x10000 sample_space = (s', Inr new)
    \<and> (\<forall>i < 256. \<forall>is. leaf_entry (pmem s') 4 0x10000 (i # is) = map_option cow_mark (leaf_entry (pmem sample_space) 4 0x10000 (i # is)))
    \<and> (\<forall>i < 256. \<forall>is. leaf_entry (pmem s') 4 new (i # is) = leaf_entry (pmem s') 4 0x10000 (i # is))
    \<and> tables_upto 256 3 (pmem s') new \<subseteq> free_of sample_space - free_of s'"
    using clone_address_space_isolates [OF flat_mapper_ok(1) flat_mapper_ok(2) sample_supplied, of "0x10000"] sample_user_half h
    unfolding pm sample_frames4 by (auto simp del: upto_defs)
  then obtain s' new where s': "clone_address_space flat_mapper 0x10000 sample_space = (s', Inr new)"
      "leaf_entry (pmem s') 4 0x10000 [0, 0, 0, 0] = Some 0x20205" "leaf_entry (pmem s') 4 new [0, 0, 0, 0] = Some 0x20205"
      "tables_upto 256 3 (pmem s') new \<subseteq> free_of sample_space"
    using l c unfolding pm by (auto simp del: upto_defs leaf_entry.simps dest!: subset_trans [OF _ Diff_subset])
  have "new \<in> tables_upto 256 3 (pmem s') new" by simp
  then show ?thesis using s' unfolding sample_frames4 by blast
qed

section \<open>The write fault\<close>

definition l3_entry :: "table_mem \<Rightarrow> u64 \<Rightarrow> u64 \<Rightarrow> u64" where
  "l3_entry tm p4 a = tm (entry_addr (tm p4 (table_index 4 a))) (table_index 3 a)"

definition l2_entry :: "table_mem \<Rightarrow> u64 \<Rightarrow> u64 \<Rightarrow> u64" where
  "l2_entry tm p4 a = tm (entry_addr (l3_entry tm p4 a)) (table_index 2 a)"

definition l1_table :: "table_mem \<Rightarrow> u64 \<Rightarrow> u64 \<Rightarrow> u64" where
  "l1_table tm p4 a = entry_addr (l2_entry tm p4 a)"

definition l1_entry :: "table_mem \<Rightarrow> u64 \<Rightarrow> u64 \<Rightarrow> u64" where
  "l1_entry tm p4 a = tm (l1_table tm p4 a) (table_index 1 a)"

definition walk_present :: "table_mem \<Rightarrow> u64 \<Rightarrow> u64 \<Rightarrow> bool" where
  "walk_present tm p4 a \<longleftrightarrow> has_flag (tm p4 (table_index 4 a)) PRESENT \<and> has_flag (l3_entry tm p4 a) PRESENT
     \<and> has_flag (l2_entry tm p4 a) PRESENT \<and> has_flag (l1_entry tm p4 a) PRESENT"

lemmas walk_defs = l3_entry_def l2_entry_def l1_table_def l1_entry_def walk_present_def

lemma handle_cow_fault_walk:
  "handle_cow_fault m p4 a s =
    (let e = l1_entry (pmem s) p4 a; t = l1_table (pmem s) p4 a; i = table_index 1 a; old = entry_addr e;
         fl = (entry_flag_bits e AND NOT COW_FLAG) OR WRITABLE
     in if \<not> walk_present (pmem s) p4 a \<or> \<not> has_flag e COW_FLAG then (s, False)
        else if refcount_get old s = 1 then (set_entry t i (old OR fl) s, True)
        else (case alloc_and_copy_page m old s of
                (s, None) \<Rightarrow> (s, False)
              | (s, Some new) \<Rightarrow> (fst (refcount_dec old (set_entry t i (new OR fl) s)), True)))"
  by (simp add: handle_cow_fault_def walk_defs Let_def)

lemma private_flags:
  fixes e p :: u64
  assumes "frame_addr p"
  defines "e' \<equiv> p OR ((entry_flag_bits e AND NOT COW_FLAG) OR WRITABLE)"
  shows "entry_addr e' = p" "has_flag e' WRITABLE" "\<not> has_flag e' COW_FLAG" "has_flag e' PRESENT \<longleftrightarrow> has_flag e PRESENT"
proof -
  let ?f = "(entry_flag_bits e AND NOT COW_FLAG) OR WRITABLE"
  have "((a AND b) OR c) AND M = ((a AND M) AND b) OR (c AND M)" for a b c M :: u64
    by (rule bit_word_eqI) (auto simp: bit_or_iff bit_and_iff)
  moreover have "WRITABLE AND ADDR_MASK = 0" by (simp add: WRITABLE_def)
  ultimately have m: "?f AND ADDR_MASK = 0" by (simp only: flag_bits_mask) simp
  note j = join_entry [OF assms(1) m]
  show "entry_addr e' = p" unfolding e'_def by (rule j(1))
  have b: "bit e' n \<longleftrightarrow> bit ?f n" if "n \<in> {0, 1, 9}" for n
    using bit_flag_bits [of e' n] that j(2) unfolding e'_def by auto
  have f: "bit ?f 0 \<longleftrightarrow> bit e 0" "bit ?f 1" "\<not> bit ?f 9"
    by (simp_all add: bit_or_iff bit_and_iff bit_not_iff bit_flag_bits WRITABLE_def COW_FLAG_def)
  show "has_flag e' WRITABLE" "\<not> has_flag e' COW_FLAG" "has_flag e' PRESENT \<longleftrightarrow> has_flag e PRESENT"
    using b f by (simp_all add: has_flag_bits)
qed

lemma refcount_dec_simps [simp]: "pmem (fst (refcount_dec p s)) = pmem s" "free_of (fst (refcount_dec p s)) = free_of s"
  by (simp_all add: refcount_dec_def free_of_def split: option.splits)

lemma refcount_get_dec:
  "refcount_get p s \<noteq> 1 \<Longrightarrow> refcount_get p (fst (refcount_dec p s)) = refcount_get p s - 1"
  by (simp add: refcount_get_def refcount_dec_def split: option.splits)


text \<open>The same process after a fork, its page counted twice.\<close>

definition shared_space :: "(u64 \<Rightarrow> u64 option) space" where
  "shared_space = (set_entry 0x13000 0 0x20205 sample_space)\<lparr>refcounts := [0x20000 \<mapsto> 2]\<rparr>"


section \<open>Pages that are shared without being counted\<close>

text \<open>
  A page that is not writable is entered in the child as it is, without counting it.  That is every page already
  marked by an earlier fork: the second child is a third user of a page whose count is two, so that the
  handler gives the page itself to the second process that writes it, while the third still reads it.
\<close>

lemma second_fork_not_counted:
  assumes "has_flag (pmem s src i) PRESENT" "\<not> has_flag (pmem s src i) WRITABLE" "src \<noteq> new"
  shows "\<exists>s'. cow_entry rec True src new i s = (s', True) \<and> pmem s' new i = pmem s src i \<and> pmem s' src i = pmem s src i
    \<and> refcounts s' = refcounts s"
  using assms by (auto simp: cow_entry_def Let_def)

text \<open>A page that is mapped without the mark is freed by every address space that has it.\<close>

lemma unmarked_page_freed:
  assumes "has_flag (pmem s t i) PRESENT" "\<not> has_flag (pmem s t i) HUGE_PAGE" "\<not> has_flag (pmem s t i) COW_FLAG"
  shows "free_entry rec True t i s = free_frame (entry_addr (pmem s t i)) s"
  using assms by (simp add: free_entry_def Let_def)

end
