(* ===== verification/Syscalls.thy ===== *)
theory Syscalls
  imports Scheduler Isolation
begin

text \<open>
  The system calls, \<open>zenos-kernel/src/syscall\<close>: their dispatch and every handler, over the process
  table, the open files, the filesystem, the terminal and the address spaces.  What the processor and other
  crates supply, among them the ELF parser, the mapper of an address space and the place of heap
  allocations, is the record \<open>env\<close>.
\<close>

section \<open>The state\<close>

text \<open>
  \<open>sys_pages\<close>, \<open>sys_counts\<close> and \<open>sys_scratch\<close> are what \<open>Isolation\<close> adds to the kernel memory; \<open>tty_out\<close> is what
  was written to the terminal.
\<close>

record ('pt, 'i, 'w) sys =
  kern :: "('pt, 'i) kernel"
  fsys :: 'w
  tty_out :: bytes
  sys_pages :: table_mem
  sys_counts :: "u64 \<Rightarrow> u32 option"
  sys_scratch :: u64

text \<open>The operations of an inode the drivers have besides those of \<open>Vfs\<close>.\<close>

record ('w, 'i) inode_ops =
  in_kind :: "'i \<Rightarrow> 'w \<Rightarrow> file_type"
  in_num :: "'i \<Rightarrow> 'w \<Rightarrow> u64"
  in_set_size :: "'i \<Rightarrow> u64 \<Rightarrow> 'w \<Rightarrow> 'w"
  in_truncate :: "'i \<Rightarrow> u64 \<Rightarrow> 'w \<Rightarrow> ('w, file_error fault, unit) run"
  in_stat :: "'i \<Rightarrow> 'w \<Rightarrow> ('w, file_error fault, stat) run"
  in_read_dir :: "'i \<Rightarrow> 'w \<Rightarrow> ('w, file_error fault, 'i dir_entry list) run"

text \<open>
  The surroundings of one call: \<open>e_polls\<close> are the answers of the terminal to \<open>Stdin\<close>, \<open>e_heap\<close> says where the copies of
  \<open>argv\<close> and \<open>envp\<close> and the arrays of pointers to them are, and \<open>e_beyond\<close> is what lies behind the buffer of a file.
\<close>

record ('pt, 'w, 'f, 'i) env =
  e_mapper :: "u64 \<Rightarrow> 'pt mapper"
  e_ops :: "('w, 'f, 'i) vfs_ops"
  e_ino :: "('w, 'i) inode_ops"
  e_vfs :: "'f vfs"
  e_now :: u64
  e_fx :: bytes
  e_polls :: "u8 option option list"
  e_idle :: idle_task
  e_user_cs :: u64
  e_user_ss :: u64
  e_elf :: "bytes \<Rightarrow> elf_file option"
  e_heap :: "bytes list \<Rightarrow> bytes list \<Rightarrow> memory \<times> u64 \<times> u64"
  e_beyond :: memory
  e_padding :: "nat \<Rightarrow> bytes"

text \<open>How a call ends: with a value, halted until it is rescheduled, in another context, or in a new program.\<close>

datatype outcome = Returned u64 | Halted | Switched u64 process_state | Entered u64 u64

type_synonym ('pt, 'i, 'w) sys_run = "(('pt, 'i, 'w) sys, unit fault, outcome) run"

definition ret :: "('pt, 'i, 'w) sys \<Rightarrow> u64 \<Rightarrow> ('pt, 'i, 'w) sys_run" where
  "ret s v = Some (s, Inr (Returned v))"

text \<open>An operation whose error is handled and whose panic is not.\<close>

definition catch :: "('s, file_error fault, 'a) run \<Rightarrow> ('s, unit fault, file_error + 'a) run" where
  "catch m = map_option (apsnd (\<lambda>r. case r of Inr a \<Rightarrow> Inr (Inr a) | Inl (Fail e) \<Rightarrow> Inr (Inl e) | Inl Panic \<Rightarrow> Inl Panic)) m"

definition cur :: "('pt, 'i, 'w) sys \<Rightarrow> 'i process option" where
  "cur s = current_proc (kern s)"

text \<open>A change of the current process, through the per-CPU pointer.\<close>

definition set_cur :: "'i process \<Rightarrow> ('pt, 'i, 'w) sys \<Rightarrow> ('pt, 'i, 'w) sys" where
  "set_cur p s =
    (case curr_proc (mach (kern s)) of
       None \<Rightarrow> s
     | Some i \<Rightarrow> s\<lparr>kern := (kern s)\<lparr>procs := (procs (kern s))[i := p]\<rparr>\<rparr>)"

definition set_shared :: "'i shared \<Rightarrow> ('pt, 'i, 'w) sys \<Rightarrow> ('pt, 'i, 'w) sys" where
  "set_shared w s = s\<lparr>kern := (kern s)\<lparr>kshared := w\<rparr>\<rparr>"

definition set_mach :: "'pt machine \<Rightarrow> ('pt, 'i, 'w) sys \<Rightarrow> ('pt, 'i, 'w) sys" where
  "set_mach c s = s\<lparr>kern := (kern s)\<lparr>mach := c\<rparr>\<rparr>"

definition space_of :: "('pt, 'i, 'w) sys \<Rightarrow> 'pt space" where
  "space_of s = \<lparr>sp_kmem = mach_kmem (mach (kern s)), pmem = sys_pages s, refcounts = sys_counts s, scratch_counter = sys_scratch s\<rparr>"

definition set_space :: "'pt space \<Rightarrow> ('pt, 'i, 'w) sys \<Rightarrow> ('pt, 'i, 'w) sys" where
  "set_space sp s = (set_mach ((mach (kern s))\<lparr>mach_kmem := sp_kmem sp\<rparr>) s)
     \<lparr>sys_pages := pmem sp, sys_counts := refcounts sp, sys_scratch := scratch_counter sp\<rparr>"

section \<open>User memory of the caller\<close>

definition from_user :: "('pt, 'w, 'f, 'i) env \<Rightarrow> ('pt, 'i, 'w) sys \<Rightarrow> u64 \<Rightarrow> nat \<Rightarrow> u64 \<Rightarrow> (unit, bytes) result" where
  "from_user env s user_ptr sz count =
    (let c = mach (kern s) in copy_from_user (e_mapper env (cpu_cr3 c)) (mach_kmem c) (umem c (cpu_cr3 c)) user_ptr sz count)"

definition to_user :: "('pt, 'w, 'f, 'i) env \<Rightarrow> u64 \<Rightarrow> bytes \<Rightarrow> ('pt, 'i, 'w) sys \<Rightarrow> ('pt, 'i, 'w) sys \<times> (unit, unit) result" where
  "to_user env user_ptr buf s =
    (let c = mach (kern s); a = cpu_cr3 c;
         (mem, r) = copy_to_user (e_mapper env a) (mach_kmem c) (umem c a) user_ptr buf
     in (set_mach (c\<lparr>umem := (umem c)(a := mem)\<rparr>) s, r))"

definition user_string :: "('pt, 'w, 'f, 'i) env \<Rightarrow> ('pt, 'i, 'w) sys \<Rightarrow> u64 \<Rightarrow> nat \<Rightarrow> (u64, string) result" where
  "user_string env s user_ptr max_len =
    (let c = mach (kern s) in copy_string (e_mapper env (cpu_cr3 c)) (mach_kmem c) (umem c (cpu_cr3 c)) user_ptr max_len)"

section \<open>Files and streams behind one interface\<close>

type_synonym 'w io = "'w \<times> std_stream inode list \<times> bytes"

definition stream_error :: "std_stream \<Rightarrow> stream_op \<Rightarrow> file_error" where
  "stream_error t oper = (case stream_default t oper of Some e \<Rightarrow> e | None \<Rightarrow> UnsupportedOperation)"

definition stream_read :: "u8 option option list \<Rightarrow> nat \<Rightarrow> nat \<Rightarrow> 'w io \<Rightarrow> ('w io, file_error fault, bytes) run" where
  "stream_read polls j n = (\<lambda>(w, inos, out).
    case ino_data (inos ! j) of
      Stdin _ \<Rightarrow> Option.bind (stdin_read n [] polls) (\<lambda>bs. Some ((w, inos, out), Inr bs))
    | t \<Rightarrow> Some ((w, inos, out), Inl (Fail (stream_error t StreamRead))))"

definition stream_write :: "nat \<Rightarrow> bytes \<Rightarrow> 'w io \<Rightarrow> ('w io, file_error fault, nat) run" where
  "stream_write j buf = (\<lambda>(w, inos, out).
    case ino_data (inos ! j) of
      Stdout _ \<Rightarrow> (let (out, r) = stdout_write buf out in Some ((w, inos, out), map_sum Fail id r))
    | Stderr _ \<Rightarrow> (let (out, r) = stderr_write buf out in Some ((w, inos, out), map_sum Fail id r))
    | t \<Rightarrow> Some ((w, inos, out), Inl (Fail (stream_error t StreamWrite))))"

definition on_fs :: "('w \<Rightarrow> ('w, 'e, 'a) run) \<Rightarrow> 'w io \<Rightarrow> ('w io, 'e, 'a) run" where
  "on_fs f = (\<lambda>(w, x). run_on (\<lambda>w. (w, x)) (f w))"

definition as_inode :: "('s, 'e, 'i) run \<Rightarrow> ('s, 'e, 'i file_ref) run" where
  "as_inode m = lbind m (\<lambda>s i. Some (s, Inr (FsInode i)))"

definition ref_ops :: "('pt, 'w, 'f, 'i) env \<Rightarrow> ('w io, 'f, 'i file_ref) vfs_ops" where
  "ref_ops env = (let ops = e_ops env in
    \<lparr>op_root_dir = (\<lambda>f. as_inode \<circ> on_fs (op_root_dir ops f)),
     op_lookup = (\<lambda>r nm s. case r of
         FsInode i \<Rightarrow> as_inode (on_fs (op_lookup ops i nm) s)
       | StdInode j \<Rightarrow> Some (s, Inl (Fail (stream_error (ino_data (fst (snd s) ! j)) StreamLookup)))),
     op_create = (\<lambda>r nm ft permissions s. case r of
         FsInode i \<Rightarrow> as_inode (on_fs (op_create ops i nm ft permissions) s)
       | StdInode j \<Rightarrow> Some (s, Inl (Fail (stream_error (ino_data (fst (snd s) ! j)) StreamCreate)))),
     op_read = (\<lambda>r offset n. case r of
         FsInode i \<Rightarrow> on_fs (op_read ops i offset n) | StdInode j \<Rightarrow> stream_read (e_polls env) j n),
     op_write = (\<lambda>r offset buf. case r of
         FsInode i \<Rightarrow> on_fs (op_write ops i offset buf) | StdInode j \<Rightarrow> stream_write j buf),
     op_sync = (\<lambda>r s. case r of FsInode i \<Rightarrow> on_fs (op_sync ops i) s | StdInode j \<Rightarrow> Some (s, Inr ())),
     op_perms = (\<lambda>r (w, inos, out). case r of FsInode i \<Rightarrow> op_perms ops i w | StdInode j \<Rightarrow> ino_perms (inos ! j)),
     op_size = (\<lambda>r (w, inos, out). case r of FsInode i \<Rightarrow> op_size ops i w | StdInode j \<Rightarrow> ino_size (inos ! j)),
     op_accessed = (\<lambda>r t (w, inos, out). case r of
         FsInode i \<Rightarrow> (op_accessed ops i t w, inos, out)
       | StdInode j \<Rightarrow> (w, inos[j := (inos ! j)\<lparr>access_time := t\<rparr>], out)),
     op_modified = (\<lambda>r t (w, inos, out). case r of
         FsInode i \<Rightarrow> (op_modified ops i t w, inos, out)
       | StdInode j \<Rightarrow> (w, inos[j := (inos ! j)\<lparr>modified_time := t, change_time := t\<rparr>], out))\<rparr>)"

definition get_io :: "('pt, 'i, 'w) sys \<Rightarrow> 'w io" where
  "get_io s = (fsys s, std_inodes (kshared (kern s)), tty_out s)"

definition put_io :: "('pt, 'i, 'w) sys \<Rightarrow> 'w io \<Rightarrow> ('pt, 'i, 'w) sys" where
  "put_io s = (\<lambda>(w, inos, out). (set_shared ((kshared (kern s))\<lparr>std_inodes := inos\<rparr>) s)\<lparr>fsys := w, tty_out := out\<rparr>)"

definition put_file :: "('pt, 'i, 'w) sys \<Rightarrow> nat \<Rightarrow> 'i file_ref open_file_desc \<Rightarrow> ('pt, 'i, 'w) sys" where
  "put_file s h f = set_shared ((kshared (kern s))\<lparr>open_files := (open_files (kshared (kern s)))[h := f]\<rparr>) s"

text \<open>An operation on an open file description.\<close>

definition on_file ::
  "nat \<Rightarrow> ('w io \<times> 'i file_ref open_file_desc \<Rightarrow> ('w io \<times> 'i file_ref open_file_desc, file_error fault, 'a) run)
    \<Rightarrow> ('pt, 'i, 'w) sys \<Rightarrow> (('pt, 'i, 'w) sys, unit fault, file_error + 'a) run" where
  "on_file h oper s =
    run_on (\<lambda>(io, f). put_file (put_io s io) h f) (catch (oper (get_io s, open_files (kshared (kern s)) ! h)))"

definition on_vfs ::
  "('w \<Rightarrow> ('w, file_error fault, 'a) run) \<Rightarrow> ('pt, 'i, 'w) sys \<Rightarrow> (('pt, 'i, 'w) sys, unit fault, file_error + 'a) run" where
  "on_vfs oper s = run_on (\<lambda>w. s\<lparr>fsys := w\<rparr>) (catch (oper (fsys s)))"

section \<open>Descriptors\<close>

definition MAX_PATH_LEN :: nat where "MAX_PATH_LEN = 4096"

definition sys_close :: "u64 \<Rightarrow> ('pt, 'i, 'w) sys \<Rightarrow> ('pt, 'i, 'w) sys_run" where
  "sys_close fd s =
    (case cur s of
       None \<Rightarrow> ret s (- ESRCH)
     | Some p \<Rightarrow>
         (case close_file_handle fd p of
            (p, Inr _) \<Rightarrow> ret (set_cur p s) 0
          | (p, Inl _) \<Rightarrow> ret (set_cur p s) (- EBADF)))"

definition sys_dup :: "u64 \<Rightarrow> ('pt, 'i, 'w) sys \<Rightarrow> ('pt, 'i, 'w) sys_run" where
  "sys_dup old_fd s =
    (case cur s of
       None \<Rightarrow> ret s (- ESRCH)
     | Some p \<Rightarrow>
         (case dup_file_handle old_fd None p of
            (p, Inr fd) \<Rightarrow> ret (set_cur p s) fd
          | (p, Inl _) \<Rightarrow> ret (set_cur p s) (- EBADF)))"

definition sys_dup2 :: "u64 \<Rightarrow> u64 \<Rightarrow> ('pt, 'i, 'w) sys \<Rightarrow> ('pt, 'i, 'w) sys_run" where
  "sys_dup2 old_fd new_fd s =
    (case cur s of
       None \<Rightarrow> ret s (- ESRCH)
     | Some p \<Rightarrow>
         (if old_fd = new_fd then
            (if get_file_handle p old_fd = None then ret s (- EBADF) else ret s new_fd)
          else
            (case dup_file_handle old_fd (Some new_fd) p of
               (p, Inr fd) \<Rightarrow> ret (set_cur p s) fd
             | (p, Inl _) \<Rightarrow> ret (set_cur p s) (- EBADF))))"

definition sys_lseek :: "('pt, 'w, 'f, 'i) env \<Rightarrow> u64 \<Rightarrow> u64 \<Rightarrow> u64 \<Rightarrow> ('pt, 'i, 'w) sys \<Rightarrow> ('pt, 'i, 'w) sys_run" where
  "sys_lseek env fd offset whence s =
    (case cur s of
       None \<Rightarrow> ret s (- ESRCH)
     | Some p \<Rightarrow>
         (case get_file_handle p fd of
            None \<Rightarrow> ret s (- EBADF)
          | Some h \<Rightarrow>
              (case (if whence = 0 then Some (Start offset) else if whence = 1 then Some (Current offset)
                     else if whence = 2 then Some (End offset) else None) of
                 None \<Rightarrow> ret s (- EINVAL)
               | Some from \<Rightarrow>
                   (let (f, new_pos) = file_seek (ref_ops env) (get_io s) (open_files (kshared (kern s)) ! h) from
                    in ret (put_file s h f) new_pos))))"

definition read_inner ::
  "('pt, 'w, 'f, 'i) env \<Rightarrow> u64 \<Rightarrow> nat \<Rightarrow> ('pt, 'i, 'w) sys \<Rightarrow> (('pt, 'i, 'w) sys, unit fault, u64 + bytes) run" where
  "read_inner env fd n s =
    (case cur s of
       None \<Rightarrow> Some (s, Inr (Inl (- ESRCH)))
     | Some p \<Rightarrow>
         (case get_file_handle p fd of
            None \<Rightarrow> Some (s, Inr (Inl (- EBADF)))
          | Some h \<Rightarrow> lbind (on_file h (open_read (ref_ops env) (e_now env) n) s) (\<lambda>s r.
              Some (s, Inr (map_sum file_error_to_errno id r)))))"

definition sys_read :: "('pt, 'w, 'f, 'i) env \<Rightarrow> u64 \<Rightarrow> u64 \<Rightarrow> u64 \<Rightarrow> ('pt, 'i, 'w) sys \<Rightarrow> ('pt, 'i, 'w) sys_run" where
  "sys_read env fd buf_ptr len s =
    lbind (read_inner env fd (unat (min len 0x10000)) s) (\<lambda>s r.
      case r of
        Inr bs \<Rightarrow>
          (case to_user env buf_ptr bs s of
             (s, Inl _) \<Rightarrow> Some (s, Inl Panic)
           | (s, Inr _) \<Rightarrow> ret s (of_nat (length bs)))
      | Inl errno \<Rightarrow> ret s (if sint errno < 0 then errno else - errno))"

definition write_inner ::
  "('pt, 'w, 'f, 'i) env \<Rightarrow> bytes \<Rightarrow> u64 \<Rightarrow> ('pt, 'i, 'w) sys \<Rightarrow> (('pt, 'i, 'w) sys, unit fault, u64 + u64) run" where
  "write_inner env buf fd s =
    (case cur s of
       None \<Rightarrow> Some (s, Inr (Inl (- ESRCH)))
     | Some p \<Rightarrow>
         (case get_file_handle p fd of
            None \<Rightarrow> Some (s, Inr (Inl (- EBADF)))
          | Some h \<Rightarrow> lbind (on_file h (open_write (ref_ops env) (e_now env) buf) s) (\<lambda>s r.
              Some (s, Inr (case r of Inl e \<Rightarrow> Inl (file_error_to_errno e) | Inr n \<Rightarrow> Inr (of_nat n))))))"

definition sys_write :: "('pt, 'w, 'f, 'i) env \<Rightarrow> u64 \<Rightarrow> u64 \<Rightarrow> u64 \<Rightarrow> ('pt, 'i, 'w) sys \<Rightarrow> ('pt, 'i, 'w) sys_run" where
  "sys_write env fd buf_ptr len s =
    (case from_user env s buf_ptr 1 len of
       Inl _ \<Rightarrow> ret s (- EFAULT)
     | Inr buf \<Rightarrow> lbind (write_inner env buf fd s) (\<lambda>s r. ret s (case r of Inl errno \<Rightarrow> errno | Inr n \<Rightarrow> n)))"

section \<open>Paths\<close>

definition OPEN_OPTIONS :: u64 where "OPEN_OPTIONS = 0x81FC3"

definition NEW_FILE_PERMISSIONS :: u16 where
  "NEW_FILE_PERMISSIONS = ((OWNER_READ OR OWNER_WRITE OR OWNER_EXEC) OR GROUP_READ) OR OTHER_READ"

definition open_inode ::
  "('pt, 'w, 'f, 'i) env \<Rightarrow> string \<Rightarrow> u64 \<Rightarrow> ('pt, 'i, 'w) sys \<Rightarrow> (('pt, 'i, 'w) sys, unit fault, u64 + 'i) run" where
  "open_inode env file_name foo s =
    (if contains foo TRUNCATE \<and> foo AND (WRITE_ONLY OR READ_WRITE) = 0 then Some (s, Inr (Inl (- EINVAL)))
     else
       lbind (on_vfs (open_file (e_ops env) (e_vfs env) file_name) s) (\<lambda>s res.
         case res of
           Inl e \<Rightarrow>
             (if contains foo CREATE then
                lbind (on_vfs (create_file (e_ops env) (e_vfs env) file_name NEW_FILE_PERMISSIONS) s) (\<lambda>s res.
                  case res of
                    Inl e \<Rightarrow> Some (s, Inr (Inl (file_error_to_errno e)))
                  | Inr _ \<Rightarrow>
                      lbind (on_vfs (open_file (e_ops env) (e_vfs env) file_name) s) (\<lambda>s res.
                        case res of Inl _ \<Rightarrow> Some (s, Inl Panic) | Inr i \<Rightarrow> Some (s, Inr (Inr i))))
              else Some (s, Inr (Inl (file_error_to_errno e))))
         | Inr i \<Rightarrow>
             (if contains foo TRUNCATE then
                lbind (on_vfs (\<lambda>w. in_truncate (e_ino env) i 0 (in_set_size (e_ino env) i 0 w)) s) (\<lambda>s res.
                  case res of Inl e \<Rightarrow> Some (s, Inr (Inl (file_error_to_errno e))) | Inr _ \<Rightarrow> Some (s, Inr (Inr i)))
              else Some (s, Inr (Inr i)))))"

definition open_inner ::
  "('pt, 'w, 'f, 'i) env \<Rightarrow> string \<Rightarrow> u64 \<Rightarrow> ('pt, 'i, 'w) sys \<Rightarrow> (('pt, 'i, 'w) sys, unit fault, u64 + u64) run" where
  "open_inner env file_name foo s =
    lbind (open_inode env file_name foo s) (\<lambda>s r.
      case r of
        Inl errno \<Rightarrow> Some (s, Inr (Inl errno))
      | Inr i \<Rightarrow>
          (let wants_write = contains foo WRITE_ONLY \<or> contains foo READ_WRITE \<or> contains foo TRUNCATE
           in if in_kind (e_ino env) i (fsys s) = Directory \<and> wants_write then Some (s, Inr (Inl (- EISDIR)))
              else
                (case cur s of
                   None \<Rightarrow> Some (s, Inr (Inl (- ESRCH)))
                 | Some p \<Rightarrow>
                     (case add_file_handle (FsInode i) foo (kshared (kern s), p) of
                        ((w, p), Inr fd) \<Rightarrow> Some (set_cur p (set_shared w s), Inr (Inr fd))
                      | ((w, p), Inl _) \<Rightarrow> Some (set_cur p (set_shared w s), Inr (Inl (- EMFILE)))))))"

definition sys_open :: "('pt, 'w, 'f, 'i) env \<Rightarrow> u64 \<Rightarrow> u64 \<Rightarrow> ('pt, 'i, 'w) sys \<Rightarrow> ('pt, 'i, 'w) sys_run" where
  "sys_open env user_ptr flags s =
    (case user_string env s user_ptr MAX_PATH_LEN of
       Inl e \<Rightarrow> ret s e
     | Inr file_name \<Rightarrow>
         lbind (open_inner env file_name (flags AND OPEN_OPTIONS) s) (\<lambda>s r. ret s (case r of Inl errno \<Rightarrow> errno | Inr fd \<Rightarrow> fd)))"

definition R_OK :: u32 where "R_OK = 4"
definition W_OK :: u32 where "W_OK = 2"
definition X_OK :: u32 where "X_OK = 1"

definition access_ok :: "u32 \<Rightarrow> u16 \<Rightarrow> bool" where
  "access_ok mode perms =
    (if contains mode R_OK \<and> perms AND (OWNER_READ OR GROUP_READ OR OTHER_READ) = 0 then False
     else if contains mode W_OK \<and> perms AND (OWNER_WRITE OR GROUP_WRITE OR OTHER_WRITE) = 0 then False
     else if contains mode X_OK \<and> perms AND (OWNER_EXEC OR GROUP_EXEC OR OTHER_EXEC) = 0 then False
     else True)"

definition access_inner ::
  "('pt, 'w, 'f, 'i) env \<Rightarrow> string \<Rightarrow> u32 \<Rightarrow> ('pt, 'i, 'w) sys \<Rightarrow> ('pt, 'i, 'w) sys_run" where
  "access_inner env file_name mode s =
    lbind (on_vfs (open_file (e_ops env) (e_vfs env) file_name) s) (\<lambda>s res.
      case res of
        Inl e \<Rightarrow> ret s (file_error_to_errno e)
      | Inr i \<Rightarrow> ret s (if access_ok mode (op_perms (e_ops env) i (fsys s)) then 0 else - EACCES))"

definition sys_access :: "('pt, 'w, 'f, 'i) env \<Rightarrow> u64 \<Rightarrow> u64 \<Rightarrow> ('pt, 'i, 'w) sys \<Rightarrow> ('pt, 'i, 'w) sys_run" where
  "sys_access env user_ptr mode s =
    (let mode = ucast mode :: u32
     in if mode AND NOT 7 \<noteq> 0 then ret s (- EINVAL)
        else
          (case user_string env s user_ptr MAX_PATH_LEN of
             Inl e \<Rightarrow> ret s e
           | Inr file_name \<Rightarrow> access_inner env file_name mode s))"

text \<open>The C layout of \<open>Stat\<close>: four bytes of padding follow the mode.\<close>

definition stat_bytes :: "(nat \<Rightarrow> bytes) \<Rightarrow> stat \<Rightarrow> bytes" where
  "stat_bytes padding st =
    to_le 8 (st_dev st) @ to_le 8 (st_ino st) @ to_le 4 (st_mode st) @ padding 4 @ to_le 8 (st_nlink st) @ to_le 4 (st_uid st)
    @ to_le 4 (st_gid st) @ to_le 8 (st_rdev st) @ to_le 8 (st_size st) @ to_le 8 (st_blksize st) @ to_le 8 (st_blocks st)
    @ to_le 8 (st_atime st) @ to_le 8 (st_mtime st) @ to_le 8 (st_ctime st)"

definition sys_stat :: "('pt, 'w, 'f, 'i) env \<Rightarrow> u64 \<Rightarrow> u64 \<Rightarrow> ('pt, 'i, 'w) sys \<Rightarrow> ('pt, 'i, 'w) sys_run" where
  "sys_stat env path_ptr stat_ptr s =
    (case user_string env s path_ptr MAX_PATH_LEN of
       Inl e \<Rightarrow> ret s e
     | Inr path \<Rightarrow>
         lbind (on_vfs (open_file (e_ops env) (e_vfs env) path) s) (\<lambda>s res.
           case res of
             Inl e \<Rightarrow> ret s (file_error_to_errno e)
           | Inr i \<Rightarrow>
               lbind (on_vfs (in_stat (e_ino env) i) s) (\<lambda>s res.
                 case res of
                   Inl e \<Rightarrow> ret s (file_error_to_errno e)
                 | Inr st \<Rightarrow>
                     (case to_user env stat_ptr (stat_bytes (e_padding env) st) s of
                        (s, Inl _) \<Rightarrow> ret s (- EFAULT)
                      | (s, Inr _) \<Rightarrow> ret s 0))))"

section \<open>Directories\<close>

fun filetype_to_dtype :: "file_type \<Rightarrow> u8" where
  "filetype_to_dtype Fifo = 1"
| "filetype_to_dtype CharDevice = 2"
| "filetype_to_dtype Directory = 4"
| "filetype_to_dtype BlockDevice = 6"
| "filetype_to_dtype File = 8"
| "filetype_to_dtype Symlink = 10"
| "filetype_to_dtype Socket = 12"

definition align_up_8 :: "nat \<Rightarrow> nat" where
  "align_up_8 len = (len + 7) div 8 * 8"

text \<open>The C layout of \<open>LinuxDirent64\<close>: five bytes of padding at the end make it 280 bytes.\<close>

definition dirent_bytes :: "(nat \<Rightarrow> bytes) \<Rightarrow> u64 \<Rightarrow> u64 \<Rightarrow> u16 \<Rightarrow> u8 \<Rightarrow> bytes \<Rightarrow> bytes" where
  "dirent_bytes padding d_ino d_off d_reclen d_type nm =
    to_le 8 d_ino @ to_le 8 d_off @ to_le 2 d_reclen @ [d_type] @ nm @ replicate (256 - length nm) 0 @ padding 5"

fun getdents_loop ::
  "('pt, 'w, 'f, 'i) env \<Rightarrow> nat \<Rightarrow> 'i dir_entry list \<Rightarrow> u64 \<Rightarrow> nat \<Rightarrow> u64 \<Rightarrow> ('pt, 'i, 'w) sys
    \<Rightarrow> ('pt, 'i, 'w) sys \<times> (unit, nat \<times> u64) result" where
  "getdents_loop env buf_size [] user_buf bytes_written offset s = (s, Inr (bytes_written, offset))"
| "getdents_loop env buf_size (dentry # dentries) user_buf bytes_written offset s =
    (let nm = take 255 (str_bytes (entry_name dentry));
         reclen = align_up_8 (8 + 8 + 2 + 1 + length nm + 1)
     in if bytes_written + reclen > buf_size then (s, Inr (bytes_written, offset))
        else
          (case to_user env user_buf (dirent_bytes (e_padding env) (in_num (e_ino env) (entry_inode dentry) (fsys s))
                  (offset + 1) (of_nat reclen) (filetype_to_dtype (entry_type dentry)) nm) s of
             (s, Inl _) \<Rightarrow> (s, Inl ())
           | (s, Inr _) \<Rightarrow> getdents_loop env buf_size dentries (user_buf + of_nat reclen) (bytes_written + reclen) (offset + 1) s))"

definition ref_read_dir ::
  "('pt, 'w, 'f, 'i) env \<Rightarrow> 'i file_ref \<Rightarrow> ('pt, 'i, 'w) sys \<Rightarrow> (('pt, 'i, 'w) sys, unit fault, file_error + 'i dir_entry list) run" where
  "ref_read_dir env r s =
    (case r of
       FsInode i \<Rightarrow> on_vfs (in_read_dir (e_ino env) i) s
     | StdInode j \<Rightarrow> Some (s, Inr (Inl (stream_error (ino_data (std_inodes (kshared (kern s)) ! j)) StreamReadDir))))"

definition sys_getdents64 :: "('pt, 'w, 'f, 'i) env \<Rightarrow> u64 \<Rightarrow> u64 \<Rightarrow> u64 \<Rightarrow> ('pt, 'i, 'w) sys \<Rightarrow> ('pt, 'i, 'w) sys_run" where
  "sys_getdents64 env fd_idx user_buf buf_size s =
    (case cur s of
       None \<Rightarrow> ret s (- ESRCH)
     | Some p \<Rightarrow>
         (case get_file_handle p fd_idx of
            None \<Rightarrow> ret s (- EBADF)
          | Some h \<Rightarrow>
              (let f = open_files (kshared (kern s)) ! h
               in lbind (ref_read_dir env (of_inode f) s) (\<lambda>s res.
                    case res of
                      Inl e \<Rightarrow> ret s (file_error_to_errno e)
                    | Inr dentries \<Rightarrow>
                        (case getdents_loop env (unat buf_size) (drop (unat (of_cursor f)) dentries) user_buf 0 (of_cursor f) s of
                           (s, Inl _) \<Rightarrow> ret s (- EFAULT)
                         | (s, Inr (bytes_written, offset)) \<Rightarrow>
                             ret (put_file s h (f\<lparr>of_cursor := offset\<rparr>)) (of_nat bytes_written))))))"

section \<open>Processes\<close>

definition sys_getpid :: "('pt, 'i, 'w) sys \<Rightarrow> ('pt, 'i, 'w) sys_run" where
  "sys_getpid s = ret s (curr_pid (mach (kern s)))"

definition sys_getppid :: "('pt, 'i, 'w) sys \<Rightarrow> ('pt, 'i, 'w) sys_run" where
  "sys_getppid s = ret s (case cur s of Some p \<Rightarrow> parent_pid p | None \<Rightarrow> 0)"

definition child_context :: "('pt, 'w, 'f, 'i) env \<Rightarrow> process_state \<Rightarrow> process_state" where
  "child_context env st = st\<lparr>rax := 0, cs_sel := (if cs_sel st = 0 then e_user_cs env else cs_sel st),
     ss_sel := (if ss_sel st = 0 then e_user_ss env else ss_sel st), rflags := rflags st OR 0x200\<rparr>"

text \<open>
  The clone works on the tables of the active address space.  What the child reads through its tables is what the
  parent reads, since the leaf entries are the same, so the new address space has the contents of the old one.
\<close>

definition clone_active ::
  "('pt, 'w, 'f, 'i) env \<Rightarrow> ('pt, 'i, 'w) sys \<Rightarrow> ('pt, 'i, 'w) sys \<times> (unit, u64) result" where
  "clone_active env s =
    (let a = cpu_cr3 (mach (kern s));
         (sp, r) = clone_address_space (e_mapper env a) a (space_of s);
         s = set_space sp s
     in (case r of
           Inl _ \<Rightarrow> s
         | Inr child \<Rightarrow> set_mach ((mach (kern s))\<lparr>umem := (umem (mach (kern s)))(child := umem (mach (kern s)) a)\<rparr>) s, r))"

definition sys_fork :: "('pt, 'w, 'f, 'i) env \<Rightarrow> ('pt, 'i, 'w) sys \<Rightarrow> ('pt, 'i, 'w) sys_run" where
  "sys_fork env s =
    (case cur s of
       None \<Rightarrow> ret s (- EAGAIN)
     | Some parent \<Rightarrow>
         (let child_state = child_context env (pstate parent);
              (s, cloned) = clone_active env s
          in case fork_from (e_now env) (cpu_cr3 (mach (kern s))) (e_fx env) cloned parent child_state (kshared (kern s)) of
               (w, Inl _) \<Rightarrow> ret (set_shared w s) (- ENOMEM)
             | (w, Inr child) \<Rightarrow>
                 (let s = set_shared w s
                  in if PROCESSES_MAX \<le> length (procs (kern s)) then ret s (- ENOMEM)
                     else ret (s\<lparr>kern := (kern s)\<lparr>procs := procs (kern s) @ [child]\<rparr>\<rparr>) (pid child))))"

definition switch_to_next :: "('pt, 'w, 'f, 'i) env \<Rightarrow> ('pt, 'i, 'w) sys \<Rightarrow> ('pt, 'i, 'w) sys_run" where
  "switch_to_next env s =
    (let k = (kern s)\<lparr>sched := force_reschedule (sched (kern s))\<rparr>;
         (k, r) = schedule (e_idle env) True (default_state (e_fx env)) k
     in case r of
          None \<Rightarrow> Some (s\<lparr>kern := k\<rparr>, Inl Panic)
        | Some (_, next_cr3, next_state) \<Rightarrow>
            (let a = next_cr3 AND NOT 0xFFF
             in Some (s\<lparr>kern := k\<lparr>mach := (mach k)\<lparr>cpu_cr3 := a\<rparr>\<rparr>\<rparr>, Inr (Switched a next_state))))"

definition reparent :: "u64 \<Rightarrow> 'i process list \<Rightarrow> 'i process list" where
  "reparent p ps = map (\<lambda>c. if parent_pid c = p then c\<lparr>parent_pid := 1\<rparr> else c) ps"

definition sys_exit :: "('pt, 'w, 'f, 'i) env \<Rightarrow> u64 \<Rightarrow> ('pt, 'i, 'w) sys \<Rightarrow> ('pt, 'i, 'w) sys_run" where
  "sys_exit env code s =
    (case cur s of
       None \<Rightarrow> ret s 0
     | Some p \<Rightarrow>
         (let s = set_cur (p\<lparr>exit_code := Some (scast (ucast code :: u32)), pstatus := Exited\<rparr>) s
          in if pid p = 1 then Some (s, Inl Panic)
             else switch_to_next env (s\<lparr>kern := (kern s)\<lparr>procs := reparent (pid p) (procs (kern s))\<rparr>\<rparr>)))"

definition list_swap_remove :: "nat \<Rightarrow> 'a list \<Rightarrow> 'a list" where
  "list_swap_remove i xs = butlast (xs[i := last xs])"

text \<open>Removing an exited process and its address space.\<close>

definition reap :: "nat \<Rightarrow> ('pt, 'i, 'w) sys \<Rightarrow> ('pt, 'i, 'w) sys_run" where
  "reap i s =
    (let p = procs (kern s) ! i;
         s = s\<lparr>kern := (kern s)\<lparr>procs := list_swap_remove i (procs (kern s))\<rparr>\<rparr>
     in case exit_code p of
          None \<Rightarrow> Some (s, Inl Panic)
        | Some code \<Rightarrow> ret (set_space (teardown_address_space (cr3 p) (space_of s)) s) code)"

definition schedule_next :: "('pt, 'i, 'w) sys \<Rightarrow> ('pt, 'i, 'w) sys_run" where
  "schedule_next s = Some (s\<lparr>kern := (kern s)\<lparr>sched := force_reschedule (sched (kern s))\<rparr>\<rparr>, Inr Halted)"

definition wait_for :: "u64 \<Rightarrow> ('pt, 'i, 'w) sys \<Rightarrow> ('pt, 'i, 'w) sys_run" where
  "wait_for target_pid s =
    (let ps = procs (kern s)
     in case list_position (\<lambda>p. pid p = target_pid \<and> exit_code p \<noteq> None) ps of
          Some i \<Rightarrow> reap i s
        | None \<Rightarrow>
            (if \<exists>p \<in> set ps. pid p = target_pid
             then schedule_next (case cur s of None \<Rightarrow> s | Some caller \<Rightarrow> set_cur (caller\<lparr>pstatus := WaitingFor target_pid\<rparr>) s)
             else ret s (- ESRCH)))"

text \<open>\<open>schedule_next\<close> does not return, so the loop of \<open>waitpid\<close> runs once.\<close>

definition sys_waitpid :: "u64 \<Rightarrow> ('pt, 'i, 'w) sys \<Rightarrow> ('pt, 'i, 'w) sys_run" where
  "sys_waitpid target_pid s =
    (let caller_pid = curr_pid (mach (kern s)); ps = procs (kern s)
     in if target_pid = - 1 then
          (case list_position (\<lambda>p. parent_pid p = caller_pid \<and> exit_code p \<noteq> None) ps of
             Some i \<Rightarrow> reap i s
           | None \<Rightarrow>
               (case List.find (\<lambda>p. parent_pid p = caller_pid) ps of
                  Some child \<Rightarrow> wait_for (pid child) s
                | None \<Rightarrow> ret s (- ECHILD)))
        else wait_for target_pid s)"

section \<open>Programs\<close>

definition MAX_ARGC :: nat where "MAX_ARGC = 256"
definition MAX_ARG_LEN :: nat where "MAX_ARG_LEN = 4096"

fun copy_string_array :: "('pt, 'w, 'f, 'i) env \<Rightarrow> ('pt, 'i, 'w) sys \<Rightarrow> u64 \<Rightarrow> nat \<Rightarrow> (u64, bytes list) result" where
  "copy_string_array env s ptr 0 = Inr []"
| "copy_string_array env s ptr (Suc n) =
    (case from_user env s ptr 1 8 of
       Inl _ \<Rightarrow> Inl (- EFAULT)
     | Inr ptr_bytes \<Rightarrow>
         (let str_ptr = from_le ptr_bytes
          in if str_ptr = 0 then Inr []
             else rbind (user_string env s str_ptr MAX_ARG_LEN) (\<lambda>buf.
                  rbind (copy_string_array env s (ptr + 8) n) (\<lambda>rest. Inr (str_bytes buf # rest)))))"

text \<open>The program is in \<open>file_buf\<close>; the process is replaced in its place of the process list.\<close>

definition replace_program ::
  "('pt, 'w, 'f, 'i) env \<Rightarrow> bytes \<Rightarrow> string \<Rightarrow> bytes list \<Rightarrow> bytes list \<Rightarrow> ('pt, 'i, 'w) sys \<times> 'i process
    \<Rightarrow> (('pt, 'i, 'w) sys \<times> 'i process, unit fault, (u64 \<times> u64) option) run" where
  "replace_program env file_buf path args envs = (\<lambda>(s, p).
    let (kmem, argv_ptr, envp_ptr) = e_heap env args envs;
        a = cpu_cr3 (mach (kern s));
        (sp, fresh) = new_user_address_space (e_mapper env a) a (space_of s);
        s = set_space sp s
    in lbind (run_on (\<lambda>p. (s, p))
           (exec_replace kmem (e_fx env) fresh (kshared (kern s)) path (length args + 1) argv_ptr envp_ptr p)) (\<lambda>(s, p) _.
       lbind (run_on (\<lambda>(c, p). (set_mach c s, p))
           (process_load (e_mapper env) (overwrite (e_beyond env) 0 file_buf) (e_elf env file_buf) (mach (kern s), p))) (\<lambda>(s, p) _.
         run_on (\<lambda>(c, p). (set_mach c s, p)) (prepare_run (e_mapper env) (mach (kern s), p)))))"

definition exec_program ::
  "('pt, 'w, 'f, 'i) env \<Rightarrow> bytes \<Rightarrow> string \<Rightarrow> bytes list \<Rightarrow> bytes list \<Rightarrow> 'i process \<Rightarrow> ('pt, 'i, 'w) sys \<Rightarrow> ('pt, 'i, 'w) sys_run" where
  "exec_program env file_buf path args envs p s =
    lbind (run_on (\<lambda>(s, p). set_cur p s) (replace_program env file_buf path args envs (s, p))) (\<lambda>s r.
      case r of
        None \<Rightarrow> ret s (- ENOEXEC)
      | Some (entry, stack) \<Rightarrow>
          (let s = (case curr_proc (mach (kern s)) of
                 None \<Rightarrow> s
               | Some i \<Rightarrow> s\<lparr>kern := set_current (pid p) i (kern s)\<rparr>)
           in if stack mod 16 \<noteq> 0 then Some (s, Inl Panic) else Some (s, Inr (Entered entry stack))))"

definition exec_inner ::
  "('pt, 'w, 'f, 'i) env \<Rightarrow> 'i \<Rightarrow> string \<Rightarrow> bytes list \<Rightarrow> bytes list \<Rightarrow> ('pt, 'i, 'w) sys \<Rightarrow> ('pt, 'i, 'w) sys_run" where
  "exec_inner env i path args envs s =
    (let file_len = op_size (e_ops env) i (fsys s)
     in lbind (on_vfs (op_read (e_ops env) i 0 (unat file_len)) s) (\<lambda>s res.
          case res of
            Inl e \<Rightarrow> ret s (file_error_to_errno e)
          | Inr file_buf \<Rightarrow>
              (if length file_buf \<noteq> unat file_len then Some (s, Inl Panic)
               else if \<not> contains (op_perms (e_ops env) i (fsys s)) OWNER_EXEC then ret s (- ENOEXEC)
               else
                 (case cur s of
                    None \<Rightarrow> ret s (- ESRCH)
                  | Some p \<Rightarrow> exec_program env file_buf path args envs p s))))"

definition sys_exec :: "('pt, 'w, 'f, 'i) env \<Rightarrow> u64 \<Rightarrow> u64 \<Rightarrow> u64 \<Rightarrow> ('pt, 'i, 'w) sys \<Rightarrow> ('pt, 'i, 'w) sys_run" where
  "sys_exec env path_ptr argv_ptr envp_ptr s =
    (case from_user env s path_ptr 1 (of_nat MAX_PATH_LEN) of
       Inl _ \<Rightarrow> ret s (- EFAULT)
     | Inr path_buf \<Rightarrow>
         (if 0 \<notin> set path_buf then ret s (- ENAMETOOLONG)
          else
            let path = takeWhile (\<lambda>b. b \<noteq> 0) path_buf
            in if \<not> utf8_valid path then ret s (- EINVAL)
               else
                 (case copy_string_array env s argv_ptr MAX_ARGC of
                    Inl e \<Rightarrow> ret s e
                  | Inr kargv \<Rightarrow>
                      (case copy_string_array env s envp_ptr MAX_ARGC of
                         Inl e \<Rightarrow> ret s e
                       | Inr kenvp \<Rightarrow>
                           lbind (on_vfs (open_file (e_ops env) (e_vfs env) (bytes_str path)) s) (\<lambda>s res.
                             case res of
                               Inl e \<Rightarrow> ret s (file_error_to_errno e)
                             | Inr i \<Rightarrow> exec_inner env i (bytes_str path) kargv kenvp s)))))"

section \<open>Dispatch\<close>

record syscall_frame =
  fr_rax :: u64
  fr_rbx :: u64
  fr_rcx :: u64
  fr_rdx :: u64
  fr_rsi :: u64
  fr_rdi :: u64
  fr_rbp :: u64
  fr_r8 :: u64
  fr_r9 :: u64
  fr_r10 :: u64
  fr_r11 :: u64
  fr_r12 :: u64
  fr_r13 :: u64
  fr_r14 :: u64
  fr_r15 :: u64
  user_rip :: u64
  user_rflags :: u64
  user_rsp :: u64

definition to_process_state :: "('pt, 'w, 'f, 'i) env \<Rightarrow> syscall_frame \<Rightarrow> process_state" where
  "to_process_state env f =
    \<lparr>rax = fr_rax f, rbx = fr_rbx f, rcx = fr_rcx f, rdx = fr_rdx f, rsi = fr_rsi f, rdi = fr_rdi f, rbp = fr_rbp f,
     rsp = user_rsp f, r8 = fr_r8 f, r9 = fr_r9 f, r10 = fr_r10 f, r11 = fr_r11 f, r12 = fr_r12 f, r13 = fr_r13 f,
     r14 = fr_r14 f, r15 = fr_r15 f, rip = user_rip f, rflags = user_rflags f, cs_sel = e_user_cs env,
     ss_sel = e_user_ss env, fxsave = e_fx env\<rparr>"

fun build_syscall_table :: "(nat \<times> 'h) list \<Rightarrow> 'h option list \<Rightarrow> (unit fault, 'h option list) result" where
  "build_syscall_table [] table = Inr table"
| "build_syscall_table ((n, handler) # entries) table =
    (if n < 256 then build_syscall_table entries (table[n := Some handler]) else Inl Panic)"

text \<open>The entries the attribute \<open>syscall\<close> puts into the table, with the arguments each of them uses.\<close>

definition syscall_entries ::
  "('pt, 'w, 'f, 'i) env \<Rightarrow> (nat \<times> (u64 \<Rightarrow> u64 \<Rightarrow> u64 \<Rightarrow> ('pt, 'i, 'w) sys \<Rightarrow> ('pt, 'i, 'w) sys_run)) list" where
  "syscall_entries env =
    [(0, sys_read env), (1, sys_write env), (2, \<lambda>rdi rsi rdx. sys_open env rdi rsi), (3, \<lambda>rdi rsi rdx. sys_close rdi),
     (4, \<lambda>rdi rsi rdx. sys_stat env rdi rsi), (8, sys_lseek env), (21, \<lambda>rdi rsi rdx. sys_access env rdi rsi),
     (32, \<lambda>rdi rsi rdx. sys_dup rdi), (33, \<lambda>rdi rsi rdx. sys_dup2 rdi rsi), (39, \<lambda>rdi rsi rdx. sys_getpid),
     (57, \<lambda>rdi rsi rdx. sys_fork env), (59, sys_exec env), (60, \<lambda>rdi rsi rdx. sys_exit env rdi),
     (61, \<lambda>rdi rsi rdx. sys_waitpid rdi), (110, \<lambda>rdi rsi rdx. sys_getppid), (217, sys_getdents64 env)]"

definition save_frame :: "('pt, 'w, 'f, 'i) env \<Rightarrow> syscall_frame \<Rightarrow> ('pt, 'i, 'w) sys \<Rightarrow> ('pt, 'i, 'w) sys" where
  "save_frame env frame s =
    (case cur s of None \<Rightarrow> s | Some p \<Rightarrow> set_cur (p\<lparr>pstate := to_process_state env frame\<rparr>) s)"

definition syscall_main ::
  "('pt, 'w, 'f, 'i) env \<Rightarrow> syscall_frame \<Rightarrow> ('pt, 'i, 'w) sys \<Rightarrow> ('pt, 'i, 'w) sys_run" where
  "syscall_main env frame s =
    (let s = save_frame env (frame\<lparr>user_rflags := user_rflags frame OR 0x200\<rparr>) s
     in case build_syscall_table (syscall_entries env) (replicate 256 None) of
          Inl _ \<Rightarrow> Some (s, Inl Panic)
        | Inr table \<Rightarrow>
            (if unat (fr_rax frame) \<ge> length table then ret s (- ENOSYS)
             else
               (case table ! unat (fr_rax frame) of
                  Some func \<Rightarrow> func (fr_rdi frame) (fr_rsi frame) (fr_rdx frame) s
                | None \<Rightarrow> ret s (- ENOSYS))))"

section \<open>Changing the state\<close>

lemma cur_iff: "cur s = Some p \<longleftrightarrow> (\<exists>i. curr_proc (mach (kern s)) = Some i \<and> i < length (procs (kern s)) \<and> procs (kern s) ! i = p)"
  by (auto simp: cur_def current_proc_def bind_eq_Some_conv split: if_splits)

lemma set_simps [simp]:
  "procs (kern (set_shared w s)) = procs (kern s)" "mach (kern (set_shared w s)) = mach (kern s)" "kshared (kern (set_shared w s)) = w"
  "procs (kern (set_mach c s)) = procs (kern s)" "mach (kern (set_mach c s)) = c" "kshared (kern (set_mach c s)) = kshared (kern s)"
  "sched (kern (set_shared w s)) = sched (kern s)" "sched (kern (set_mach c s)) = sched (kern s)"
  "fsys (set_shared w s) = fsys s" "fsys (set_mach c s) = fsys s" "tty_out (set_shared w s) = tty_out s" "tty_out (set_mach c s) = tty_out s"
  "sys_pages (set_shared w s) = sys_pages s" "sys_pages (set_mach c s) = sys_pages s"
  "sys_counts (set_shared w s) = sys_counts s" "sys_counts (set_mach c s) = sys_counts s"
  by (simp_all add: set_shared_def set_mach_def)

lemma set_cur_simps [simp]:
  "mach (kern (set_cur p s)) = mach (kern s)" "kshared (kern (set_cur p s)) = kshared (kern s)" "sched (kern (set_cur p s)) = sched (kern s)"
  "fsys (set_cur p s) = fsys s" "tty_out (set_cur p s) = tty_out s" "sys_pages (set_cur p s) = sys_pages s"
  "length (procs (kern (set_cur p s))) = length (procs (kern s))"
  by (simp_all add: set_cur_def split: option.splits)

lemma set_space_simps [simp]:
  "procs (kern (set_space sp s)) = procs (kern s)" "kshared (kern (set_space sp s)) = kshared (kern s)"
  "mach (kern (set_space sp s)) = (mach (kern s))\<lparr>mach_kmem := sp_kmem sp\<rparr>" "fsys (set_space sp s) = fsys s"
  "tty_out (set_space sp s) = tty_out s" "sys_pages (set_space sp s) = pmem sp" "sys_counts (set_space sp s) = refcounts sp"
  by (simp_all add: set_space_def)

lemma space_of_simps [simp]: "pmem (space_of s) = sys_pages s" "sp_kmem (space_of s) = mach_kmem (mach (kern s))"
  by (simp_all add: space_of_def)

lemma cur_set_cur: "cur s = Some q \<Longrightarrow> cur (set_cur p s) = Some p"
  by (auto simp: cur_iff set_cur_def)

lemma cur_cong:
  "procs (kern s') = procs (kern s) \<Longrightarrow> curr_proc (mach (kern s')) = curr_proc (mach (kern s)) \<Longrightarrow> cur s' = cur s"
  by (simp add: cur_def current_proc_def cong: if_cong)

section \<open>Dispatch: correctness\<close>

lemma build_syscall_table_ok:
  "\<forall>(n, h) \<in> set entries. n < 256 \<Longrightarrow> length table = 256 \<Longrightarrow> \<exists>table'. build_syscall_table entries table = Inr table'
     \<and> length table' = 256 \<and> (\<forall>n < 256. table' ! n = (case map_of (rev entries) n of Some h \<Rightarrow> Some h | None \<Rightarrow> table ! n))"
proof (induction entries arbitrary: table)
  case (Cons e entries)
  obtain n h where e: "e = (n, h)" by (cases e)
  then obtain table' where t: "build_syscall_table entries (table[n := Some h]) = Inr table'" "length table' = 256"
      "\<forall>i < 256. table' ! i = (case map_of (rev entries) i of Some h \<Rightarrow> Some h | None \<Rightarrow> table[n := Some h] ! i)"
    using Cons.IH [of "table[n := Some h]"] Cons.prems by auto
  have "table' ! i = (case map_of (rev (e # entries)) i of Some h \<Rightarrow> Some h | None \<Rightarrow> table ! i)" if "i < 256" for i
    using t(3) that Cons.prems(2) by (auto simp: e map_add_def split: option.splits)
  then show ?case using t(1,2) Cons.prems by (auto simp: e)
qed simp

lemma syscall_table:
  "\<exists>table. build_syscall_table (syscall_entries env) (replicate 256 None) = Inr table \<and> length table = 256
     \<and> (\<forall>n < 256. table ! n = map_of (syscall_entries env) n)"
proof -
  have d: "distinct (map fst (syscall_entries env))" by (simp add: syscall_entries_def)
  have "map_of (rev (syscall_entries env)) = map_of (syscall_entries env)"
    by (rule map_of_inject_set [THEN iffD2]) (use d in \<open>simp_all add: rev_map [symmetric]\<close>)
  moreover have "\<forall>(n, h) \<in> set (syscall_entries env). n < 256" by (simp add: syscall_entries_def)
  ultimately show ?thesis
    using build_syscall_table_ok [of "syscall_entries env" "replicate 256 None"] by (force split: option.splits)
qed


section \<open>Fork: correctness\<close>

lemma process_new_fields:
  "\<exists>fs. open_files (fst (process_new now a fx parent nm w)) = open_files w @ fs"
  "next_pid (fst (process_new now a fx parent nm w)) = next_pid w + 1"
  "pid (snd (process_new now a fx parent nm w)) = next_pid w" "parent_pid (snd (process_new now a fx parent nm w)) = pid parent"
  by (simp_all add: process_new_def open_std_def Let_def split_def)

lemma fork_from_ok:
  obtains w' child where "fork_from now a fx (Inr child_cr3) parent st w = (w', Inr child)" "pid child = next_pid w"
    "next_pid w' = next_pid w + 1" "parent_pid child = pid parent" "pstate child = st" "pstatus child = Ready" "cr3 child = child_cr3"
    "file_handles child = file_handles parent" "priority child = priority parent" "\<exists>fs. open_files w' = open_files w @ fs"
proof -
  let ?p = "snd (process_new now a fx parent (proc_name parent) w)" and ?w = "fst (process_new now a fx parent (proc_name parent) w)"
  show thesis
    by (rule that [of ?w "?p\<lparr>cr3 := child_cr3, pstate := st, load_bias := load_bias parent, end_addr := end_addr parent,
                entry_point := entry_point parent, user_stack_top := user_stack_top parent, loaded := True,
                pstatus := Ready, file_handles := file_handles parent, priority := priority parent\<rparr>"])
      (simp_all add: fork_from_def split_def Let_def process_new_fields)
qed


section \<open>Waiting: correctness\<close>

lemma list_position_Some: "list_position P xs = Some i \<Longrightarrow> i < length xs \<and> P (xs ! i)"
  by (induction xs arbitrary: i) (auto split: if_splits)

lemma list_position_None: "list_position P xs = None \<longleftrightarrow> (\<forall>x \<in> set xs. \<not> P x)"
  by (induction xs) auto

lemma swap_remove_index:
  assumes "distinct xs" "i < length xs"
  shows "set (list_swap_remove i xs) = set xs - {xs ! i}" "distinct (list_swap_remove i xs)"
    "length (list_swap_remove i xs) = length xs - 1"
proof -
  obtain ys z where xs: "xs = ys @ [z]" using assms(2) by (cases xs rule: rev_cases) auto
  show "length (list_swap_remove i xs) = length xs - 1" by (simp add: list_swap_remove_def)
  have "set (list_swap_remove i xs) = set xs - {xs ! i} \<and> distinct (list_swap_remove i xs)"
  proof (cases "i < length ys")
    case True
    have e: "list_swap_remove i xs = ys[i := z]" using True by (simp add: list_swap_remove_def xs list_update_append)
    have d: "distinct ys" "z \<notin> set ys" using assms(1) xs by simp_all
    have "set (ys[i := z]) = insert z (set ys - {ys ! i})" by (rule set_update_distinct [OF d(1) True])
    moreover have "z \<noteq> ys ! i" using d(2) True by (metis nth_mem)
    ultimately show ?thesis unfolding e using d True by (auto simp: xs nth_append distinct_list_update)
  next
    case False
    then have "i = length ys" using assms(2) xs by simp
    then show ?thesis using assms(1) by (auto simp: list_swap_remove_def xs)
  qed
  then show "set (list_swap_remove i xs) = set xs - {xs ! i}" "distinct (list_swap_remove i xs)" by simp_all
qed

lemma reap_removes:
  assumes "distinct (map pid (procs (kern s)))" "i < length (procs (kern s))" "exit_code (procs (kern s) ! i) = Some code"
  shows "\<exists>s'. reap i s = Some (s', Inr (Returned code)) \<and> set (procs (kern s')) = set (procs (kern s)) - {procs (kern s) ! i}
    \<and> length (procs (kern s')) = length (procs (kern s)) - 1 \<and> kshared (kern s') = kshared (kern s) \<and> fsys s' = fsys s"
  using assms swap_remove_index [of "procs (kern s)" i] by (simp add: reap_def Let_def ret_def distinct_map)

text \<open>What waiting for one process means.\<close>

definition waited :: "u64 \<Rightarrow> ('pt, 'i, 'w) sys \<Rightarrow> ('pt, 'i, 'w) sys_run \<Rightarrow> bool" where
  "waited t s r \<longleftrightarrow>
    (if \<exists>p \<in> set (procs (kern s)). pid p = t then
       \<exists>p \<in> set (procs (kern s)). pid p = t \<and>
         (case exit_code p of
            Some code \<Rightarrow> \<exists>s'. r = Some (s', Inr (Returned code)) \<and> set (procs (kern s')) = set (procs (kern s)) - {p}
              \<and> length (procs (kern s')) = length (procs (kern s)) - 1
          | None \<Rightarrow> \<exists>s'. r = Some (s', Inr Halted)
              \<and> (\<forall>q. cur s = Some q \<longrightarrow> cur s' = Some (q\<lparr>pstatus := WaitingFor t\<rparr>))
              \<and> (\<forall>j < length (procs (kern s)). curr_proc (mach (kern s)) \<noteq> Some j \<longrightarrow> procs (kern s') ! j = procs (kern s) ! j)
              \<and> length (procs (kern s')) = length (procs (kern s)) \<and> sched_time (sched (kern s')) = quantum (sched (kern s)))
     else r = Some (s, Inr (Returned (- ESRCH))))"

lemma wait_for_waited:
  assumes "distinct (map pid (procs (kern s)))"
  shows "waited t s (wait_for t s)"
proof (cases "\<exists>p \<in> set (procs (kern s)). pid p = t")
  case False
  then have "list_position (\<lambda>p. pid p = t \<and> exit_code p \<noteq> None) (procs (kern s)) = None" by (auto simp: list_position_None)
  then show ?thesis using False by (auto simp: waited_def wait_for_def ret_def)
next
  case True
  then obtain p where p: "p \<in> set (procs (kern s))" "pid p = t" by blast
  have uniq: "q = p" if "q \<in> set (procs (kern s))" "pid q = t" for q
    using assms p that by (metis distinct_map inj_on_def)
  show ?thesis
  proof (cases "exit_code p")
    case None
    let ?s = "case cur s of None \<Rightarrow> s | Some caller \<Rightarrow> set_cur (caller\<lparr>pstatus := WaitingFor t\<rparr>) s"
    let ?s' = "?s\<lparr>kern := (kern ?s)\<lparr>sched := force_reschedule (sched (kern ?s))\<rparr>\<rparr>"
    have "list_position (\<lambda>p. pid p = t \<and> exit_code p \<noteq> None) (procs (kern s)) = None"
      using uniq None by (auto simp: list_position_None)
    then have "wait_for t s = Some (?s', Inr Halted)" using True by (simp add: wait_for_def schedule_next_def)
    moreover have "cur ?s' = Some (q\<lparr>pstatus := WaitingFor t\<rparr>)" if "cur s = Some q" for q
      using cur_set_cur [OF that, of "q\<lparr>pstatus := WaitingFor t\<rparr>"] that cur_cong [of ?s' ?s] by simp
    moreover have "procs (kern ?s') ! j = procs (kern s) ! j" if "curr_proc (mach (kern s)) \<noteq> Some j" for j
      using that by (auto simp: set_cur_def split: option.splits)
    moreover have "length (procs (kern ?s')) = length (procs (kern s))" by (simp split: option.splits)
    moreover have "sched_time (sched (kern ?s')) = quantum (sched (kern s))" by (simp add: force_reschedule_def split: option.splits)
    ultimately show ?thesis unfolding waited_def using True p None by (intro if_P [THEN iffD2] bexI [of _ p]) auto
  next
    case (Some code)
    then obtain i where i: "list_position (\<lambda>p. pid p = t \<and> exit_code p \<noteq> None) (procs (kern s)) = Some i"
      using p by (cases "list_position (\<lambda>p. pid p = t \<and> exit_code p \<noteq> None) (procs (kern s))") (auto simp: list_position_None)
    then have "i < length (procs (kern s))" "procs (kern s) ! i = p" using list_position_Some [OF i] uniq by auto
    then show ?thesis using reap_removes [OF assms, of i code] Some i True p by (auto simp: waited_def wait_for_def)
  qed
qed


text \<open>A kernel with the process of \<open>sample_space\<close> and two others, and surroundings without files.\<close>

definition no_file :: "('w, file_error fault, 'a) run" where
  "no_file = None"

definition sample_env :: "(u64 \<Rightarrow> u64 option, unit, unit, nat) env" where
  "sample_env = \<lparr>e_mapper = (\<lambda>_. flat_mapper),
     e_ops = \<lparr>op_root_dir = (\<lambda>_ _. no_file), op_lookup = (\<lambda>_ _ _. no_file), op_create = (\<lambda>_ _ _ _ _. no_file),
       op_read = (\<lambda>_ _ n w. Some (w, Inr (map of_nat [0..<n]))), op_write = (\<lambda>_ _ _ _. no_file), op_sync = (\<lambda>_ w. Some (w, Inr ())),
       op_perms = (\<lambda>_ _. all_permissions), op_size = (\<lambda>_ _. 5), op_accessed = (\<lambda>_ _ w. w), op_modified = (\<lambda>_ _ w. w)\<rparr>,
     e_ino = \<lparr>in_kind = (\<lambda>_ _. File), in_num = (\<lambda>_ _. 0), in_set_size = (\<lambda>_ _ w. w), in_truncate = (\<lambda>_ _ _. no_file),
       in_stat = (\<lambda>_ _. no_file), in_read_dir = (\<lambda>_ _. no_file)\<rparr>,
     e_vfs = [], e_now = 0, e_fx = [], e_polls = [], e_idle = sample_idle, e_user_cs = 0x23, e_user_ss = 0x1B,
     e_elf = (\<lambda>_. Some sample_elf), e_heap = (\<lambda>_ _. (\<lambda>_. 0, 0x100, 0x200)), e_beyond = (\<lambda>_. 0), e_padding = (\<lambda>n. replicate n 0)\<rparr>"

definition sample_sys :: "nat process list \<Rightarrow> (u64 \<Rightarrow> u64 option, nat, unit) sys" where
  "sample_sys ps = \<lparr>kern = (sample_kernel ps 1)\<lparr>mach := sample_machine\<lparr>mach_kmem := small_kmem, cpu_cr3 := 0x10000, curr_pid := 1,
       curr_proc := Some 0\<rparr>\<rparr>,
     fsys = (), tty_out = [], sys_pages = sample_tables, sys_counts = (\<lambda>_. None), sys_scratch = 0\<rparr>"

lemma sample_sys_space: "space_of (sample_sys ps) = sample_space"
  by (simp add: space_of_def sample_sys_def sample_space_def)

lemma sample_sys_simps [simp]:
  "procs (kern (sample_sys ps)) = ps" "cpu_cr3 (mach (kern (sample_sys ps))) = 0x10000" "sys_pages (sample_sys ps) = sample_tables"
  "curr_pid (mach (kern (sample_sys ps))) = 1" "kshared (kern (sample_sys ps)) = sample_shared"
  by (simp_all add: sample_sys_def sample_kernel_def)

lemma cur_sample_sys: "cur (sample_sys (p # ps)) = Some p"
  by (simp add: cur_def current_proc_def sample_sys_def sample_kernel_def)



section \<open>Exec: correctness\<close>

lemma frame_addrI:
  assumes "unat f mod 4096 = 0" "unat f < 2 ^ 52"
  shows "frame_addr f"
proof -
  have "unat (take_bit 12 f) = 0" using assms(1) unfolding unsigned_take_bit_eq by (simp add: take_bit_eq_mod)
  then have lo: "take_bit 12 f = 0" by (simp add: unat_eq_zero)
  have m: "(0x000FFFFFFFFFF000 :: u64) = push_bit 12 (mask 40)" by (simp add: mask_eq_exp_minus_1 push_bit_eq_mult)
  show ?thesis unfolding frame_addr_def m
  proof (rule bit_word_eqI)
    fix n assume n: "n < LENGTH(64)"
    have "12 \<le> n \<and> n < 52" if "bit f n"
      using that bit_small [OF assms(2)] arg_cong [OF lo, of "\<lambda>w. bit w n"] by (auto simp: bit_take_bit_iff not_less)
    then show "bit (f AND push_bit 12 (mask 40)) n \<longleftrightarrow> bit f n" using n by (auto simp: bit_and_iff bit_push_bit_iff bit_mask_iff)
  qed
qed

lemma frame_page: "frame_addr f \<Longrightarrow> f AND NOT 0xFFF = f"
proof -
  assume f: "frame_addr f"
  have "f AND NOT 0xFFF = (f AND ADDR_MASK) AND NOT 0xFFF" using f by (simp add: frame_addr_def)
  also have "\<dots> = f AND (ADDR_MASK AND NOT 0xFFF)" by (simp only: and.assoc)
  also have "(ADDR_MASK AND NOT 0xFFF) = (ADDR_MASK :: u64)" by simp
  finally show ?thesis using f by (simp add: frame_addr_def)
qed

lemma new_user_address_space_ok:
  assumes "mapper_frames m" "mapper_exact m scratch_pages" "supplied m (Suc n) sp" "a \<notin> free_of sp"
  obtains sp' new where "new_user_address_space m a sp = (sp', Inr new)" "supplied m n sp'" "new \<in> free_of sp" "frame_addr new"
    "\<And>i. pmem sp' new i = (if 256 \<le> i \<and> i < 512 then pmem sp a i else 0)"
proof -
  obtain s1 new where s1: "alloc_filled m (\<lambda>_ _. 0) sp = (s1, Some new)" "supplied m n s1"
    by (rule alloc_filled_ok [OF assms(1-3)])
  have ok: "space_ok sp" using assms(3) by (simp add: supplied_def)
  note al = alloc_filledE [OF assms(1) ok s1(1)]
  have ne: "a \<noteq> new" using al(2) assms(4) by blast
  show thesis
    by (rule that [of "copy_kernel_half a new s1" new])
      (use s1 al ne copy_kernel_half [OF ne, where s = s1] in \<open>simp_all add: new_user_address_space_def alloc_page_table_def\<close>)
qed

lemma frames_for_supplied: "supplied m (4 * n) sp \<Longrightarrow> frames_for n (sp_kmem sp)"
  by (auto simp: supplied_def space_ok_def frames_for_def free_of_def)

lemma exec_replace_ok:
  assumes "read_argv kmem ap (length args + 1) = Some args" "read_envp kmem ep = Some envs" "ap \<noteq> 0" "ep \<noteq> 0"
  obtains q where "exec_replace kmem fx (Inr new) w path (length args + 1) ap ep p = Some (q, Inr ())" "cr3 q = new" "argv q = args"
    "envp q = envs" "user_stack_top q = 0" "pid q = pid p"
    "file_handles q = filter (\<lambda>(fd, h). \<not> contains (of_options (open_files w ! h)) CLOSE_ON_EXEC) (file_handles p)"
  using assms that by (simp add: exec_replace_def Let_def)


text \<open>The same kernel with 24 free frames and its tables out of their way.\<close>

definition large_sys :: "(u64 \<Rightarrow> u64 option, nat, unit) sys" where
  "large_sys = set_mach ((mach (kern (sample_sys [sample_process])))\<lparr>mach_kmem := mach_kmem sample_machine, cpu_cr3 := 0x100000\<rparr>)
     (sample_sys [sample_process])"

lemma large_sys_free:
  "f \<in> free_of (space_of large_sys) \<Longrightarrow> frame_addr f \<and> f \<noteq> 0x100000"
  "supplied flat_mapper 21 (space_of large_sys)"
proof -
  have m: "memory_map_ok [(0x1000, 98304)]" by (simp add: region_ok_def)
  have fr: "free_of (space_of large_sys) = region_frames (0x1000, 98304)"
    using initialize_sets(3) [OF m] by (simp add: free_of_def large_sys_def sample_machine_def)
  show ff: "frame_addr f \<and> f \<noteq> 0x100000" if "f \<in> free_of (space_of large_sys)" for f
    using that unfolding fr by (auto simp: region_frames_def intro!: frame_addrI)
  have al: "allocator (sp_kmem (space_of large_sys)) = Some (initialize [(0x1000, 98304)])"
    by (simp add: large_sys_def sample_machine_def)
  have "finite (free_of (space_of large_sys))" "21 \<le> card (free_of (space_of large_sys))"
    using sample_frames pages.finite_free [OF sample_frames(1)] al by (simp_all add: free_of_def)
  then show "supplied flat_mapper 21 (space_of large_sys)"
    using sample_frames(1) al ff by (auto simp: supplied_def space_ok_def flat_mapper_def large_sys_def sample_machine_def)
qed


section \<open>Exit, and where the calls fall short\<close>

lemma map_pid_reparent: "map pid (reparent x ps) = map pid ps"
  by (simp add: reparent_def)

text \<open>An exiting process becomes a zombie with its code, sign-extended from 32 bits, and leaves its children to process 1.\<close>

lemma sys_exit_zombie:
  assumes "cur s = Some p" "pid p \<noteq> 1"
  obtains s1 q where "sys_exit env code s = switch_to_next env s1" "cur s1 = Some q" "pid q = pid p" "pstatus q = Exited"
    "exit_code q = Some (scast (ucast code :: u32))" "\<forall>c \<in> set (procs (kern s1)). parent_pid c \<noteq> pid p"
    "map pid (procs (kern s1)) = map pid (procs (kern s))"
proof -
  let ?q = "p\<lparr>exit_code := Some (scast (ucast code :: u32)), pstatus := Exited\<rparr>"
  let ?s = "set_cur ?q s"
  let ?s1 = "?s\<lparr>kern := (kern ?s)\<lparr>procs := reparent (pid p) (procs (kern ?s))\<rparr>\<rparr>"
  let ?q1 = "if parent_pid ?q = pid p then ?q\<lparr>parent_pid := 1\<rparr> else ?q"
  obtain j where j: "curr_proc (mach (kern s)) = Some j" "j < length (procs (kern s))" "procs (kern s) ! j = p"
    using assms(1) by (auto simp: cur_iff)
  show thesis
  proof (rule that [of ?s1 ?q1])
    show "sys_exit env code s = switch_to_next env ?s1" using assms by (simp add: sys_exit_def Let_def)
    show "cur ?s1 = Some ?q1" using j by (simp add: cur_iff set_cur_def reparent_def)
    show "\<forall>c \<in> set (procs (kern ?s1)). parent_pid c \<noteq> pid p" using assms(2) by (auto simp: reparent_def)
    have "map pid (procs (kern ?s)) = map pid (procs (kern s))" using j by (simp add: set_cur_def map_update list_update_same_conv)
    then show "map pid (procs (kern ?s1)) = map pid (procs (kern s))" by (simp add: map_pid_reparent)
  qed simp_all
qed

text \<open>A read into a buffer that is not mapped stops the kernel.\<close>

lemma read_bad_buffer_panics:
  assumes "read_inner env fd (unat (min len 0x10000)) s = Some (s1, Inr (Inr bs))" "snd (to_user env buf_ptr bs s1) = Inl ()"
  shows "\<exists>s'. sys_read env fd buf_ptr len s = Some (s', Inl Panic)"
  using assms by (auto simp: sys_read_def split: prod.splits)

text \<open>Reaping moves the last process of the table, so a caller at the end of it loses the pointer to itself.\<close>

lemma waitpid_loses_caller:
  "\<exists>(s :: (u64 \<Rightarrow> u64 option, nat, unit) sys) s'. cur s = Some sample_process \<and> sys_waitpid 2 s = Some (s', Inr (Returned 7)) \<and> cur s' = None"
proof -
  let ?s = "set_mach ((mach (kern (sample_sys [sample_zombie, sample_process])))\<lparr>curr_proc := Some 1\<rparr>) (sample_sys [sample_zombie, sample_process])"
  have "cur ?s = Some sample_process" by (simp add: cur_def current_proc_def)
  moreover have "sys_waitpid 2 ?s = reap 0 ?s" by (simp add: sys_waitpid_def wait_for_def Let_def sample_zombie_def)
  moreover have "\<exists>s'. reap 0 ?s = Some (s', Inr (Returned 7)) \<and> cur s' = None"
    by (simp add: reap_def Let_def ret_def sample_zombie_def list_swap_remove_def cur_def current_proc_def)
  ultimately show ?thesis by - (rule exI [of _ ?s], auto)
qed

text \<open>Any process can reap any zombie by its number: the parent is not compared.\<close>

lemma waitpid_reaps_strangers:
  "\<exists>(s :: (u64 \<Rightarrow> u64 option, nat, unit) sys) s'. curr_pid (mach (kern s)) \<noteq> parent_pid sample_zombie \<and> sys_waitpid 2 s = Some (s', Inr (Returned 7))"
proof -
  let ?s = "set_mach ((mach (kern (sample_sys [sample_process, sample_zombie])))\<lparr>curr_pid := 9\<rparr>) (sample_sys [sample_process, sample_zombie])"
  have "parent_pid sample_zombie \<noteq> 9" by (simp add: sample_zombie_def sample_process_def)
  moreover have "sys_waitpid 2 ?s = reap 1 ?s" by (simp add: sys_waitpid_def wait_for_def Let_def sample_zombie_def sample_process_def)
  moreover have "\<exists>s'. reap 1 ?s = Some (s', Inr (Returned 7))" by (simp add: reap_def Let_def ret_def sample_zombie_def)
  ultimately show ?thesis by - (rule exI [of _ ?s], auto)
qed

text \<open>Every directory entry is copied with all 280 bytes of the structure, whatever the record length that was checked.\<close>

lemma getdents_overruns:
  assumes "length (padding 5) = 5" "length nm \<le> 255"
  shows "length (dirent_bytes padding ino off len ty nm) = 280" "length nm < 232 \<Longrightarrow> align_up_8 (8 + 8 + 2 + 1 + length nm + 1) < 280"
  using assms by (simp_all add: dirent_bytes_def align_up_8_def)

end
