(* ===== verification/Spec2Isabelle.thy ===== *)
theory Spec2Isabelle
  imports SlabAlloc Pci FatVfs Clock Syscalls
begin

text \<open>
  Verification of parts of the ZenOS kernel (\<open>zenos-kernel/src\<close>).

  \<^bold>\<open>The program.\<close>  ZenOS is a small x86-64 kernel.  Memory management hands out physical frames from a bitmap
  (\<open>memory/mod.rs\<close>), maps them (\<open>memory/mod.rs\<close>), and serves the kernel heap from slabs (\<open>memory/alloc.rs\<close>).  Storage
  goes from the PCI scan (\<open>pci/mod.rs\<close>) to the AHCI driver (\<open>disk/block/ahci.rs\<close>), the block layer with the GPT parser
  (\<open>disk/block/mod.rs\<close>), the FAT filesystem (\<open>disk/fs/fat\<close>) and the virtual filesystem (\<open>disk/vfs.rs\<close>).  Processes
  (\<open>process\<close>) have an address space that fork shares copy-on-write, an image loaded from an ELF file, a descriptor table and
  a place in the scheduler; they enter the kernel through the system calls (\<open>syscall\<close>), which check their pointers and combine
  all of the above.  \<open>time.rs\<close> is the clock.

  \<^bold>\<open>The theories.\<close>
  \<^item> \<open>Prelude\<close>: words, results with errors on the left, panics as values, little-endian bytes.  \<open>Runs\<close>: operations
    that may not return.
  \<^item> \<open>Frame_Interface\<close>, \<open>PageAlloc\<close>: the frame contract as a locale, and the bitmap allocator that implements it:
    initialisation from the memory map, allocation of single frames and of contiguous runs, freeing.
  \<^item> \<open>Paging\<close>: \<open>kalloc_page\<close>, \<open>kfree_page\<close> and their variants over an abstract page table whose laws are named
    hypotheses.
  \<^item> \<open>SlabAlloc\<close>: the global allocator: size classes, slab headers, free lists, large allocations.
  \<^item> \<open>BlockDev\<close>: the contract of a block device (locale \<open>block_device\<close>), reading exactly, CRC32 and the GPT.
    \<open>Dma\<close>: the contract of DMA memory (locale \<open>dma_pool\<close>) and the kernel's implementation.  \<open>Ahci\<close>: the whole driver; the
    controller and the drive are parameters with their documented behaviour as hypotheses (\<open>drive_ok\<close>), and the driver
    implements \<open>block_device\<close> for any DMA memory.  \<open>Pci\<close>: configuration addresses and the bus scan.
  \<^item> \<open>Disk\<close>: the disk the filesystems sit on, and the interpretation of \<open>block_device\<close> for it.
  \<^item> \<open>FatPlumbing\<close>: parameter block, directory entries, 8.3 names, table and cluster access.  \<open>FatTable\<close>: the table on a block
    device.  \<open>FatFs\<close>: mounting, directories, files and the inode cache.  \<open>FatFiles\<close> and \<open>FatDirs\<close>: what files
    and the root directory are on the disk, and that the operations implement that.
  \<^item> \<open>VfsCore\<close>, \<open>Vfs\<close>: inodes, paths, mount points, open files.  \<open>FatVfs\<close>: FAT as a driver of the VFS.
  \<^item> \<open>UserMem\<close>: error numbers, checking and copying user memory (\<open>syscall/mod.rs\<close>, \<open>syscall/errors.rs\<close>).
  \<^item> \<open>Process\<close>: the process structure, creating, forking and replacing a process, descriptors and the standard streams
    (\<open>process/mod.rs\<close>, \<open>process/file_handles.rs\<close>).  \<open>Loader\<close>: loading an ELF image and laying out the first stack.  \<open>Scheduler\<close>:
    the scheduler over the process table (\<open>process/scheduler/mod.rs\<close>).
  \<^item> \<open>Isolation\<close>: cloning page tables for fork, the copy-on-write fault and the teardown (\<open>process/isolation.rs\<close>); page tables are
    a function from page and index to entry, \<open>leaf_entry\<close> is what a walk finds and \<open>tables_of\<close> the pages of a tree.
  \<^item> \<open>Syscalls\<close>: dispatch and the handlers of \<open>syscall\<close>, over one state \<open>sys\<close> that holds the process table, the files, the terminal
    output and the page tables; files and standard streams are put behind one interface (\<open>ref_ops\<close>).  User memory is kept by
    address space, so a child of fork starts with the contents of its parent.
  \<^item> \<open>Clock\<close>: reading the CMOS clock and converting dates (\<open>time.rs\<close>).

  \<^bold>\<open>State and effects.\<close>  Structs are records, mutable state is passed explicitly, \<open>Result\<close> is a sum with the error on the
  left, and a panic is the value \<open>Panic\<close>.  Machine integers are words with the wrap-around of the release profile.  Hardware, other
  crates and the clock are parameters.  Spin locks are not modelled: every operation runs alone, as it does under the lock the
  source holds.  Loops that end are total functions; loops that follow links on a disk or poll a device are partial functions with
  the value \<open>None\<close> for a run that does not end, and the theorems state that they return.

  \<^bold>\<open>Device time.\<close>  The contract \<open>block_device\<close> has a budget: \<open>ready b d\<close> says that the device still answers \<open>b\<close> more commands.
  Theorems ask for the budget their operation uses (\<open>ahci_cost\<close>: three commands' worth per sector), so a disk that stops
  answering is not ruled out; the sample disk of the witnesses has a budget of \<open>2 ^ 20\<close>.

  \<^bold>\<open>What the theorems show.\<close>  Frames are never handed out twice and freeing gives them back; heap blocks are disjoint, aligned and of
  the requested size; what is written to the AHCI disk is what is read back; the PCI scan finds every function; GPT corruption is
  detected; table writes, file reads and writes, creating and removing files change exactly the bytes they should; paths resolve to
  the longest mount point; and a file created through all layers is the file that is opened.  Copies to user memory stay in mapped
  user pages; a loaded program starts with its segments in place and finds its arguments on the stack; fork leaves no page
  writable by two processes, and a write fault gives the process a private copy and changes nothing else; a number in \<open>rax\<close> reaches
  its handler or is answered with \<open>ENOSYS\<close>; \<open>fork\<close> makes a ready copy of the caller, \<open>exec\<close> enters a new program with the same
  descriptors, and \<open>waitpid\<close> reaps exactly the process whose code it returns; descriptors are opened,
  duplicated and closed one at a time; the scheduler picks the first runnable process of the best priority and keeps at most one
  running; and dates convert to the Gregorian day count.  Lemmas beside them show where the source departs from what it means
  to do (pages shared twice by fork, the pointer left behind by reaping, a read into an
  unmapped buffer, the clock at the end of a month).

  \<^bold>\<open>Not modelled.\<close>  Concurrency between processors, switching of contexts and the register-level start-up of the hardware, which are
  assembly or device access; the ext2 and proc filesystems, the terminal and the framebuffer, whose rendering is another crate's; the
  boot loader and the programs in user space; FAT long names and time stamps,
  which the source does not implement either.  Names are ASCII.
\<close>

section \<open>Creating and opening a file, from the path to the disk\<close>

lemma contains_all [simp]: "contains all_permissions OWNER_READ"
  by (simp add: contains_def all_permissions_def OWNER_READ_def)

text \<open>
  C7: A file created through the virtual filesystem is the file that is opened.  On a FAT12 or FAT16 volume of the
  AHCI disk mounted at \<open>/\<close>, creating a new file by its path succeeds, and opening the same path afterwards gives
  the very same inode, as long as a reference to it is kept; the inode stands for the new, empty directory
  entry.
\<close>

theorem create_then_open:
  assumes "volume (fs_bpb fs) (fs_partition_offset fs) capacity" "fixed_root fs"
    and "canonical [nm]" "valid_8_3 nm" "name_to_8_3 nm ! 0 \<notin> {0x00, 0xE5}"
    and "path_to_fs v (''/'' @ nm) = Some (''/'', u)"
    and "List.find (named nm) (root_entries (fs_bpb fs) (fs_partition_offset fs) (disk_content img (fs_device fs))) = None"
    and "free_slot (span (disk_content img (fs_device fs)) (fat_end (fs_bpb fs) (fs_partition_offset fs)) (root_dir_size (fs_bpb fs))) = Some i"
    and "ino_cache fs \<lparr>dir_cluster = 0, entry_index = i, in_root = True\<rparr> = None" "alive (length (inodes fs) + 1)"
    and "disk_ready m A H ip p img idle capacity (n + 4 * ahci_cost (root_dir_size (fs_bpb fs))) (fs_device fs)"
  shows "\<exists>fs1 fs2. create_file (fat_vfs (disk_ops H m ip) alive now) v (''/'' @ nm) permissions fs = Some (fs1, Inr (length (inodes fs) + 1))
    \<and> open_file (fat_vfs (disk_ops H m ip) alive now') v (''/'' @ nm) fs1 = Some (fs2, Inr (length (inodes fs) + 1))
    \<and> ino_data (inodes fs2 ! (length (inodes fs) + 1)) = FatFile \<lparr>file_entry = new_entry nm False 0, file_cursor = 0, file_dir_cluster = 0,
        file_entry_index = i, file_in_root = True\<rparr>"
proof -
  let ?b = "fs_bpb fs" and ?po = "fs_partition_offset fs" and ?e = "new_entry nm False 0" and ?k = "length (inodes fs)"
  let ?key = "\<lparr>dir_cluster = 0, entry_index = i, in_root = True\<rparr> :: inode_key" and ?ops = "disk_ops H m ip"
  obtain r where r: "fat_root_dir now fs = (fs\<lparr>inodes := inodes fs @ [r]\<rparr>, ?k)" "ino_data r = FatDirectory 0 True"
    using fat_root_dir_inode [OF assms(2)] by blast
  let ?fs = "fs\<lparr>inodes := inodes fs @ [r]\<rparr>"
  have fr: "fixed_root ?fs" using assms(2) by (simp add: fixed_root_def)
  have rd: "disk_ready m A H ip p img idle capacity ((n + ahci_cost (root_dir_size ?b)) + 3 * ahci_cost (root_dir_size ?b)) (fs_device fs)"
    using assms(11) by (simp add: algebra_simps)
  from disk.dir_create_root [of ?fs, OF _ fr assms(4,5), of capacity img i 0 m A H ip p idle "n + ahci_cost (root_dir_size ?b)" alive now]
    assms(1,7,8,9) rd obtain d1 where
    d1: "dir_create ?ops alive now 0 True nm File ?fs = Some (apsnd Inr (create_and_cache_inode now 0 True ?key ?e i (?fs\<lparr>fs_device := d1\<rparr>)))"
      "disk_ready m A H ip p img idle capacity (n + ahci_cost (root_dir_size ?b)) d1"
      "List.find (named nm) (root_entries ?b ?po (disk_content img d1)) = Some (?e, i)" by auto
  obtain fs1 where fs1: "create_and_cache_inode now 0 True ?key ?e i (?fs\<lparr>fs_device := d1\<rparr>) = (fs1, ?k + 1)"
      "fs_device fs1 = d1" "fs_bpb fs1 = ?b" "fs_partition_offset fs1 = ?po" "fixed_root fs1" "ino_cache fs1 ?key = Some (?k + 1)"
      "length (inodes fs1) = ?k + 2" "ino_perms (inodes fs1 ! (?k + 1)) = all_permissions"
      "ino_data (inodes fs1 ! (?k + 1)) = FatFile \<lparr>file_entry = ?e, file_cursor = 0, file_dir_cluster = 0, file_entry_index = i, file_in_root = True\<rparr>"
    using assms(2) new_entry_file(6) [OF assms(4,5), of 0]
    by (auto simp: create_and_cache_inode_def add_inode_def Let_def fixed_root_def new_entry_def set_first_cluster_def ATTR_ARCHIVE_def ATTR_READ_ONLY_def nth_append)
  have create: "create_file (fat_vfs ?ops alive now) v (''/'' @ nm) permissions fs = Some (fs1, Inr (?k + 1))"
    unfolding open_top_level(2) [OF assms(3,6)] using r d1(1) fs1(1) by (simp add: ino_create_def)
  obtain r' where r': "fat_root_dir now' fs1 = (fs1\<lparr>inodes := inodes fs1 @ [r']\<rparr>, ?k + 2)" "ino_data r' = FatDirectory 0 True"
    using fat_root_dir_inode [OF fs1(5)] fs1(7) by auto
  let ?fs1 = "fs1\<lparr>inodes := inodes fs1 @ [r']\<rparr>"
  have "fixed_root ?fs1" using fs1(5) by (simp add: fixed_root_def)
  with disk.dir_lookup_cached [of ?fs1 capacity nm img ?e i 0 "?k + 1" alive m A H ip p idle n now'] assms(1,10) d1(2,3) fs1(2-6) obtain d2 where
    d2: "dir_lookup ?ops alive now' 0 True nm ?fs1 = Some (?fs1\<lparr>fs_device := d2\<rparr>, Inr (?k + 1))" by auto
  have "open_file (fat_vfs ?ops alive now') v (''/'' @ nm) fs1 = Some (?fs1\<lparr>fs_device := d2\<rparr>, Inr (?k + 1))"
    unfolding open_top_level(1) [OF assms(3,6)] using r' d2 fs1(7,8) by (simp add: ino_lookup_def nth_append)
  then show ?thesis using create fs1(7,9) by (intro exI conjI) (assumption, assumption, simp add: nth_append)
qed

theorem create_then_open_witness:
  "\<exists>fs1 fs2. create_file (fat_vfs (disk_ops (ideal_hba sample_port) flat_mapper True) (\<lambda>_. True) 0) [(''/'', ())] ''/readme.txt'' 0x1FF (sample_fs (\<lambda>_. 0))
      = Some (fs1, Inr 1)
    \<and> open_file (fat_vfs (disk_ops (ideal_hba sample_port) flat_mapper True) (\<lambda>_. True) 1) [(''/'', ())] ''/readme.txt'' fs1 = Some (fs2, Inr 1)"
proof -
  have r: "disk_ready flat_mapper UNIV (ideal_hba sample_port) True sample_port (\<lambda>h. h) (\<lambda>_. True) (2 ^ 40)
      (0 + 4 * ahci_cost (root_dir_size sample_bpb)) (sample_disk (\<lambda>_. 0))"
    by (rule sample_disk_ready) (simp add: sample_fat_end ahci_cost_def)
  have c: "canonical [''readme.txt'']" by (simp add: canonical_def)
  have p: "path_to_fs [(''/'', ())] (''/'' @ ''readme.txt'') = Some (''/'', ())"
    using top_level_parts(1) [OF c] by (simp add: path_to_fs_def better_def)
  from create_then_open [where fs = "sample_fs (\<lambda>_. 0)" and img = "\<lambda>h. h" and alive = "\<lambda>_. True", unfolded sample_fs_simps(1-5) sample_disk_content,
      OF sample_bpb_volume sample_fs_simps(6) c readme_8_3 p sample_empty_root refl TrueI r, of 0 "0x1FF" 1] show ?thesis by auto
qed

end
